(* ===== verification/Prelude.thy ===== *)
theory Prelude
  imports Main "HOL-Library.Word" "HOL-Library.List_Lexorder" "HOL-Library.Product_Lexorder"
begin

text \<open>
  Vocabulary shared by every component of the development.

  \<^item> byte strings and the lexicographic order the source's \<^verbatim>\<open>Vec<u8>\<close> keys have;
  \<^item> results with an error (\<^verbatim>\<open>Result<T, E>\<close> of the source), as a sum whose left
    side is the error, and the sequencing of such results;
  \<^item> ordered maps (\<^verbatim>\<open>BTreeMap<K, V>\<close>) as association lists with strictly
    increasing keys, with the contract of the map as the locale \<open>ordered_map\<close>,
    interpreted on them;
  \<^item> sorted duplicate-free vectors, as \<^verbatim>\<open>Vec\<close> with \<^verbatim>\<open>binary_search\<close> keeps them.
\<close>

section \<open>Types and collections of facts\<close>

type_synonym byte = "8 word"
type_synonym bytes = "byte list"

text \<open>A fallible computation: \<^term>\<open>Inl e\<close> is \<^verbatim>\<open>Err(e)\<close>, \<^term>\<open>Inr x\<close> is \<^verbatim>\<open>Ok(x)\<close>.\<close>

type_synonym ('e, 'a) result = "'e + 'a"

named_theorems wf_intros \<open>preservation of well-formedness\<close>
named_theorems wire_simps \<open>equations of the wire conversions\<close>
named_theorems model_defs \<open>plain definitions that automation may unfold\<close>

lemma unat_byte_less: "unat (b :: byte) < 256"
proof -
  have "unat b < 2 ^ LENGTH(8)" by (rule unsigned_less)
  then show ?thesis by simp
qed

lemma unat_of_nat_small:
  "n < 2 ^ LENGTH('a) \<Longrightarrow> unat (word_of_nat n :: 'a::len word) = n"
  by (simp add: unsigned_of_nat take_bit_nat_eq_self)

lemma unat_drop_bit_div: "unat (drop_bit k w) = unat w div 2 ^ k"
  unfolding unat_drop_bit_eq by (rule drop_bit_eq_div)

section \<open>Results\<close>

fun bind_r :: "('e, 'a) result \<Rightarrow> ('a \<Rightarrow> ('e, 'b) result) \<Rightarrow> ('e, 'b) result" where
  "bind_r (Inl e) f = Inl e"
| "bind_r (Inr x) f = f x"

fun map_r :: "('a \<Rightarrow> 'b) \<Rightarrow> ('e, 'a) result \<Rightarrow> ('e, 'b) result" where
  "map_r f (Inl e) = Inl e"
| "map_r f (Inr x) = Inr (f x)"

fun is_ok :: "('e, 'a) result \<Rightarrow> bool" where
  "is_ok (Inl e) = False"
| "is_ok (Inr x) = True"

text \<open>\<^verbatim>\<open>iter().map(f).collect::<Result<Vec<_>, _>>()\<close>: the first error wins.\<close>

fun traverse_r :: "('a \<Rightarrow> ('e, 'b) result) \<Rightarrow> 'a list \<Rightarrow> ('e, 'b list) result" where
  "traverse_r f [] = Inr []"
| "traverse_r f (x # xs) =
     (case f x of Inl e \<Rightarrow> Inl e
      | Inr y \<Rightarrow> (case traverse_r f xs of Inl e \<Rightarrow> Inl e | Inr ys \<Rightarrow> Inr (y # ys)))"

lemma bind_r_ok_iff: "bind_r r f = Inr y \<longleftrightarrow> (\<exists>x. r = Inr x \<and> f x = Inr y)"
  by (cases r) auto

lemma map_r_ok_iff: "map_r f r = Inr y \<longleftrightarrow> (\<exists>x. r = Inr x \<and> f x = y)"
  by (cases r) auto

lemma traverse_r_map [simp]:
  "(\<And>x. x \<in> set xs \<Longrightarrow> f (g x) = Inr x) \<Longrightarrow> traverse_r f (map g xs) = Inr xs"
  by (induction xs) auto

lemma traverse_r_iff_all2: "traverse_r f xs = Inr ys \<longleftrightarrow> list_all2 (\<lambda>x y. f x = Inr y) xs ys"
proof (induction xs arbitrary: ys)
  case (Cons x xs)
  have "traverse_r f (x # xs) = Inr ys \<longleftrightarrow> (\<exists>z zs. ys = z # zs \<and> f x = Inr z \<and> traverse_r f xs = Inr zs)"
    by (auto split: sum.splits)
  then show ?case by (auto simp: Cons list_all2_Cons1)
qed auto

lemma traverse_r_iff_map:
  assumes "\<And>x y. f x = Inr y \<longleftrightarrow> x = g y \<and> P y"
  shows "traverse_r f xs = Inr ys \<longleftrightarrow> xs = map g ys \<and> (\<forall>y \<in> set ys. P y)"
  unfolding traverse_r_iff_all2 assms
proof (induction ys arbitrary: xs)
  case (Cons y ys)
  then show ?case by (cases xs) auto
qed simp

lemma traverse_r_length: "traverse_r f xs = Inr ys \<Longrightarrow> length ys = length xs"
  by (induction xs arbitrary: ys) (auto split: sum.splits)

lemma traverse_r_set:
  "traverse_r f xs = Inr ys \<Longrightarrow> y \<in> set ys \<Longrightarrow> \<exists>x \<in> set xs. f x = Inr y"
  by (induction xs arbitrary: ys) (auto split: sum.splits)

lemma traverse_r_all_ok:
  "(\<And>x. x \<in> set xs \<Longrightarrow> f x = Inr (g x)) \<Longrightarrow> traverse_r f xs = Inr (map g xs)"
  by (induction xs) auto

section \<open>Strictly increasing lists\<close>

text \<open>\<^verbatim>\<open>binary_search\<close> followed by \<^verbatim>\<open>insert\<close>/\<^verbatim>\<open>remove\<close> on a sorted vector.\<close>

abbreviation ascending :: "'a::linorder list \<Rightarrow> bool" where
  "ascending \<equiv> sorted_wrt (<)"

fun insert_sorted :: "'a::linorder \<Rightarrow> 'a list \<Rightarrow> 'a list" where
  "insert_sorted x [] = [x]"
| "insert_sorted x (y # ys) =
     (if x < y then x # y # ys else if x = y then y # ys else y # insert_sorted x ys)"

definition remove_sorted :: "'a::linorder \<Rightarrow> 'a list \<Rightarrow> 'a list" where
  [model_defs]: "remove_sorted x ys = filter (\<lambda>y. y \<noteq> x) ys"

lemma set_insert_sorted [simp]: "set (insert_sorted x ys) = insert x (set ys)"
  by (induction ys) auto

lemma ascending_insert_sorted [simp, wf_intros]:
  "ascending ys \<Longrightarrow> ascending (insert_sorted x ys)"
  by (induction ys) auto

lemma insert_sorted_not_Nil [simp]: "insert_sorted x ys \<noteq> []"
  by (cases ys) auto

lemma insert_sorted_absorb [simp]:
  "ascending ys \<Longrightarrow> x \<in> set ys \<Longrightarrow> insert_sorted x ys = ys"
  by (induction ys) auto

lemma set_remove_sorted [simp]: "set (remove_sorted x ys) = set ys - {x}"
  by (auto simp: remove_sorted_def)

lemma ascending_remove_sorted [simp, wf_intros]:
  "ascending ys \<Longrightarrow> ascending (remove_sorted x ys)"
  by (simp add: remove_sorted_def sorted_wrt_filter)

lemma remove_sorted_absent [simp]: "x \<notin> set ys \<Longrightarrow> remove_sorted x ys = ys"
  unfolding remove_sorted_def by (induction ys) auto

lemma ascending_distinct: "ascending ys \<Longrightarrow> distinct ys"
  by (induction ys) auto

lemma ascending_set_eq:
  "ascending xs \<Longrightarrow> ascending ys \<Longrightarrow> set xs = set ys \<Longrightarrow> xs = ys"
  by (metis strict_sorted_equal)

section \<open>Ordered maps\<close>

text \<open>A \<^verbatim>\<open>BTreeMap\<close>: its entries in key order. \<^const>\<open>map_of\<close> is \<^verbatim>\<open>get\<close>.\<close>

type_synonym ('k, 'v) omap = "('k \<times> 'v) list"

abbreviation om_wf :: "('k::linorder, 'v) omap \<Rightarrow> bool" where
  "om_wf m \<equiv> ascending (map fst m)"

abbreviation om_keys :: "('k, 'v) omap \<Rightarrow> 'k list" where
  "om_keys m \<equiv> map fst m"

fun om_insert :: "'k::linorder \<Rightarrow> 'v \<Rightarrow> ('k, 'v) omap \<Rightarrow> ('k, 'v) omap" where
  "om_insert k v [] = [(k, v)]"
| "om_insert k v ((a, b) # m) =
     (if k < a then (k, v) # (a, b) # m
      else if k = a then (k, v) # m else (a, b) # om_insert k v m)"

definition om_remove :: "'k \<Rightarrow> ('k, 'v) omap \<Rightarrow> ('k, 'v) omap" where
  [model_defs]: "om_remove k m = filter (\<lambda>p. fst p \<noteq> k) m"

text \<open>\<^verbatim>\<open>split_off(&k)\<close>: the entries kept, and the entries moved out (keys at or above k).\<close>

definition om_below :: "'k::linorder \<Rightarrow> ('k, 'v) omap \<Rightarrow> ('k, 'v) omap" where
  [model_defs]: "om_below k m = filter (\<lambda>p. fst p < k) m"

definition om_from :: "'k::linorder \<Rightarrow> ('k, 'v) omap \<Rightarrow> ('k, 'v) omap" where
  [model_defs]: "om_from k m = filter (\<lambda>p. k \<le> fst p) m"

text \<open>\<^verbatim>\<open>collect()\<close> of pairs into a \<^verbatim>\<open>BTreeMap\<close>: a later pair replaces an earlier one.\<close>

definition om_of_list :: "('k::linorder \<times> 'v) list \<Rightarrow> ('k, 'v) omap" where
  [model_defs]: "om_of_list ps = fold (\<lambda>(k, v). om_insert k v) ps []"

lemma om_insert_keys [simp]: "set (om_keys (om_insert k v m)) = insert k (set (om_keys m))"
  by (induction k v m rule: om_insert.induct) auto

lemma om_insert_fst [simp]: "fst ` set (om_insert k v m) = insert k (fst ` set m)"
  using om_insert_keys[of k v m] by simp

lemma om_wf_insert [simp, wf_intros]: "om_wf m \<Longrightarrow> om_wf (om_insert k v m)"
proof (induction k v m rule: om_insert.induct)
  case (2 k v a b m)
  have "\<forall>x \<in> set (om_keys (om_insert k v m)). a < x" if "a < k"
    using 2(2) that by (simp del: set_map)
  then show ?case using 2 by auto
qed simp

lemma map_of_om_insert [simp]:
  "om_wf m \<Longrightarrow> map_of (om_insert k v m) = (map_of m)(k \<mapsto> v)"
proof (induction k v m rule: om_insert.induct)
  case (2 k v a b m)
  then show ?case by (auto simp: fun_eq_iff)
qed simp

lemma om_insert_not_Nil [simp]: "om_insert k v m \<noteq> []"
  by (induction k v m rule: om_insert.induct) auto

lemma om_insert_last: "\<forall>a \<in> set (om_keys m). a < k \<Longrightarrow> om_insert k v m = m @ [(k, v)]"
  by (induction k v m rule: om_insert.induct) auto

lemma om_wf_filter [simp, wf_intros]: "om_wf m \<Longrightarrow> om_wf (filter P m)"
  by (induction m) auto

lemma om_wf_remove [simp, wf_intros]: "om_wf m \<Longrightarrow> om_wf (om_remove k m)"
  by (simp add: om_remove_def)

lemma om_wf_below [simp, wf_intros]: "om_wf m \<Longrightarrow> om_wf (om_below k m)"
  by (simp add: om_below_def)

lemma om_wf_from [simp, wf_intros]: "om_wf m \<Longrightarrow> om_wf (om_from k m)"
  by (simp add: om_from_def)

lemma om_wf_distinct: "om_wf m \<Longrightarrow> distinct (om_keys m)"
  by (rule ascending_distinct)

lemma map_of_filter_key:
  "map_of (filter (\<lambda>p. P (fst p)) m) k = (if P k then map_of m k else None)"
  by (induction m) auto

lemma map_of_om_remove [simp]: "map_of (om_remove k m) = (map_of m)(k := None)"
  by (auto simp: om_remove_def map_of_filter_key[where P = "\<lambda>a. a \<noteq> k"] fun_eq_iff)

lemma map_of_om_below: "map_of (om_below k m) x = (if x < k then map_of m x else None)"
  by (simp add: om_below_def map_of_filter_key[where P = "\<lambda>a. a < k"])

lemma map_of_om_from: "map_of (om_from k m) x = (if k \<le> x then map_of m x else None)"
  by (simp add: om_from_def map_of_filter_key[where P = "\<lambda>a. k \<le> a"])

lemma om_below_append_from: "om_wf m \<Longrightarrow> om_below k m @ om_from k m = m"
proof (induction m)
  case (Cons p m)
  show ?case
  proof (cases "fst p < k")
    case True
    then show ?thesis using Cons by (simp add: om_below_def om_from_def)
  next
    case False
    then have "\<forall>q \<in> set m. \<not> fst q < k" using Cons.prems by fastforce
    then show ?thesis using False
      by (auto simp: om_below_def om_from_def not_less filter_empty_conv intro!: filter_True)
  qed
qed (simp add: om_below_def om_from_def)

lemma om_wf_append:
  "om_wf (m @ n) \<longleftrightarrow> om_wf m \<and> om_wf n \<and> (\<forall>a \<in> set (om_keys m). \<forall>b \<in> set (om_keys n). a < b)"
  by (auto simp: sorted_wrt_append)

lemma om_keys_graph:
  "om_wf m \<Longrightarrow> map (\<lambda>k. (k, the (map_of m k))) (om_keys m) = m"
proof (induction m)
  case (Cons p m)
  then have IH: "map (\<lambda>q. (fst q, the (map_of m (fst q)))) m = m"
    by (simp add: comp_def)
  have "map (\<lambda>q. (fst q, the (map_of (p # m) (fst q)))) m
      = map (\<lambda>q. (fst q, the (map_of m (fst q)))) m"
    using Cons.prems by (cases p) auto
  then show ?case using IH by (cases p) (simp add: comp_def)
qed simp

lemma om_eqI:
  assumes "om_wf m" "om_wf n" "map_of m = map_of n"
  shows "m = n"
proof -
  have "set (om_keys m) = set (om_keys n)"
    using assms(3) by (metis dom_map_of_conv_image_fst set_map)
  then have "om_keys m = om_keys n" by (rule ascending_set_eq[OF assms(1,2)])
  then show ?thesis using om_keys_graph[OF assms(1)] om_keys_graph[OF assms(2)] assms(3)
    by metis
qed

lemma om_wf_of_list [simp, wf_intros]: "om_wf (om_of_list ps)"
proof -
  have "om_wf m \<Longrightarrow> om_wf (fold (\<lambda>(k, v). om_insert k v) ps m)" for m :: "('a, 'b) omap"
    by (induction ps arbitrary: m) auto
  then show ?thesis by (simp add: om_of_list_def)
qed

text \<open>
  The contract of an ordered map, and what follows from it for a sequence of
  insertions: the last pair of a key wins, and only the keys of the pairs
  change.
\<close>

locale ordered_map =
  fixes get :: "'m \<Rightarrow> 'k \<Rightarrow> 'v option"
    and put :: "'k \<Rightarrow> 'v \<Rightarrow> 'm \<Rightarrow> 'm"
    and del :: "'k \<Rightarrow> 'm \<Rightarrow> 'm"
    and inv :: "'m \<Rightarrow> bool"
  assumes get_put: "inv m \<Longrightarrow> get (put k v m) k' = (if k' = k then Some v else get m k')"
    and get_del: "inv m \<Longrightarrow> get (del k m) k' = (if k' = k then None else get m k')"
    and inv_put: "inv m \<Longrightarrow> inv (put k v m)"
    and inv_del: "inv m \<Longrightarrow> inv (del k m)"
begin

lemma inv_fold_put: "inv m \<Longrightarrow> inv (fold (\<lambda>(k, v). put k v) ps m)"
  by (induction ps arbitrary: m) (auto simp: inv_put)

lemma get_fold_put:
  "inv m \<Longrightarrow> get (fold (\<lambda>(k, v). put k v) ps m) k =
     (case map_of (rev ps) k of None \<Rightarrow> get m k | Some v \<Rightarrow> Some v)"
proof (induction ps arbitrary: m)
  case (Cons p ps)
  obtain a b where p: "p = (a, b)" by (cases p)
  have "inv (put a b m)" using Cons.prems by (rule inv_put)
  from Cons.IH[OF this] show ?case
    using Cons.prems by (auto simp: p get_put map_add_def split: option.splits)
qed simp

lemma get_fold_put_other:
  "inv m \<Longrightarrow> k \<notin> fst ` set ps \<Longrightarrow> get (fold (\<lambda>(k, v). put k v) ps m) k = get m k"
  by (auto simp: get_fold_put map_of_eq_None_iff split: option.splits)
    (metis image_eqI fst_conv map_of_SomeD set_rev)

lemma get_fold_put_distinct:
  "inv m \<Longrightarrow> distinct (map fst ps) \<Longrightarrow> (k, v) \<in> set ps \<Longrightarrow>
     get (fold (\<lambda>(k, v). put k v) ps m) k = Some v"
  by (simp add: get_fold_put map_of_is_SomeI rev_map[symmetric])

end

interpretation om: ordered_map map_of om_insert om_remove om_wf
  by unfold_locales auto

lemma map_of_rev_distinct: "distinct (map fst m) \<Longrightarrow> map_of (rev m) = map_of m"
  by (rule map_of_inject_set[THEN iffD2]) (simp_all add: rev_map[symmetric])

lemma map_of_om_of_list: "map_of (om_of_list ps) k = map_of (rev ps) k"
  unfolding om_of_list_def by (subst om.get_fold_put) (auto split: option.splits)

lemma om_of_list_id: "om_wf m \<Longrightarrow> om_of_list m = m"
proof (rule om_eqI)
  assume wf: "om_wf m"
  show "map_of (om_of_list m) = map_of m"
    using map_of_rev_distinct[OF om_wf_distinct[OF wf]] by (simp add: fun_eq_iff map_of_om_of_list)
qed simp_all

text \<open>Splitting at the key of a position is splitting at the position.\<close>

lemma om_split_append:
  assumes "\<forall>p \<in> set xs. fst p < k" "\<forall>p \<in> set ys. k \<le> fst p"
  shows "om_below k (xs @ ys) = xs" "om_from k (xs @ ys) = ys"
proof -
  have "filter (\<lambda>p. fst p < k) xs = xs" "filter (\<lambda>p. fst p < k) ys = []"
    "filter (\<lambda>p. k \<le> fst p) xs = []" "filter (\<lambda>p. k \<le> fst p) ys = ys"
    using assms by (auto simp: filter_id_conv filter_empty_conv)
  then show "om_below k (xs @ ys) = xs" "om_from k (xs @ ys) = ys"
    by (simp_all add: om_below_def om_from_def)
qed

lemma om_split_nth:
  assumes "om_wf m" "i < length m"
  shows "om_below (om_keys m ! i) m = take i m" "om_from (om_keys m ! i) m = drop i m"
proof -
  have m: "m = take i m @ m ! i # drop (Suc i) m"
    using assms(2) by (simp add: id_take_nth_drop)
  have "om_wf (take i m @ m ! i # drop (Suc i) m)" using assms(1) m by simp
  then have lt: "\<forall>p \<in> set (take i m). fst p < fst (m ! i)"
    and ge: "\<forall>p \<in> set (m ! i # drop (Suc i) m). fst (m ! i) \<le> fst p"
    by (auto simp: sorted_wrt_append)
  have "m ! i # drop (Suc i) m = drop i m" using assms(2) by (simp add: Cons_nth_drop_Suc)
  then show "om_below (om_keys m ! i) m = take i m" "om_from (om_keys m ! i) m = drop i m"
    using om_split_append[OF lt ge] assms(2) by simp_all
qed

section \<open>Grouping by key\<close>

text \<open>\<^verbatim>\<open>entry(key).or_insert_with(default)\<close> followed by an update of the entry.\<close>

definition om_upsert ::
    "('k \<Rightarrow> 'v) \<Rightarrow> ('a \<Rightarrow> 'k::linorder) \<Rightarrow> ('a \<Rightarrow> 'v \<Rightarrow> 'v) \<Rightarrow> 'a \<Rightarrow> ('k, 'v) omap \<Rightarrow> ('k, 'v) omap" where
  "om_upsert dflt key f x m =
     om_insert (key x) (f x (case map_of m (key x) of None \<Rightarrow> dflt (key x) | Some v \<Rightarrow> v)) m"

lemma om_wf_fold_upsert [simp, wf_intros]: "om_wf m \<Longrightarrow> om_wf (fold (om_upsert dflt key f) xs m)"
  by (induction xs arbitrary: m) (auto simp: om_upsert_def)

lemma map_of_fold_upsert:
  assumes "om_wf m"
  shows "map_of (fold (om_upsert dflt key f) xs m) c =
     (if \<exists>x \<in> set xs. key x = c
      then Some (fold f (filter (\<lambda>x. key x = c) xs) (case map_of m c of None \<Rightarrow> dflt c | Some v \<Rightarrow> v))
      else map_of m c)"
  using assms
proof (induction xs arbitrary: m)
  case (Cons x xs)
  have "om_wf (om_upsert dflt key f x m)" using Cons.prems by (simp add: om_upsert_def)
  from Cons.IH[OF this] show ?case
    using Cons.prems by (auto simp: om_upsert_def split: option.split)
qed simp

lemma om_keys_fold_upsert [simp]:
  "set (om_keys (fold (om_upsert dflt key f) xs m)) = key ` set xs \<union> set (om_keys m)"
  by (induction xs arbitrary: m) (auto simp: om_upsert_def)

end
