(* ===== verification/Timeline.thy ===== *)
theory Timeline
  imports Prelude
begin

text \<open>
  Sequence points, currentness barriers and freshness requirements
  (\<^verbatim>\<open>glassdb-storage/src/timeline.rs\<close>). Points are \<^verbatim>\<open>u64\<close>, kept as naturals with the
  saturating operations written out. The elapsed time of the monotonic clock, in
  nanoseconds, is an argument of each allocation.

  \<open>now\<close> retries a compare-exchange on the shared last point. Concurrency enters
  as the list of values that the atomic holds at the successive attempts; the
  attempt that finds the value it expects succeeds and stores the point.
\<close>

definition U64_MAX :: nat where
  "U64_MAX = 2 ^ 64 - 1"

definition saturating_add :: "nat \<Rightarrow> nat \<Rightarrow> nat" where
  "saturating_add a b = min U64_MAX (a + b)"

definition duration_to_nanos :: "nat \<Rightarrow> nat" where
  "duration_to_nanos nanos = min nanos U64_MAX"

text \<open>\<^verbatim>\<open>SequencePoint\<close> and \<^verbatim>\<open>CurrentnessBarrier\<close> wrap one \<^verbatim>\<open>u64\<close>; \<^verbatim>\<open>Requirement\<close> an optional one.\<close>

datatype sequence_point = SequencePoint (sp_raw: nat)
datatype currentness_barrier = CurrentnessBarrier (cb_point: sequence_point)
datatype requirement = Requirement "sequence_point option"

instantiation sequence_point :: linorder
begin

definition less_eq_sequence_point :: "sequence_point \<Rightarrow> sequence_point \<Rightarrow> bool" where
  [model_defs]: "less_eq_sequence_point a b \<longleftrightarrow> sp_raw a \<le> sp_raw b"

definition less_sequence_point :: "sequence_point \<Rightarrow> sequence_point \<Rightarrow> bool" where
  [model_defs]: "less_sequence_point a b \<longleftrightarrow> sp_raw a < sp_raw b"

instance
  by standard (auto simp: less_eq_sequence_point_def less_sequence_point_def sequence_point.expand)

end

definition is_reached_by :: "currentness_barrier \<Rightarrow> sequence_point \<Rightarrow> bool" where
  "is_reached_by b p \<longleftrightarrow> cb_point b \<le> p"

definition ANY :: requirement where
  "ANY = Requirement None"

definition req_after :: "currentness_barrier \<Rightarrow> requirement" where
  "req_after b = Requirement (Some (cb_point b))"

text \<open>\<^verbatim>\<open>Option::max\<close>, with \<^verbatim>\<open>None\<close> below every point.\<close>

fun stricter :: "requirement \<Rightarrow> requirement \<Rightarrow> requirement" where
  "stricter (Requirement None) r = r"
| "stricter r (Requirement None) = r"
| "stricter (Requirement (Some a)) (Requirement (Some b)) = Requirement (Some (max a b))"

fun is_satisfied_by :: "requirement \<Rightarrow> sequence_point \<Rightarrow> bool" where
  "is_satisfied_by (Requirement None) current_after \<longleftrightarrow> True"
| "is_satisfied_by (Requirement (Some bound)) current_after \<longleftrightarrow> bound \<le> current_after"

section \<open>Allocating points\<close>

record timeline =
  tl_base :: nat
  tl_last :: nat

text \<open>\<^term>\<open>None\<close> where \<^verbatim>\<open>expect("persistent cache rejects exhausted sequence points")\<close> panics.\<close>

definition timeline_from_source :: "sequence_point option \<Rightarrow> timeline option" where
  "timeline_from_source previous =
     (case previous of
        None \<Rightarrow> Some \<lparr>tl_base = 0, tl_last = 0\<rparr>
      | Some p \<Rightarrow>
          if sp_raw p < U64_MAX
          then Some \<lparr>tl_base = sp_raw p + 1, tl_last = sp_raw p\<rparr>
          else None)"

text \<open>The compare-exchange loop. \<open>seen\<close> are the values of the atomic at the attempts; the result
  is the value replaced and the point stored, or \<^term>\<open>None\<close> when no attempt succeeds.\<close>

fun now_loop :: "nat \<Rightarrow> nat \<Rightarrow> nat list \<Rightarrow> (nat \<times> nat) option" where
  "now_loop elapsed current [] = None"
| "now_loop elapsed current (actual # seen) =
     (let next = max elapsed (saturating_add current 1)
      in if actual = current then Some (actual, next) else now_loop elapsed actual seen)"

text \<open>An allocation that meets no contention: the first attempt finds the value it loaded.\<close>

definition timeline_now :: "nat \<Rightarrow> timeline \<Rightarrow> sequence_point \<times> timeline" where
  "timeline_now elapsed t =
     (case now_loop (saturating_add (tl_base t) (duration_to_nanos elapsed)) (tl_last t) [tl_last t] of
        None \<Rightarrow> (SequencePoint (tl_last t), t)
      | Some (_, next) \<Rightarrow> (SequencePoint next, t\<lparr>tl_last := next\<rparr>))"

definition currentness_barrier_of :: "nat \<Rightarrow> timeline \<Rightarrow> currentness_barrier \<times> timeline" where
  "currentness_barrier_of elapsed t = map_prod CurrentnessBarrier id (timeline_now elapsed t)"

definition approximate_cutoff :: "nat \<Rightarrow> nat \<Rightarrow> timeline \<Rightarrow> sequence_point \<times> timeline" where
  "approximate_cutoff elapsed max_staleness t =
     (let (p, t') = timeline_now elapsed t
      in (SequencePoint (max (sp_raw p - duration_to_nanos max_staleness) (tl_base t)), t'))"

text \<open>\<^verbatim>\<open>Requirement::within\<close>; \<^term>\<open>None\<close> is \<^verbatim>\<open>Duration::MAX\<close>.\<close>

definition req_within :: "nat \<Rightarrow> nat option \<Rightarrow> timeline \<Rightarrow> requirement \<times> timeline" where
  "req_within elapsed max_staleness t =
     (case max_staleness of
        None \<Rightarrow> (ANY, t)
      | Some d \<Rightarrow> map_prod (\<lambda>p. Requirement (Some p)) id (approximate_cutoff elapsed d t))"

section \<open>Lemmas\<close>

lemma now_loop_result:
  assumes "now_loop elapsed current seen = Some (old, next)"
  shows "old \<in> set seen \<and> next = max elapsed (saturating_add old 1)"
  using assms by (induction elapsed current seen rule: now_loop.induct) (auto simp: Let_def split: if_splits)

lemma timeline_now_eq:
  "timeline_now elapsed t =
     (let next = max (saturating_add (tl_base t) (duration_to_nanos elapsed)) (saturating_add (tl_last t) 1)
      in (SequencePoint next, t\<lparr>tl_last := next\<rparr>))"
  by (simp add: timeline_now_def Let_def)

lemma is_satisfied_by_mono: "is_satisfied_by r p \<Longrightarrow> p \<le> q \<Longrightarrow> is_satisfied_by r q"
  by (cases "(r, p)" rule: is_satisfied_by.cases) auto

lemma now_loop_terminates:
  assumes "seen = pre @ [v, v]"
  shows "now_loop elapsed current seen \<noteq> None"
  using assms
proof (induction pre arbitrary: seen current)
  case Nil
  then show ?case by (simp add: Let_def)
next
  case (Cons a pre)
  then show ?case by (simp add: Let_def)
qed

text \<open>The points a timeline hands out over a run: one per clock reading.\<close>

fun timeline_run :: "nat list \<Rightarrow> timeline \<Rightarrow> sequence_point list" where
  "timeline_run [] t = []"
| "timeline_run (e # es) t = (let (p, t') = timeline_now e t in p # timeline_run es t')"

lemma saturating_add_less: "a < U64_MAX \<Longrightarrow> a < saturating_add a 1"
  by (simp add: saturating_add_def)

lemma saturating_add_le [simp]: "saturating_add a b \<le> U64_MAX"
  by (simp add: saturating_add_def)

lemma timeline_run_saturated:
  "p \<in> set (timeline_run es t) \<Longrightarrow> U64_MAX \<le> tl_last t \<Longrightarrow> U64_MAX \<le> sp_raw p"
proof (induction es arbitrary: t)
  case (Cons e es)
  let ?n = "max (saturating_add (tl_base t) (duration_to_nanos e)) (saturating_add (tl_last t) 1)"
  have "U64_MAX \<le> ?n" using Cons.prems by (simp add: saturating_add_def le_max_iff_disj)
  then show ?case using Cons.IH[of "t\<lparr>tl_last := ?n\<rparr>"] Cons.prems by (auto simp: timeline_now_eq Let_def)
qed simp

lemma timeline_run_above:
  assumes "p \<in> set (timeline_run es t)" "tl_last t < U64_MAX"
  shows "tl_last t < sp_raw p"
  using assms
proof (induction es arbitrary: t)
  case (Cons e es)
  let ?n = "max (saturating_add (tl_base t) (duration_to_nanos e)) (saturating_add (tl_last t) 1)"
  have n: "tl_last t < ?n" using Cons.prems saturating_add_less[of "tl_last t"] by simp
  show ?case
  proof (cases "p = SequencePoint ?n")
    case False
    then have p: "p \<in> set (timeline_run es (t\<lparr>tl_last := ?n\<rparr>))"
      using Cons.prems by (simp add: timeline_now_eq Let_def)
    then show ?thesis
    proof (cases "?n < U64_MAX")
      case True
      then show ?thesis using Cons.IH[OF p] n by (simp del: max_less_iff_conj)
    next
      case False
      then show ?thesis using timeline_run_saturated[OF p] Cons.prems by (simp del: max_less_iff_conj)
    qed
  qed (use n in simp)
qed simp

section \<open>Properties\<close>

text \<open>C28: the points a timeline allocates are strictly increasing until the counter is exhausted:
  whatever the clock readings, a later point is above an earlier one that is below the maximum.\<close>

theorem timeline_strictly_increasing:
  assumes "i < j" "j < length (timeline_run es t)" "sp_raw (timeline_run es t ! i) < U64_MAX"
  shows "timeline_run es t ! i < timeline_run es t ! j"
  using assms
proof (induction es arbitrary: t i j)
  case (Cons e es)
  let ?n = "max (saturating_add (tl_base t) (duration_to_nanos e)) (saturating_add (tl_last t) 1)"
  have run: "timeline_run (e # es) t = SequencePoint ?n # timeline_run es (t\<lparr>tl_last := ?n\<rparr>)"
    by (simp add: timeline_now_eq Let_def)
  obtain j' where j: "j = Suc j'" using Cons.prems(1) by (cases j) auto
  show ?case
  proof (cases i)
    case 0
    have "timeline_run es (t\<lparr>tl_last := ?n\<rparr>) ! j' \<in> set (timeline_run es (t\<lparr>tl_last := ?n\<rparr>))"
      using Cons.prems(2) j run by simp
    from timeline_run_above[OF this] show ?thesis
      using Cons.prems(3) 0 j run by (simp add: less_sequence_point_def)
  next
    case (Suc i')
    then show ?thesis using Cons.IH[of i' j' "t\<lparr>tl_last := ?n\<rparr>"] Cons.prems j run by simp
  qed
qed simp

theorem timeline_strictly_increasing_witness:
  "timeline_run [0, 0] \<lparr>tl_base = 0, tl_last = 0\<rparr> ! 0 < timeline_run [0, 0] \<lparr>tl_base = 0, tl_last = 0\<rparr> ! 1"
  using timeline_strictly_increasing[of 0 1 "[0, 0]" "\<lparr>tl_base = 0, tl_last = 0\<rparr>"]
  by (simp add: timeline_now_eq saturating_add_def duration_to_nanos_def U64_MAX_def)

text \<open>C29: the combination of two requirements is satisfied exactly by the evidence that satisfies
  both, and a requirement after a barrier exactly by the points that reach it.\<close>

theorem stricter_satisfied_iff:
  "(is_satisfied_by (stricter a b) p \<longleftrightarrow> is_satisfied_by a p \<and> is_satisfied_by b p)
   \<and> (is_satisfied_by (req_after c) p \<longleftrightarrow> is_reached_by c p)"
  by (cases "(a, b)" rule: stricter.cases) (auto simp: req_after_def is_reached_by_def max_def)

end
