(* ===== verification/Base64.thy ===== *)
theory Base64
  imports Prelude "HOL-Library.Char_ord"
begin

text \<open>
  The order-preserving, unpadded base64 codec of \<^verbatim>\<open>glassdb-data/src/base64.rs\<close>.
  A \<^verbatim>\<open>str\<close> is modelled by its bytes, one \<^typ>\<open>char\<close> each. The loops of
  \<^verbatim>\<open>encode\<close> and \<^verbatim>\<open>decode\<close>, which advance an index by three (four) bytes, are
  recursions that consume three (four) elements; the trailing \<^verbatim>\<open>match\<close> on the
  remaining length are the short patterns. Group values keep the width \<^verbatim>\<open>u32\<close>
  they have in the source.
\<close>

unbundle bit_operations_syntax

datatype DecodeError = InvalidByte char | InvalidLength

definition ALPHABET :: string where
  "ALPHABET = ''0123456789=ABCDEFGHIJKLMNOPQRSTUVWXYZ_abcdefghijklmnopqrstuvwxyz''"

text \<open>\<^verbatim>\<open>build_rev\<close>: position of each alphabet character, -1 elsewhere; the loop writes
  positions 0 to 63 in order.\<close>

definition build_rev :: "char \<Rightarrow> int" where
  "build_rev = fold (\<lambda>i rev. rev(ALPHABET ! i := int i)) [0..<64] (\<lambda>_. -1)"

definition decode_symbol :: "char \<Rightarrow> (DecodeError, 32 word) result" where
  "decode_symbol symbol =
     (let value = build_rev symbol
      in if value < 0 then Inl (InvalidByte symbol) else Inr (word_of_int value))"

definition alphabet_at :: "32 word \<Rightarrow> char" where
  "alphabet_at w = ALPHABET ! unat w"

text \<open>The two assertions of \<^verbatim>\<open>encode_u12\<close>'s caller are the \<^term>\<open>None\<close> branch: the source
  panics there.\<close>

definition encode_u12 :: "nat \<Rightarrow> string option" where
  "encode_u12 v = (if v < 2 ^ 12 then Some [ALPHABET ! (v div 2 ^ 6), ALPHABET ! (v mod 64)] else None)"

fun decode_u12 :: "string \<Rightarrow> (DecodeError, nat) result" where
  "decode_u12 [c, d] =
     bind_r (decode_symbol c) (\<lambda>x. bind_r (decode_symbol d) (\<lambda>y.
       Inr (unat (push_bit 6 x OR y))))"
| "decode_u12 _ = Inl InvalidLength"

definition group3 :: "byte \<Rightarrow> byte \<Rightarrow> byte \<Rightarrow> 32 word" where
  "group3 a b c = push_bit 16 (ucast a) OR push_bit 8 (ucast b) OR ucast c"

fun encode :: "bytes \<Rightarrow> string" where
  "encode [] = []"
| "encode [a] =
     (let n = push_bit 16 (ucast a) :: 32 word
      in [alphabet_at (drop_bit 18 n AND 63), alphabet_at (drop_bit 12 n AND 63)])"
| "encode [a, b] =
     (let n = push_bit 16 (ucast a) OR push_bit 8 (ucast b) :: 32 word
      in [alphabet_at (drop_bit 18 n AND 63), alphabet_at (drop_bit 12 n AND 63),
          alphabet_at (drop_bit 6 n AND 63)])"
| "encode (a # b # c # rest) =
     (let n = group3 a b c
      in alphabet_at (drop_bit 18 n AND 63) # alphabet_at (drop_bit 12 n AND 63) #
         alphabet_at (drop_bit 6 n AND 63) # alphabet_at (n AND 63) # encode rest)"

fun decode :: "string \<Rightarrow> (DecodeError, bytes) result" where
  "decode [] = Inr []"
| "decode [p] = Inl InvalidLength"
| "decode [p, q] =
     bind_r (decode_symbol p) (\<lambda>x. bind_r (decode_symbol q) (\<lambda>y.
       let n = push_bit 18 x OR push_bit 12 y in Inr [ucast (drop_bit 16 n)]))"
| "decode [p, q, r] =
     bind_r (decode_symbol p) (\<lambda>x. bind_r (decode_symbol q) (\<lambda>y.
     bind_r (decode_symbol r) (\<lambda>z.
       let n = push_bit 18 x OR push_bit 12 y OR push_bit 6 z
       in Inr [ucast (drop_bit 16 n), ucast (drop_bit 8 n)])))"
| "decode (p # q # r # s # rest) =
     bind_r (decode_symbol p) (\<lambda>x. bind_r (decode_symbol q) (\<lambda>y.
     bind_r (decode_symbol r) (\<lambda>z. bind_r (decode_symbol s) (\<lambda>w.
       let n = push_bit 18 x OR push_bit 12 y OR push_bit 6 z OR w
       in map_r (\<lambda>out. ucast (drop_bit 16 n) # ucast (drop_bit 8 n) # ucast n # out)
            (decode rest)))))"

section \<open>The alphabet\<close>

lemma length_ALPHABET [simp]: "length ALPHABET = 64"
  by (simp add: ALPHABET_def)

lemma ALPHABET_ascending: "sorted_wrt (<) ALPHABET"
  unfolding ALPHABET_def by code_simp

lemma ALPHABET_less_iff [simp]:
  "i < 64 \<Longrightarrow> j < 64 \<Longrightarrow> ALPHABET ! i < ALPHABET ! j \<longleftrightarrow> i < j"
  using sorted_wrt_nth_less[OF ALPHABET_ascending] length_ALPHABET
  by (metis linorder_neqE_nat order_less_asym order_less_irrefl)

lemma ALPHABET_eq_iff [simp]:
  "i < 64 \<Longrightarrow> j < 64 \<Longrightarrow> ALPHABET ! i = ALPHABET ! j \<longleftrightarrow> i = j"
  using ALPHABET_less_iff[of i j] ALPHABET_less_iff[of j i] by (metis nat_neq_iff order_less_irrefl)

lemma fold_update_other:
  "(\<And>i. i \<in> set is \<Longrightarrow> f i \<noteq> c) \<Longrightarrow> fold (\<lambda>i rev. rev(f i := g i)) is rev0 c = rev0 c"
  by (induction "is" arbitrary: rev0) auto

lemma fold_update_upt:
  assumes "i < n" and "\<And>j. j < n \<Longrightarrow> f j = f i \<Longrightarrow> j = i"
  shows "fold (\<lambda>i rev. rev(f i := g i)) [0..<n] rev0 (f i) = g i"
proof -
  have split: "[0..<n] = [0..<i] @ i # [Suc i..<n]"
    using assms(1) upt_add_eq_append[of 0 i "n - i"] upt_conv_Cons[of i n] by simp
  show ?thesis unfolding split
    by (simp, subst fold_update_other) (use assms(2) in fastforce)+
qed

lemma build_rev_ALPHABET [simp]: "i < 64 \<Longrightarrow> build_rev (ALPHABET ! i) = int i"
  unfolding build_rev_def by (rule fold_update_upt[where f = "\<lambda>i. ALPHABET ! i"]) auto

lemma build_rev_other: "c \<notin> set ALPHABET \<Longrightarrow> build_rev c = -1"
  unfolding build_rev_def by (subst fold_update_other) (auto simp: in_set_conv_nth)

lemma decode_symbol_ALPHABET [simp]:
  "i < 64 \<Longrightarrow> decode_symbol (ALPHABET ! i) = Inr (word_of_nat i)"
  by (simp add: decode_symbol_def)

lemma decode_symbol_ok_iff: "is_ok (decode_symbol c) \<longleftrightarrow> c \<in> set ALPHABET"
  by (cases "c \<in> set ALPHABET") (auto simp: decode_symbol_def build_rev_other in_set_conv_nth)

lemma decode_symbol_err: "decode_symbol c = Inl e \<Longrightarrow> e = InvalidByte c"
  by (simp add: decode_symbol_def Let_def split: if_splits)

section \<open>Groups as numbers\<close>

lemma unat_group3: "unat (group3 a b c) = unat a * 65536 + unat b * 256 + unat c"
proof -
  have d1: "push_bit 16 (ucast a :: 32 word) AND (push_bit 8 (ucast b) OR ucast c) = 0"
    by (rule bit_word_eqI) (auto simp: bit_simps dest: bit_imp_le_length)
  have d2: "push_bit 8 (ucast b :: 32 word) AND ucast c = 0"
    by (rule bit_word_eqI) (auto simp: bit_simps dest: bit_imp_le_length)
  have "group3 a b c = push_bit 16 (ucast a) + (push_bit 8 (ucast b) + ucast c)"
    unfolding group3_def using d1 d2 by (simp add: disjunctive_add_eq_or or.assoc)
  also have "\<dots> = word_of_nat (unat a * 65536 + unat b * 256 + unat c)"
    by (simp add: push_bit_eq_mult unsigned_ucast_eq)
  finally have eq: "group3 a b c = word_of_nat (unat a * 65536 + unat b * 256 + unat c)" .
  have "unat a * 65536 + unat b * 256 + unat c < 4294967296"
    using unat_byte_less[of a] unat_byte_less[of b] unat_byte_less[of c] by linarith
  then show ?thesis unfolding eq by (intro unat_of_nat_small) simp
qed

lemma unat_and_63: "unat (w AND 63 :: 32 word) = unat w mod 64"
proof -
  have "w AND 63 = take_bit 6 w" by (simp add: take_bit_eq_mask mask_eq_exp_minus_1)
  then show ?thesis by (simp only: unsigned_take_bit_eq) (simp add: take_bit_eq_mod)
qed

lemma six_bit_digits:
  fixes a b c :: nat
  assumes "a < 256" "b < 256" "c < 256"
  shows "(a * 65536 + b * 256 + c) div 262144 mod 64 = a div 4"
    and "(a * 65536 + b * 256 + c) div 4096 mod 64 = a mod 4 * 16 + b div 16"
    and "(a * 65536 + b * 256 + c) div 64 mod 64 = b mod 16 * 4 + c div 64"
    and "(a * 65536 + b * 256 + c) mod 64 = c mod 64"
proof -
  define p q r s u v where "p = a div 4" and "q = a mod 4" and "r = b div 16" and "s = b mod 16"
    and "u = c div 64" and "v = c mod 64"
  note defs = this
  have abc: "a = 4 * p + q" "b = 16 * r + s" "c = 64 * u + v" by (simp_all add: defs)
  have bounds: "p < 64" "q < 4" "r < 16" "s < 16" "u < 4" "v < 64"
    using assms by (auto simp: defs)
  have n: "a * 65536 + b * 256 + c = ((p * 64 + (q * 16 + r)) * 64 + (s * 4 + u)) * 64 + v"
    by (simp add: abc)
  have d3: "(a * 65536 + b * 256 + c) div 64 = (p * 64 + (q * 16 + r)) * 64 + (s * 4 + u)"
    using bounds unfolding n by (intro div_nat_eqI) auto
  have d2: "(a * 65536 + b * 256 + c) div 4096 = p * 64 + (q * 16 + r)"
    using bounds unfolding n by (intro div_nat_eqI) auto
  have d1: "(a * 65536 + b * 256 + c) div 262144 = p"
    using bounds unfolding n by (intro div_nat_eqI) auto
  show "(a * 65536 + b * 256 + c) div 262144 mod 64 = a div 4"
    using bounds d1 by (simp add: defs)
  show "(a * 65536 + b * 256 + c) div 4096 mod 64 = a mod 4 * 16 + b div 16"
    unfolding d2 using bounds by (simp add: defs)
  show "(a * 65536 + b * 256 + c) div 64 mod 64 = b mod 16 * 4 + c div 64"
  proof -
    have "s * 4 + u < 64" using bounds by linarith
    then show ?thesis unfolding d3 by (simp only: mod_mult_self3 mod_less) (simp add: defs)
  qed
  show "(a * 65536 + b * 256 + c) mod 64 = c mod 64"
    unfolding n by (simp only: mod_mult_self3) (simp add: defs)
qed

lemma alphabet_at_group3:
  "alphabet_at (drop_bit 18 (group3 a b c) AND 63) = ALPHABET ! (unat a div 4)"
  "alphabet_at (drop_bit 12 (group3 a b c) AND 63) = ALPHABET ! (unat a mod 4 * 16 + unat b div 16)"
  "alphabet_at (drop_bit 6 (group3 a b c) AND 63) = ALPHABET ! (unat b mod 16 * 4 + unat c div 64)"
  "alphabet_at (group3 a b c AND 63) = ALPHABET ! (unat c mod 64)"
  by (simp_all only: alphabet_at_def unat_and_63 unat_drop_bit_div unat_group3)
    (simp_all add: six_bit_digits unat_byte_less)

lemma group3_short:
  "push_bit 16 (ucast a) = group3 a 0 0"
  "push_bit 16 (ucast a) OR push_bit 8 (ucast b) = group3 a b 0"
  by (simp_all add: group3_def)

text \<open>The symbols of a group, as numbers below 64: the form the proofs use.\<close>

lemma encode_nat:
  "encode [] = []"
  "encode [a] = [ALPHABET ! (unat a div 4), ALPHABET ! (unat a mod 4 * 16)]"
  "encode [a, b] = [ALPHABET ! (unat a div 4), ALPHABET ! (unat a mod 4 * 16 + unat b div 16),
     ALPHABET ! (unat b mod 16 * 4)]"
  "encode (a # b # c # rest) =
     ALPHABET ! (unat a div 4) # ALPHABET ! (unat a mod 4 * 16 + unat b div 16) #
     ALPHABET ! (unat b mod 16 * 4 + unat c div 64) # ALPHABET ! (unat c mod 64) # encode rest"
  by (simp_all only: encode.simps Let_def group3_short(2) alphabet_at_group3)
    (simp_all add: group3_short(1) alphabet_at_group3)

lemma unat_group4:
  assumes "i < 64" "j < 64" "k < 64" "l < 64"
  shows "unat (push_bit 18 (word_of_nat i) OR push_bit 12 (word_of_nat j)
      OR push_bit 6 (word_of_nat k) OR (word_of_nat l) :: 32 word)
    = i * 262144 + j * 4096 + k * 64 + l"
proof -
  have small: "\<not> bit (word_of_nat m :: 32 word) n" if "m < 64" "6 \<le> n" for m n
  proof -
    have "(2::nat) ^ 6 \<le> 2 ^ n" using that(2) by (intro power_increasing) auto
    then have "\<not> bit m n" using that(1) by (simp add: bit_iff_odd)
    then show ?thesis by (simp add: bit_simps)
  qed
  let ?x = "word_of_nat i :: 32 word" and ?y = "word_of_nat j :: 32 word"
  let ?z = "word_of_nat k :: 32 word" and ?w = "word_of_nat l :: 32 word"
  have d1: "push_bit 18 ?x AND (push_bit 12 ?y OR push_bit 6 ?z OR ?w) = 0"
    and d2: "push_bit 12 ?y AND (push_bit 6 ?z OR ?w) = 0"
    and d3: "push_bit 6 ?z AND ?w = 0"
    by (rule bit_word_eqI; use small assms in \<open>auto simp: bit_push_bit_iff bit_or_iff bit_and_iff\<close>)+
  have "push_bit 18 ?x OR push_bit 12 ?y OR push_bit 6 ?z OR ?w
      = push_bit 18 ?x + (push_bit 12 ?y + (push_bit 6 ?z + ?w))"
    using d1 d2 d3 by (simp add: disjunctive_add_eq_or or.assoc)
  also have "\<dots> = word_of_nat (i * 262144 + j * 4096 + k * 64 + l)"
    by (simp add: push_bit_eq_mult)
  finally have eq: "push_bit 18 ?x OR push_bit 12 ?y OR push_bit 6 ?z OR ?w
      = word_of_nat (i * 262144 + j * 4096 + k * 64 + l)" .
  show ?thesis unfolding eq using assms by (intro unat_of_nat_small) simp
qed

lemma unat_ucast_byte: "unat (ucast (w :: 32 word) :: byte) = unat w mod 256"
  by (simp add: unsigned_ucast_eq take_bit_eq_mod)

lemma bytes_of_group:
  fixes n :: "32 word"
  assumes "unat n = unat a * 65536 + unat b * 256 + unat c"
  shows "ucast (drop_bit 16 n) = (a :: byte)" "ucast (drop_bit 8 n) = (b :: byte)"
    "ucast n = (c :: byte)"
proof -
  have d2: "(unat a * 65536 + unat b * 256 + unat c) div 65536 = unat a"
    using unat_byte_less[of b] unat_byte_less[of c] by (intro div_nat_eqI) simp_all
  have d1: "(unat a * 65536 + unat b * 256 + unat c) div 256 = unat a * 256 + unat b"
    using unat_byte_less[of c] by (intro div_nat_eqI) simp_all
  have d0: "(unat a * 65536 + unat b * 256 + unat c) mod 256 = unat c"
  proof -
    have "unat a * 65536 + unat b * 256 + unat c = (unat a * 256 + unat b) * 256 + unat c" by simp
    then show ?thesis using unat_byte_less[of c] by (simp only: mod_mult_self3) simp
  qed
  show "ucast (drop_bit 16 n) = a" "ucast (drop_bit 8 n) = b" "ucast n = c"
    by (rule word_unat_eq_iff[THEN iffD2],
        simp add: unat_ucast_byte unat_drop_bit_div assms d0 d1 d2 unat_byte_less del: word_unat_eq_iff)+
qed

lemma digits_join:
  fixes a b c :: nat
  shows "a div 4 * 262144 + (a mod 4 * 16 + b div 16) * 4096
      + (b mod 16 * 4 + c div 64) * 64 + c mod 64 = a * 65536 + b * 256 + c"
proof -
  have join: "a = p * 4 + q \<Longrightarrow> b = r * 16 + s \<Longrightarrow> c = u * 64 + v \<Longrightarrow>
    p * 262144 + (q * 16 + r) * 4096 + (s * 4 + u) * 64 + v = a * 65536 + b * 256 + c"
    for p q r s u v :: nat by simp
  show ?thesis by (rule join) simp_all
qed

lemma digit_bounds [simp]:
  "unat (a :: byte) div 4 < 64" "unat (a :: byte) mod 4 * 16 < 64"
  "unat (a :: byte) mod 4 * 16 + unat (b :: byte) div 16 < 64"
  "unat b mod 16 * 4 < 64" "unat b mod 16 * 4 + unat (c :: byte) div 64 < 64"
  using unat_byte_less[of a] unat_byte_less[of b] unat_byte_less[of c]
    mod_less_divisor[of 4 "unat a"] mod_less_divisor[of 16 "unat b"]
  by linarith+

lemma unat_group4_bytes:
  "unat (push_bit 18 (word_of_nat (unat a div 4))
      OR push_bit 12 (word_of_nat (unat a mod 4 * 16 + unat b div 16))
      OR push_bit 6 (word_of_nat (unat b mod 16 * 4 + unat c div 64))
      OR (word_of_nat (unat (c :: byte) mod 64)) :: 32 word)
    = unat (a :: byte) * 65536 + unat (b :: byte) * 256 + unat c"
  by (subst unat_group4) (simp_all only: digit_bounds digits_join mod_less_divisor zero_less_numeral)

lemmas bytes_of_group4 = bytes_of_group[OF unat_group4_bytes]

lemma length_encode: "length (encode bs) = (length bs * 4 + 2) div 3"
  by (induction bs rule: encode.induct) (simp_all add: Let_def)

lemma set_encode: "set (encode bs) \<subseteq> set ALPHABET"
proof (induction bs rule: encode.induct)
  case (4 a b c rest)
  then show ?case by (simp add: encode_nat nth_mem del: encode.simps)
qed (simp_all add: encode_nat nth_mem del: encode.simps(2-4))

lemma slash_not_encoded [simp]: "CHR ''/'' \<notin> set (encode bs)"
  using set_encode[of bs] by (auto simp: ALPHABET_def)

section \<open>Round trip, accepted inputs and order\<close>

lemma decode_encode_eq: "decode (encode bs) = Inr bs"
proof (induction bs rule: encode.induct)
  case (2 a)
  show ?case using bytes_of_group4[of a 0 0] by (simp add: encode_nat del: encode.simps)
next
  case (3 a b)
  show ?case using bytes_of_group4[of a b 0] by (simp add: encode_nat del: encode.simps)
next
  case (4 a b c rest)
  then show ?case
    using bytes_of_group4[of a b c] by (simp add: encode_nat del: encode.simps)
qed simp

text \<open>C23: decoding an encoded byte string gives the byte string back, for every input.\<close>

theorem decode_encode: "decode (encode bs) = Inr bs"
  by (rule decode_encode_eq)

text \<open>C24: decoding accepts exactly the strings over the alphabet whose length is not
  one more than a multiple of four.\<close>

theorem decode_ok_iff: "is_ok (decode s) \<longleftrightarrow> set s \<subseteq> set ALPHABET \<and> length s mod 4 \<noteq> 1"
proof (induction s rule: decode.induct)
  case (3 p q)
  then show ?case
    by (cases "decode_symbol p"; cases "decode_symbol q")
      (auto simp: Let_def simp flip: decode_symbol_ok_iff)
next
  case (4 p q r)
  then show ?case
    by (cases "decode_symbol p"; cases "decode_symbol q"; cases "decode_symbol r")
      (auto simp: Let_def simp flip: decode_symbol_ok_iff)
next
  case (5 p q r s rest)
  have "is_ok (map_r f x) = is_ok x" for f :: "bytes \<Rightarrow> bytes" and x :: "(DecodeError, bytes) result"
    by (cases x) auto
  then show ?case using 5
    by (cases "decode_symbol p"; cases "decode_symbol q"; cases "decode_symbol r";
        cases "decode_symbol s") (auto simp: Let_def simp flip: decode_symbol_ok_iff)
qed simp_all

lemma less_div_mod:
  fixes a a' k :: nat
  assumes "a < a'"
  shows "a div k < a' div k \<or> a div k = a' div k \<and> a mod k < a' mod k"
proof (cases "a div k = a' div k")
  case True
  then show ?thesis using assms div_mult_mod_eq[of a k] div_mult_mod_eq[of a' k]
    by (metis nat_add_left_cancel_less)
next
  case False
  then show ?thesis using div_le_mono[of a a' k] assms by simp
qed

text \<open>A smaller first byte shows in the first two symbols, a smaller second byte in the
  second and third, a smaller third byte in the third and fourth.\<close>

lemma digits_first:
  fixes a a' :: nat
  assumes "a < a'" "b < 256"
  shows "a div 4 < a' div 4 \<or> a div 4 = a' div 4 \<and>
    a mod 4 * 16 + b div 16 < a' mod 4 * 16 + b' div 16"
proof -
  have "b div 16 < 16" using assms(2) by simp
  then show ?thesis using less_div_mod[OF assms(1), of 4] by auto
qed

lemma digits_second:
  fixes b b' :: nat
  assumes "b < b'" "c < 256"
  shows "a + b div 16 < a + b' div 16 \<or> a + b div 16 = a + b' div 16 \<and>
    b mod 16 * 4 + c div 64 < b' mod 16 * 4 + c' div 64"
proof -
  have "c div 64 < 4" using assms(2) by simp
  then show ?thesis using less_div_mod[OF assms(1), of 16] by auto
qed

lemmas digits_third = less_div_mod[where k = 64]

lemma encode_Nil_iff [simp]: "encode bs = [] \<longleftrightarrow> bs = []"
  by (cases bs rule: encode.cases) (simp_all add: Let_def)

lemmas encode_less_simps = encode_nat word_less_nat_alt unat_byte_less

lemma encode_mono: "x < y \<Longrightarrow> encode x < encode y"
proof (induction x arbitrary: y rule: encode.induct)
  case 1
  then show ?case by (cases "encode y") auto
next
  case (2 a)
  note first = digits_first[of "unat a" _ 0] less_div_mod[of "unat a" _ 4]
  from 2 show ?case
    by (cases y rule: encode.cases)
      (auto simp: encode_less_simps simp del: encode.simps dest!: first)
next
  case (3 a b)
  note first = digits_first[of "unat a" "unat a'" "unat b" 0 for a' :: byte]
    digits_first[of "unat a" "unat a'" "unat b" "unat b'" for a' b' :: byte]
  show ?case
  proof (cases y rule: encode.cases)
    case (2 a')
    then show ?thesis using 3 first
      by (auto simp: encode_less_simps simp del: encode.simps)
  next
    case y: (3 a' b')
    then show ?thesis
      using 3 first(2)[of a' b'] less_div_mod[of "unat b" "unat b'" 16]
      by (auto simp: encode_less_simps simp del: encode.simps)
  next
    case y: (4 a' b' c' rest')
    then show ?thesis
      using 3 first(2)[of a' b'] digits_second[of "unat b" "unat b'" 0 _ "unat c'"]
      by (auto simp: encode_less_simps simp del: encode.simps)
  qed (use 3 in auto)
next
  case (4 a b c rest)
  show ?case
  proof (cases y rule: encode.cases)
    case (2 a')
    then show ?thesis using 4 digits_first[of "unat a" "unat a'" "unat b" 0]
      by (auto simp: encode_less_simps simp del: encode.simps)
  next
    case y: (3 a' b')
    then show ?thesis
      using 4 digits_first[of "unat a" "unat a'" "unat b" "unat b'"]
        digits_second[of "unat b" "unat b'" "unat c" _ 0]
      by (auto simp: encode_less_simps simp del: encode.simps)
  next
    case y: (4 a' b' c' rest')
    then show ?thesis
      using 4 digits_first[of "unat a" "unat a'" "unat b" "unat b'"]
        digits_second[of "unat b" "unat b'" "unat c" _ "unat c'"]
        digits_third[of "unat c" "unat c'"]
      by (auto simp: encode_less_simps simp del: encode.simps)
  qed (use 4 in auto)
qed

text \<open>C22: the encoding preserves and reflects the lexicographic order of byte strings, so
  that listing encoded names returns them in the order of the names.\<close>

theorem encode_less_iff: "encode x < encode y \<longleftrightarrow> x < y"
  using encode_mono[of x y] encode_mono[of y x] by (cases x y rule: linorder_cases) auto

end
