(* ===== verification/Ids.thy ===== *)
theory Ids
  imports Base64
begin

text \<open>
  The fixed-width identifiers of \<^verbatim>\<open>glassdb-data/src/ids.rs\<close> and the collection
  names of \<^verbatim>\<open>glassdb-data/src/names.rs\<close>.

  An identifier is one constructor around its bytes; \<open>id_ok\<close> is the width the
  array type \<^verbatim>\<open>[u8; 16]\<close> enforces, and each \<open>try_from\<close> is the slice conversion,
  which succeeds at that width only. \<^verbatim>\<open>Ord\<close> is the derived byte order. The bytes
  that the entropy source writes, and the instants of the system clock
  (nanoseconds from the Unix epoch, negative before it), are arguments.
\<close>

section \<open>Identifiers\<close>

definition ID_BYTES :: nat where
  [simp]: "ID_BYTES = 16"

datatype collection_id = CollectionId (cid_bytes: bytes)
datatype database_id = DatabaseId (db_bytes: bytes)
datatype node_id = NodeId (nid_bytes: bytes)
datatype structural_intent_id = StructuralIntentId (sid_bytes: bytes)
datatype tx_id = TxId (tx_bytes: bytes)

text \<open>\<^verbatim>\<open>TryFromSliceError\<close>: the slice does not have the width of an identifier.\<close>

datatype slice_error = TryFromSliceError

definition try_from_slice :: "bytes \<Rightarrow> (slice_error, bytes) result" where
  "try_from_slice bs = (if length bs = ID_BYTES then Inr bs else Inl TryFromSliceError)"

definition id_ok :: "bytes \<Rightarrow> bool" where
  "id_ok bs \<longleftrightarrow> length bs = ID_BYTES"

definition collection_id_try_from :: "bytes \<Rightarrow> (slice_error, collection_id) result" where
  "collection_id_try_from bs = map_r CollectionId (try_from_slice bs)"

definition database_id_try_from :: "bytes \<Rightarrow> (slice_error, database_id) result" where
  "database_id_try_from bs = map_r DatabaseId (try_from_slice bs)"

definition node_id_try_from :: "bytes \<Rightarrow> (slice_error, node_id) result" where
  "node_id_try_from bs = map_r NodeId (try_from_slice bs)"

definition structural_intent_id_try_from :: "bytes \<Rightarrow> (slice_error, structural_intent_id) result" where
  "structural_intent_id_try_from bs = map_r StructuralIntentId (try_from_slice bs)"

definition tx_id_try_from :: "bytes \<Rightarrow> (slice_error, tx_id) result" where
  "tx_id_try_from bs = map_r TxId (try_from_slice bs)"

text \<open>\<^verbatim>\<open>Display\<close> of every identifier is the base64 form of its bytes.\<close>

definition display_id :: "bytes \<Rightarrow> string" where
  "display_id bs = encode bs"

instantiation collection_id :: linorder
begin

definition less_eq_collection_id :: "collection_id \<Rightarrow> collection_id \<Rightarrow> bool" where
  [model_defs]: "less_eq_collection_id a b \<longleftrightarrow> cid_bytes a \<le> cid_bytes b"

definition less_collection_id :: "collection_id \<Rightarrow> collection_id \<Rightarrow> bool" where
  [model_defs]: "less_collection_id a b \<longleftrightarrow> cid_bytes a < cid_bytes b"

instance
  by standard (auto simp: less_eq_collection_id_def less_collection_id_def collection_id.expand)

end

instantiation node_id :: linorder
begin

definition less_eq_node_id :: "node_id \<Rightarrow> node_id \<Rightarrow> bool" where
  [model_defs]: "less_eq_node_id a b \<longleftrightarrow> nid_bytes a \<le> nid_bytes b"

definition less_node_id :: "node_id \<Rightarrow> node_id \<Rightarrow> bool" where
  [model_defs]: "less_node_id a b \<longleftrightarrow> nid_bytes a < nid_bytes b"

instance
  by standard (auto simp: less_eq_node_id_def less_node_id_def node_id.expand)

end

instantiation structural_intent_id :: linorder
begin

definition less_eq_structural_intent_id :: "structural_intent_id \<Rightarrow> structural_intent_id \<Rightarrow> bool" where
  [model_defs]: "less_eq_structural_intent_id a b \<longleftrightarrow> sid_bytes a \<le> sid_bytes b"

definition less_structural_intent_id :: "structural_intent_id \<Rightarrow> structural_intent_id \<Rightarrow> bool" where
  [model_defs]: "less_structural_intent_id a b \<longleftrightarrow> sid_bytes a < sid_bytes b"

instance
  by standard (auto simp: less_eq_structural_intent_id_def less_structural_intent_id_def structural_intent_id.expand)

end

instantiation tx_id :: linorder
begin

definition less_eq_tx_id :: "tx_id \<Rightarrow> tx_id \<Rightarrow> bool" where
  [model_defs]: "less_eq_tx_id a b \<longleftrightarrow> tx_bytes a \<le> tx_bytes b"

definition less_tx_id :: "tx_id \<Rightarrow> tx_id \<Rightarrow> bool" where
  [model_defs]: "less_tx_id a b \<longleftrightarrow> tx_bytes a < tx_bytes b"

instance
  by standard (auto simp: less_eq_tx_id_def less_tx_id_def tx_id.expand)

end

section \<open>Collection identities\<close>

definition collection_id_root :: collection_id where
  "collection_id_root = CollectionId (replicate ID_BYTES 0)"

definition is_root :: "collection_id \<Rightarrow> bool" where
  "is_root c \<longleftrightarrow> cid_bytes c = replicate ID_BYTES 0"

text \<open>\<^verbatim>\<open>CollectionId::new_random\<close> draws until the bytes are not all zero. The list holds the
  successive draws of the entropy source; the result has the draws left over.\<close>

fun collection_id_new_random :: "bytes list \<Rightarrow> (collection_id \<times> bytes list) option" where
  "collection_id_new_random [] = None"
| "collection_id_new_random (bs # draws) =
     (if bs \<noteq> replicate ID_BYTES 0 then Some (CollectionId bs, draws)
      else collection_id_new_random draws)"

section \<open>Transaction identities\<close>

definition TX_ID_TS_OFF :: nat where
  [simp]: "TX_ID_TS_OFF = 8"

text \<open>\<^verbatim>\<open>u64::to_be_bytes\<close> and \<^verbatim>\<open>u64::from_be_bytes\<close>.\<close>

definition to_be_bytes :: "64 word \<Rightarrow> bytes" where
  "to_be_bytes w = map (\<lambda>i. ucast (drop_bit (8 * (7 - i)) w)) [0..<8]"

definition from_be_bytes :: "bytes \<Rightarrow> 64 word" where
  "from_be_bytes bs = fold (\<lambda>b w. push_bit 8 w OR ucast b) bs 0"

definition with_random_prefix :: "64 word \<Rightarrow> bytes \<Rightarrow> tx_id" where
  "with_random_prefix unix_nanos entropy =
     TxId (take TX_ID_TS_OFF entropy @ to_be_bytes unix_nanos)"

definition new_at :: "int \<Rightarrow> bytes \<Rightarrow> tx_id" where
  "new_at t entropy =
     with_random_prefix (if 0 \<le> t then word_of_int t else 0) entropy"

definition with_priority :: "64 word \<Rightarrow> bytes \<Rightarrow> tx_id" where
  "with_priority unix_nanos prefix =
     (let n = min (length prefix) TX_ID_TS_OFF
      in TxId (take n prefix @ replicate (TX_ID_TS_OFF - n) 0 @ to_be_bytes unix_nanos))"

definition priority :: "tx_id \<Rightarrow> 64 word" where
  "priority t = from_be_bytes (drop TX_ID_TS_OFF (tx_bytes t))"

definition started_at :: "tx_id \<Rightarrow> int" where
  "started_at t = uint (priority t)"

definition renew :: "tx_id \<Rightarrow> bytes \<Rightarrow> tx_id" where
  "renew t entropy = with_random_prefix (priority t) entropy"

definition older :: "tx_id \<Rightarrow> tx_id \<Rightarrow> bool" where
  "older a b \<longleftrightarrow> priority a < priority b"

section \<open>Collection names\<close>

datatype collection_name = CollectionName (name_bytes: bytes)
datatype invalid_collection_name = InvalidCollectionName

definition MAX_COLLECTION_NAME_BYTES :: nat where
  [simp]: "MAX_COLLECTION_NAME_BYTES = 255"

definition collection_name_new :: "bytes \<Rightarrow> (invalid_collection_name, collection_name) result" where
  "collection_name_new name =
     (if name = [] \<or> length name > MAX_COLLECTION_NAME_BYTES then Inl InvalidCollectionName
      else Inr (CollectionName name))"

section \<open>Lemmas\<close>

lemma try_from_slice_ok_iff [wire_simps]: "try_from_slice bs = Inr x \<longleftrightarrow> x = bs \<and> id_ok bs"
  by (auto simp: try_from_slice_def id_ok_def)

lemma try_from_ok_iff [wire_simps]:
  "collection_id_try_from bs = Inr c \<longleftrightarrow> c = CollectionId bs \<and> id_ok bs"
  "database_id_try_from bs = Inr d \<longleftrightarrow> d = DatabaseId bs \<and> id_ok bs"
  "node_id_try_from bs = Inr n \<longleftrightarrow> n = NodeId bs \<and> id_ok bs"
  "structural_intent_id_try_from bs = Inr s \<longleftrightarrow> s = StructuralIntentId bs \<and> id_ok bs"
  "tx_id_try_from bs = Inr t \<longleftrightarrow> t = TxId bs \<and> id_ok bs"
  unfolding collection_id_try_from_def database_id_try_from_def node_id_try_from_def
    structural_intent_id_try_from_def tx_id_try_from_def map_r_ok_iff
  by (auto simp: try_from_slice_ok_iff)

lemma tx_id_try_from_ok_iff: "tx_id_try_from bs = Inr t \<longleftrightarrow> bs = tx_bytes t \<and> id_ok (tx_bytes t)"
  by (cases t) (auto simp: try_from_ok_iff)

lemma inj_tx_bytes [simp]: "inj tx_bytes"
  by (auto simp: inj_def intro: tx_id.expand)

lemma length_to_be_bytes [simp]: "length (to_be_bytes w) = 8"
  by (simp add: to_be_bytes_def)

lemma from_to_be_bytes [simp]: "from_be_bytes (to_be_bytes w) = w"
proof (rule bit_word_eqI)
  fix n assume "n < LENGTH(64)"
  then have "n < 64" by simp
  then consider "n < 8" | "8 \<le> n" "n < 16" | "16 \<le> n" "n < 24" | "24 \<le> n" "n < 32"
    | "32 \<le> n" "n < 40" | "40 \<le> n" "n < 48" | "48 \<le> n" "n < 56" | "56 \<le> n" "n < 64"
    by linarith
  then show "bit (from_be_bytes (to_be_bytes w)) n = bit w n"
    by cases (simp_all add: from_be_bytes_def to_be_bytes_def upt_rec bit_simps less_diff_conv2)
qed

lemma priority_with_random_prefix [simp]:
  "TX_ID_TS_OFF \<le> length entropy \<Longrightarrow> priority (with_random_prefix n entropy) = n"
  by (simp add: priority_def with_random_prefix_def)

lemma priority_with_priority [simp]: "priority (with_priority n prefix) = n"
  by (simp add: priority_def with_priority_def Let_def min_def)

lemma id_ok_with_random_prefix [simp]:
  "TX_ID_TS_OFF \<le> length entropy \<Longrightarrow> id_ok (tx_bytes (with_random_prefix n entropy))"
  by (simp add: id_ok_def with_random_prefix_def)

lemma id_ok_with_priority [simp]: "id_ok (tx_bytes (with_priority n prefix))"
  by (simp add: id_ok_def with_priority_def Let_def min_def)

lemma older_irrefl [simp]: "\<not> older t t"
  by (simp add: older_def)

lemma older_trans: "older a b \<Longrightarrow> older b c \<Longrightarrow> older a c"
  by (simp add: older_def)

lemma older_asym: "older a b \<Longrightarrow> \<not> older b a"
  by (simp add: older_def)

lemma renew_priority:
  "TX_ID_TS_OFF \<le> length entropy \<Longrightarrow> priority (renew t entropy) = priority t"
  by (simp add: renew_def)

lemma uint_priority_new_at:
  assumes "TX_ID_TS_OFF \<le> length entropy" "t < 2 ^ 64"
  shows "uint (priority (new_at t entropy)) = max 0 t"
  using assms by (simp add: new_at_def uint_word_of_int_eq take_bit_int_eq_self)

section \<open>Properties\<close>

text \<open>C21: a transaction identity minted at an instant that fits \<^verbatim>\<open>u64\<close> nanoseconds has
  priority over another exactly when its instant is earlier, instants before the epoch counting
  as the epoch, and any number of renewals on either side, with whatever entropy, leaves that
  unchanged: wound-wait order depends on the start instants only.\<close>

theorem older_new_at_renewed:
  assumes "t < 2 ^ 64" "u < 2 ^ 64"
    and "\<forall>e \<in> set (p # q # ps @ qs). TX_ID_TS_OFF \<le> length e"
  shows "older (fold (\<lambda>e i. renew i e) ps (new_at t p)) (fold (\<lambda>e i. renew i e) qs (new_at u q))
    \<longleftrightarrow> max 0 t < max 0 u"
proof -
  have keep: "\<forall>e \<in> set es. TX_ID_TS_OFF \<le> length e \<Longrightarrow>
      priority (fold (\<lambda>e i. renew i e) es i) = priority i" for es i
    by (induction es arbitrary: i) (auto simp: renew_priority simp del: TX_ID_TS_OFF_def)
  have "priority (fold (\<lambda>e i. renew i e) ps (new_at t p)) = priority (new_at t p)"
    "priority (fold (\<lambda>e i. renew i e) qs (new_at u q)) = priority (new_at u q)"
    using assms(3) by (auto intro!: keep)
  then show ?thesis
    using uint_priority_new_at[of p t] uint_priority_new_at[of q u] assms
    by (simp add: older_def word_less_def)
qed

theorem older_new_at_renewed_witness:
  "older (renew (new_at 5 (replicate 8 1)) (replicate 8 7)) (new_at 9 (replicate 8 2))
   \<longleftrightarrow> max 0 (5 :: int) < max 0 9"
  using older_new_at_renewed[of 5 9 "replicate 8 1" "replicate 8 2" "[replicate 8 7]" "[]"] by simp

end
