(* ===== verification/Errors.thy ===== *)
theory Errors
  imports Ids
begin

text \<open>
  Error values of the storage layer (\<^verbatim>\<open>glassdb-storage/src/error.rs\<close> and
  \<^verbatim>\<open>glassdb-backend/src/lib.rs\<close>) and the identifier fields of its codecs
  (\<^verbatim>\<open>wire_id.rs\<close>). The underlying cause an error may carry is diagnostic only and is
  not represented.
\<close>

datatype BackendError = BeNotFound | BePrecondition | BeInvalidCursor | BeUnavailable string
  | BeOther string

datatype StorageError = NotFound | Precondition | InvalidCursor | Unavailable string
  | KeyNotFound | StaleCollection | OtherError string

definition storage_error_from_backend :: "BackendError \<Rightarrow> StorageError" where
  "storage_error_from_backend e = (case e of
     BeNotFound \<Rightarrow> NotFound | BePrecondition \<Rightarrow> Precondition | BeInvalidCursor \<Rightarrow> InvalidCursor
   | BeUnavailable s \<Rightarrow> Unavailable s | BeOther msg \<Rightarrow> OtherError msg)"

definition storage_error_context :: "string \<Rightarrow> StorageError \<Rightarrow> StorageError" where
  "storage_error_context ctx e = (case e of
     Unavailable s \<Rightarrow> Unavailable (ctx @ '': '' @ s)
   | OtherError msg \<Rightarrow> OtherError (ctx @ '': '' @ msg)
   | classified \<Rightarrow> classified)"

text \<open>\<^verbatim>\<open>decode_id\<close> over the conversion of the identifier type.\<close>

definition decode_id :: "(bytes \<Rightarrow> (slice_error, 'i) result) \<Rightarrow> bytes \<Rightarrow> string \<Rightarrow> (StorageError, 'i) result" where
  "decode_id try_from bs err =
     (case try_from bs of Inl _ \<Rightarrow> Inl (OtherError err) | Inr i \<Rightarrow> Inr i)"

definition decode_optional_id ::
  "(bytes \<Rightarrow> (slice_error, 'i) result) \<Rightarrow> bytes \<Rightarrow> string \<Rightarrow> (StorageError, 'i option) result" where
  "decode_optional_id try_from bs err =
     (if bs = [] then Inr None else map_r Some (decode_id try_from bs err))"

definition map_err :: "('e \<Rightarrow> 'f) \<Rightarrow> ('e, 'a) result \<Rightarrow> ('f, 'a) result" where
  "map_err f r = (case r of Inl e \<Rightarrow> Inl (f e) | Inr x \<Rightarrow> Inr x)"

lemma map_err_ok_iff [simp]: "map_err f r = Inr x \<longleftrightarrow> r = Inr x"
  by (cases r) (auto simp: map_err_def)

lemma map_err_simps [simp]: "map_err f (Inr x) = Inr x" "map_err f (Inl e) = Inl (f e)"
  by (simp_all add: map_err_def)

lemma decode_id_ok_iff [wire_simps]: "decode_id tf bs err = Inr i \<longleftrightarrow> tf bs = Inr i"
  by (auto simp: decode_id_def split: sum.splits)

lemma decode_optional_id_ok_iff [wire_simps]:
  "decode_optional_id tf bs err = Inr None \<longleftrightarrow> bs = []"
  "decode_optional_id tf bs err = Inr (Some i) \<longleftrightarrow> bs \<noteq> [] \<and> tf bs = Inr i"
  by (auto simp: decode_optional_id_def map_r_ok_iff decode_id_ok_iff)

lemma id_ok_not_Nil [simp]: "\<not> id_ok []"
  by (simp add: id_ok_def)

text \<open>The bytes an optional identifier has on the wire, empty when absent.\<close>

definition optional_id_bytes :: "('i \<Rightarrow> bytes) \<Rightarrow> 'i option \<Rightarrow> bytes" where
  "optional_id_bytes as_bytes i = (case i of None \<Rightarrow> [] | Some x \<Rightarrow> as_bytes x)"

lemma decode_optional_id_roundtrip [wire_simps]:
  assumes "\<And>bs j. tf bs = Inr j \<longleftrightarrow> bs = as_bytes j \<and> id_ok bs"
    and "\<forall>x \<in> set_option i. id_ok (as_bytes x)"
  shows "decode_optional_id tf (optional_id_bytes as_bytes i) err = Inr i"
  using assms by (cases i) (auto simp: optional_id_bytes_def wire_simps)

lemma try_from_as_bytes:
  "node_id_try_from bs = Inr n \<longleftrightarrow> bs = nid_bytes n \<and> id_ok bs"
  "tx_id_try_from bs = Inr t \<longleftrightarrow> bs = tx_bytes t \<and> id_ok bs"
  "structural_intent_id_try_from bs = Inr s \<longleftrightarrow> bs = sid_bytes s \<and> id_ok bs"
  "collection_id_try_from bs = Inr c \<longleftrightarrow> bs = cid_bytes c \<and> id_ok bs"
  by (cases n; cases t; cases s; cases c; auto simp: try_from_ok_iff)+

lemmas decode_optional_ids =
  decode_optional_id_roundtrip[OF try_from_as_bytes(1)]
  decode_optional_id_roundtrip[OF try_from_as_bytes(2)]
  decode_optional_id_roundtrip[OF try_from_as_bytes(3)]
  decode_optional_id_roundtrip[OF try_from_as_bytes(4)]

lemma decode_optional_id_wf:
  assumes "decode_optional_id tf bs err = Inr i"
    and "\<And>bs j. tf bs = Inr j \<longleftrightarrow> bs = as_bytes j \<and> id_ok bs"
  shows "\<forall>x \<in> set_option i. id_ok (as_bytes x)"
  using assms by (cases i) (auto simp: wire_simps)

end
