(* ===== verification/Backend.thy ===== *)
theory Backend
  imports Errors "HOL-Library.Sublist" "HOL-Library.Char_ord"
begin

text \<open>
  The object store contract (\<^verbatim>\<open>glassdb-backend/src/lib.rs\<close>) and the in-memory
  implementation (\<^verbatim>\<open>memory.rs\<close>, \<^verbatim>\<open>implementation.rs\<close>).

  The contract is the locale \<open>backend\<close>: what each conditional operation returns and
  how it changes the objects, in terms of a view of the store as a map from paths to
  contents and revisions. It is interpreted on the in-memory store. A store behind a
  mutex is a state that each operation takes and returns. A path is a character list;
  its order is that of its bytes.
\<close>

section \<open>Types of the interface\<close>

datatype revision = Revision (rv_token: string)

definition revision_is_unset :: "revision \<Rightarrow> bool" where
  "revision_is_unset r \<longleftrightarrow> rv_token r = []"

record read_reply =
  rr_contents :: bytes
  rr_revision :: revision

record list_cursor =
  lc_prefix :: string
  lc_provider_token :: string

record list_page =
  lp_objects :: "string list"
  lp_next :: "list_cursor option"

type_synonym store_view = "string \<Rightarrow> read_reply option"

section \<open>Listing cursors\<close>

definition validate_list_prefix :: "string \<Rightarrow> (BackendError, unit) result" where
  "validate_list_prefix pre =
     (if pre = [] \<or> suffix ''/'' pre then Inr ()
      else Inl (BeOther ''list prefix must be empty or end in a slash''))"

definition bind_list_cursor :: "string \<Rightarrow> string \<Rightarrow> (BackendError, list_cursor) result" where
  "bind_list_cursor pre token =
     bind_r (validate_list_prefix pre) (\<lambda>_.
       if token = [] then Inl (BeOther ''list provider returned an empty continuation token'')
       else Inr \<lparr>lc_prefix = pre, lc_provider_token = token\<rparr>)"

definition list_provider_token :: "string \<Rightarrow> list_cursor option \<Rightarrow> (BackendError, string option) result" where
  "list_provider_token pre cursor =
     bind_r (validate_list_prefix pre) (\<lambda>_.
       case cursor of
         None \<Rightarrow> Inr None
       | Some c \<Rightarrow> if lc_prefix c \<noteq> pre then Inl BeInvalidCursor else Inr (Some (lc_provider_token c)))"

section \<open>The in-memory store\<close>

definition OFFSET_BASIS :: "64 word" where
  "OFFSET_BASIS = 0xcbf29ce484222325"

definition PRIME :: "64 word" where
  "PRIME = 0x00000100000001b3"

definition content_hash :: "bytes \<Rightarrow> 64 word" where
  "content_hash data = fold (\<lambda>b hash. xor hash (ucast b) * PRIME) data OFFSET_BASIS"

record object =
  ob_data :: bytes
  ob_hash :: "64 word"

definition object_new :: "bytes \<Rightarrow> object" where
  "object_new data = \<lparr>ob_data = data, ob_hash = content_hash data\<rparr>"

text \<open>\<^verbatim>\<open>format!("{:016x}", hash)\<close>: sixteen lower-case hexadecimal digits.\<close>

definition HEX_DIGITS :: string where
  "HEX_DIGITS = ''0123456789abcdef''"

fun hex_digits :: "nat \<Rightarrow> nat \<Rightarrow> string" where
  "hex_digits 0 n = []"
| "hex_digits (Suc k) n = hex_digits k (n div 16) @ [HEX_DIGITS ! (n mod 16)]"

definition object_revision :: "object \<Rightarrow> revision" where
  "object_revision ob = Revision (hex_digits 16 (unat (ob_hash ob)))"

type_synonym memory = "(string, object) omap"

definition mem_read :: "memory \<Rightarrow> string \<Rightarrow> (BackendError, read_reply) result" where
  "mem_read m path =
     (case map_of m path of
        None \<Rightarrow> Inl BeNotFound
      | Some ob \<Rightarrow> Inr \<lparr>rr_contents = ob_data ob, rr_revision = object_revision ob\<rparr>)"

definition mem_read_if_modified :: "memory \<Rightarrow> string \<Rightarrow> revision \<Rightarrow> (BackendError, read_reply) result" where
  "mem_read_if_modified m path expected =
     (case map_of m path of
        None \<Rightarrow> Inl BeNotFound
      | Some ob \<Rightarrow>
          if object_revision ob = expected then Inl BePrecondition
          else Inr \<lparr>rr_contents = ob_data ob, rr_revision = object_revision ob\<rparr>)"

definition mem_write_if :: "memory \<Rightarrow> string \<Rightarrow> bytes \<Rightarrow> revision \<Rightarrow> (BackendError, revision) result \<times> memory" where
  "mem_write_if m path value expected =
     (case map_of m path of
        None \<Rightarrow> (Inl BeNotFound, m)
      | Some ob \<Rightarrow>
          if object_revision ob \<noteq> expected then (Inl BePrecondition, m)
          else let ob = object_new value in (Inr (object_revision ob), om_insert path ob m))"

definition mem_write_if_not_exists :: "memory \<Rightarrow> string \<Rightarrow> bytes \<Rightarrow> (BackendError, revision) result \<times> memory" where
  "mem_write_if_not_exists m path value =
     (case map_of m path of
        Some _ \<Rightarrow> (Inl BePrecondition, m)
      | None \<Rightarrow> let ob = object_new value in (Inr (object_revision ob), om_insert path ob m))"

definition mem_delete_if :: "memory \<Rightarrow> string \<Rightarrow> revision \<Rightarrow> (BackendError, unit) result \<times> memory" where
  "mem_delete_if m path expected =
     (case map_of m path of
        None \<Rightarrow> (Inl BeNotFound, m)
      | Some ob \<Rightarrow>
          if object_revision ob \<noteq> expected then (Inl BePrecondition, m) else (Inr (), om_remove path m))"

definition encode_memory_list_cursor :: "string \<Rightarrow> string \<Rightarrow> (BackendError, list_cursor) result" where
  "encode_memory_list_cursor pre key = bind_list_cursor pre (''m:'' @ key)"

definition decode_memory_list_cursor :: "string \<Rightarrow> string \<Rightarrow> (BackendError, string) result" where
  "decode_memory_list_cursor pre token =
     (if \<not> prefix ''m:'' token then Inl BeInvalidCursor
      else let key = drop 2 token in
        if \<not> prefix pre key then Inl BeInvalidCursor else Inr key)"

text \<open>The keys a listing walks: from the prefix on, or after the key of the cursor, while they have the prefix.\<close>

definition list_matches :: "memory \<Rightarrow> string \<Rightarrow> string option \<Rightarrow> string list" where
  "list_matches m pre after =
     takeWhile (prefix pre)
       (filter (\<lambda>k. case after of None \<Rightarrow> pre \<le> k | Some a \<Rightarrow> a < k) (om_keys m))"

definition mem_list :: "memory \<Rightarrow> string \<Rightarrow> list_cursor option \<Rightarrow> nat \<Rightarrow> (BackendError, list_page) result" where
  "mem_list m pre cursor limit =
     bind_r (list_provider_token pre cursor) (\<lambda>token.
     bind_r (case token of None \<Rightarrow> Inr None | Some t \<Rightarrow> map_r Some (decode_memory_list_cursor pre t)) (\<lambda>after.
       let matches = list_matches m pre after;
           objects = take limit matches
       in map_r (\<lambda>next. \<lparr>lp_objects = objects, lp_next = next\<rparr>)
            (if drop limit matches \<noteq> [] \<and> objects \<noteq> []
             then map_r Some (encode_memory_list_cursor pre (last objects))
             else Inr None)))"

section \<open>The contract\<close>

text \<open>What a store must promise, for single-object reads and conditional mutations that return a
  definite answer. \<open>view\<close> is the state a linearizable operation acts on; \<open>inv\<close> is the store's own
  invariant.\<close>

locale backend =
  fixes view :: "'s \<Rightarrow> store_view"
    and inv :: "'s \<Rightarrow> bool"
    and read :: "'s \<Rightarrow> string \<Rightarrow> (BackendError, read_reply) result"
    and read_if_modified :: "'s \<Rightarrow> string \<Rightarrow> revision \<Rightarrow> (BackendError, read_reply) result"
    and write_if :: "'s \<Rightarrow> string \<Rightarrow> bytes \<Rightarrow> revision \<Rightarrow> (BackendError, revision) result \<times> 's"
    and write_if_not_exists :: "'s \<Rightarrow> string \<Rightarrow> bytes \<Rightarrow> (BackendError, revision) result \<times> 's"
    and delete_if :: "'s \<Rightarrow> string \<Rightarrow> revision \<Rightarrow> (BackendError, unit) result \<times> 's"
  assumes read_view: "read s p = (case view s p of None \<Rightarrow> Inl BeNotFound | Some r \<Rightarrow> Inr r)"
    and read_if_modified_view:
      "read_if_modified s p expected =
         (case view s p of
            None \<Rightarrow> Inl BeNotFound
          | Some r \<Rightarrow> if rr_revision r = expected then Inl BePrecondition else Inr r)"
    and write_if_applied:
      "inv s \<Longrightarrow> view s p = Some r \<Longrightarrow> rr_revision r = expected \<Longrightarrow>
       \<exists>rv s'. write_if s p v expected = (Inr rv, s') \<and> inv s'
         \<and> view s' = (view s)(p \<mapsto> \<lparr>rr_contents = v, rr_revision = rv\<rparr>)"
    and write_if_refused:
      "view s p = None \<or> (\<exists>r. view s p = Some r \<and> rr_revision r \<noteq> expected) \<Longrightarrow>
       write_if s p v expected = (Inl (if view s p = None then BeNotFound else BePrecondition), s)"
    and create_applied:
      "inv s \<Longrightarrow> view s p = None \<Longrightarrow>
       \<exists>rv s'. write_if_not_exists s p v = (Inr rv, s') \<and> inv s'
         \<and> view s' = (view s)(p \<mapsto> \<lparr>rr_contents = v, rr_revision = rv\<rparr>)"
    and create_refused: "view s p \<noteq> None \<Longrightarrow> write_if_not_exists s p v = (Inl BePrecondition, s)"
    and delete_if_applied:
      "inv s \<Longrightarrow> view s p = Some r \<Longrightarrow> rr_revision r = expected \<Longrightarrow>
       \<exists>s'. delete_if s p expected = (Inr (), s') \<and> inv s' \<and> view s' = (view s)(p := None)"
    and delete_if_refused:
      "view s p = None \<or> (\<exists>r. view s p = Some r \<and> rr_revision r \<noteq> expected) \<Longrightarrow>
       delete_if s p expected = (Inl (if view s p = None then BeNotFound else BePrecondition), s)"
begin

lemma write_if_cases:
  assumes "inv s" "write_if s p v expected = (res, s')"
  obtains (applied) r rv where "view s p = Some r" "rr_revision r = expected" "res = Inr rv" "inv s'"
      "view s' = (view s)(p \<mapsto> \<lparr>rr_contents = v, rr_revision = rv\<rparr>)"
  | (refused) e where "res = Inl e" "s' = s"
proof (cases "\<exists>r. view s p = Some r \<and> rr_revision r = expected")
  case True
  then obtain r where r: "view s p = Some r" "rr_revision r = expected" by blast
  then obtain rv where "res = Inr rv" "inv s'" "view s' = (view s)(p \<mapsto> \<lparr>rr_contents = v, rr_revision = rv\<rparr>)"
    using write_if_applied[OF assms(1) r, of v] assms(2) by auto
  with r show ?thesis by (rule applied)
next
  case False
  then have "view s p = None \<or> (\<exists>r. view s p = Some r \<and> rr_revision r \<noteq> expected)" by auto
  from write_if_refused[OF this] show ?thesis using assms(2) refused by auto
qed

lemma create_cases:
  assumes "inv s" "write_if_not_exists s p v = (res, s')"
  obtains (applied) rv where "view s p = None" "res = Inr rv" "inv s'"
      "view s' = (view s)(p \<mapsto> \<lparr>rr_contents = v, rr_revision = rv\<rparr>)"
  | (refused) e where "res = Inl e" "s' = s"
proof (cases "view s p = None")
  case True
  then obtain rv where "res = Inr rv" "inv s'" "view s' = (view s)(p \<mapsto> \<lparr>rr_contents = v, rr_revision = rv\<rparr>)"
    using create_applied[OF assms(1) True, of v] assms(2) by auto
  with True show ?thesis by (rule applied)
next
  case False
  from create_refused[OF this] show ?thesis using assms(2) refused by auto
qed

lemma delete_if_cases:
  assumes "inv s" "delete_if s p expected = (res, s')"
  obtains (applied) r where "view s p = Some r" "rr_revision r = expected" "res = Inr ()" "inv s'"
      "view s' = (view s)(p := None)"
  | (refused) e where "res = Inl e" "s' = s"
proof (cases "\<exists>r. view s p = Some r \<and> rr_revision r = expected")
  case True
  then obtain r where r: "view s p = Some r" "rr_revision r = expected" by blast
  then have "res = Inr ()" "inv s'" "view s' = (view s)(p := None)"
    using delete_if_applied[OF assms(1) r] assms(2) by auto
  with r show ?thesis by (rule applied)
next
  case False
  then have "view s p = None \<or> (\<exists>r. view s p = Some r \<and> rr_revision r \<noteq> expected)" by auto
  from delete_if_refused[OF this] show ?thesis using assms(2) refused by auto
qed

text \<open>Two writers that expect the same revision: after the first one succeeds with other contents under
  a store that separates contents by revision, the second one is refused.\<close>

lemma cas_excludes:
  assumes "inv s" "write_if s p v expected = (Inr rv, s')" "rv \<noteq> expected"
  shows "write_if s' p w expected = (Inl BePrecondition, s')"
  using assms(1,2)
proof (cases rule: write_if_cases)
  case (applied r rv')
  then show ?thesis using assms(3) write_if_refused[of s' p expected w] by simp
qed simp

lemma create_excludes:
  assumes "inv s" "write_if_not_exists s p v = (Inr rv, s')"
  shows "write_if_not_exists s' p w = (Inl BePrecondition, s')"
  using assms
proof (cases rule: create_cases)
  case (applied rv')
  then show ?thesis using create_refused[of s' p w] by simp
qed simp

lemma reads_own_write:
  assumes "inv s" "write_if s p v expected = (Inr rv, s')"
  shows "read s' p = Inr \<lparr>rr_contents = v, rr_revision = rv\<rparr>
    \<and> read_if_modified s' p rv = Inl BePrecondition \<and> (\<forall>q. q \<noteq> p \<longrightarrow> read s' q = read s q)"
  using assms
proof (cases rule: write_if_cases)
  case (applied r rv')
  then show ?thesis by (simp add: read_view read_if_modified_view)
qed simp

end

definition mem_view :: "memory \<Rightarrow> store_view" where
  "mem_view m p = map_option (\<lambda>ob. \<lparr>rr_contents = ob_data ob, rr_revision = object_revision ob\<rparr>) (map_of m p)"

lemma mem_view_insert:
  "om_wf m \<Longrightarrow> mem_view (om_insert p (object_new v) m)
     = (mem_view m)(p \<mapsto> \<lparr>rr_contents = v, rr_revision = object_revision (object_new v)\<rparr>)"
  by (auto simp: mem_view_def object_new_def)

interpretation mem: backend mem_view om_wf mem_read mem_read_if_modified mem_write_if mem_write_if_not_exists mem_delete_if
proof unfold_locales
qed (auto simp: mem_read_def mem_read_if_modified_def mem_write_if_def mem_write_if_not_exists_def mem_delete_if_def
      mem_view_def Let_def object_new_def fun_eq_iff split: option.split)


section \<open>Walking a listing\<close>

text \<open>A client that follows the cursors, at most \<open>fuel\<close> pages; \<^term>\<open>None\<close> when the pages do not end.\<close>

fun list_walk :: "nat \<Rightarrow> memory \<Rightarrow> string \<Rightarrow> nat \<Rightarrow> list_cursor option \<Rightarrow> (BackendError, string list) result option" where
  "list_walk 0 m pre limit cursor = None"
| "list_walk (Suc fuel) m pre limit cursor =
     (case mem_list m pre cursor limit of
        Inl e \<Rightarrow> Some (Inl e)
      | Inr page \<Rightarrow>
          (case lp_next page of
             None \<Rightarrow> Some (Inr (lp_objects page))
           | Some c \<Rightarrow> map_option (map_r (\<lambda>ks. lp_objects page @ ks)) (list_walk fuel m pre limit (Some c))))"

lemma prefix_le: "prefix p (x :: string) \<Longrightarrow> p \<le> x"
  by (induction p x rule: list_induct2') auto

lemma prefix_convex: "p \<le> x \<Longrightarrow> x \<le> y \<Longrightarrow> prefix p (y :: string) \<Longrightarrow> prefix p x"
proof (induction p arbitrary: x y)
  case (Cons c p)
  then show ?case by (cases x; cases y) auto
qed simp

lemma takeWhile_prefix:
  assumes "sorted_wrt (<) ks" "\<forall>k \<in> set ks. pre \<le> k"
  shows "takeWhile (prefix pre) ks = filter (prefix pre) (ks :: string list)"
  using assms
proof (induction ks)
  case (Cons k ks)
  show ?case
  proof (cases "prefix pre k")
    case True
    then show ?thesis using Cons by simp
  next
    case False
    then have "\<not> prefix pre y" if "y \<in> set ks" for y
      using prefix_convex[of pre k y] Cons.prems that by (auto simp: less_imp_le)
    then show ?thesis using False by (simp add: filter_empty_conv)
  qed
qed simp

lemma list_matches_eq:
  assumes "om_wf m" "\<forall>a. after = Some a \<longrightarrow> prefix pre a"
  shows "list_matches m pre after
    = filter (\<lambda>k. prefix pre k \<and> (\<forall>a. after = Some a \<longrightarrow> a < k)) (om_keys m)"
proof -
  let ?P = "\<lambda>k. case after of None \<Rightarrow> pre \<le> k | Some a \<Rightarrow> a < k"
  have "pre \<le> k" if "?P k" for k
    using that assms(2) prefix_le[of pre] by (cases after) (auto intro: order_trans less_imp_le)
  moreover have "sorted_wrt (<) (filter ?P (om_keys m))"
    using assms(1) by (simp add: sorted_wrt_filter)
  ultimately have "list_matches m pre after = filter (prefix pre) (filter ?P (om_keys m))"
    unfolding list_matches_def by (intro takeWhile_prefix) auto
  also have "\<dots> = filter (\<lambda>k. prefix pre k \<and> (\<forall>a. after = Some a \<longrightarrow> a < k)) (om_keys m)"
    unfolding filter_filter by (rule filter_cong) (auto split: option.split dest: prefix_le)
  finally show ?thesis .
qed

lemma filter_after_last:
  assumes "sorted_wrt (<) (xs @ a # ys)"
  shows "filter (\<lambda>k. (a :: string) < k) (xs @ a # ys) = ys"
  using assms by (auto simp: sorted_wrt_append filter_empty_conv filter_id_conv)

text \<open>One page: the first matches, and a cursor whose matches are the rest.\<close>

lemma list_page_step:
  assumes "om_wf m" "validate_list_prefix pre = Inr ()" "0 < limit" "\<forall>a. after = Some a \<longrightarrow> prefix pre a"
  defines "M \<equiv> list_matches m pre after"
  defines "cursor \<equiv> map_option (\<lambda>a. \<lparr>lc_prefix = pre, lc_provider_token = ''m:'' @ a\<rparr>) after"
  shows "length M \<le> limit \<Longrightarrow> mem_list m pre cursor limit = Inr \<lparr>lp_objects = M, lp_next = None\<rparr>"
    and "limit < length M \<Longrightarrow> \<exists>a. prefix pre a \<and> list_matches m pre (Some a) = drop limit M
      \<and> mem_list m pre cursor limit
        = Inr \<lparr>lp_objects = take limit M, lp_next = Some \<lparr>lc_prefix = pre, lc_provider_token = ''m:'' @ a\<rparr>\<rparr>"
proof -
  have cur: "mem_list m pre cursor limit =
      map_r (\<lambda>next. \<lparr>lp_objects = take limit M, lp_next = next\<rparr>)
        (if drop limit M \<noteq> [] \<and> take limit M \<noteq> [] then map_r Some (encode_memory_list_cursor pre (last (take limit M)))
         else Inr None)"
    using assms(2,4)
    by (cases after)
      (simp_all add: mem_list_def cursor_def list_provider_token_def decode_memory_list_cursor_def M_def Let_def)
  show "mem_list m pre cursor limit = Inr \<lparr>lp_objects = M, lp_next = None\<rparr>" if "length M \<le> limit"
    using cur that by simp
  assume limit: "limit < length M"
  define a where "a = M ! (limit - 1)"
  have split: "M = take (limit - 1) M @ a # drop limit M"
    using limit \<open>0 < limit\<close> id_take_nth_drop[of "limit - 1" M] by (simp add: a_def)
  have last: "last (take limit M) = a"
  proof -
    have "take limit M \<noteq> []" "length (take limit M) = limit" using limit \<open>0 < limit\<close> by auto
    then show ?thesis using \<open>0 < limit\<close> by (simp add: a_def last_conv_nth)
  qed
  have M: "M = filter (\<lambda>k. prefix pre k \<and> (\<forall>a. after = Some a \<longrightarrow> a < k)) (om_keys m)"
    using list_matches_eq assms(1,4) by (simp add: M_def)
  then have sorted: "sorted_wrt (<) M" using assms(1) by (simp add: sorted_wrt_filter)
  have "a \<in> set M" using split by (metis in_set_conv_decomp)
  then have a: "prefix pre a" "\<forall>b. after = Some b \<longrightarrow> b < a" using M by auto
  have "list_matches m pre (Some a) = filter (\<lambda>k. a < k) M"
    using a(2) by (subst list_matches_eq) (use assms(1) a(1) in \<open>auto simp: M filter_filter intro!: filter_cong\<close>)
  also have "\<dots> = drop limit M" using split sorted filter_after_last by metis
  finally have "list_matches m pre (Some a) = drop limit M" .
  moreover have "take limit M \<noteq> []" "drop limit M \<noteq> []" using limit \<open>0 < limit\<close> by auto
  then have "mem_list m pre cursor limit
        = Inr \<lparr>lp_objects = take limit M, lp_next = Some \<lparr>lc_prefix = pre, lc_provider_token = ''m:'' @ a\<rparr>\<rparr>"
    using cur last assms(2) by (simp add: encode_memory_list_cursor_def bind_list_cursor_def)
  ultimately show "\<exists>a. prefix pre a \<and> list_matches m pre (Some a) = drop limit M
      \<and> mem_list m pre cursor limit
        = Inr \<lparr>lp_objects = take limit M, lp_next = Some \<lparr>lc_prefix = pre, lc_provider_token = ''m:'' @ a\<rparr>\<rparr>"
    using a(1) by blast
qed

lemma list_walk_from:
  assumes "om_wf m" "validate_list_prefix pre = Inr ()" "0 < limit" "\<forall>a. after = Some a \<longrightarrow> prefix pre a"
    and "length (list_matches m pre after) < fuel"
  shows "list_walk fuel m pre limit (map_option (\<lambda>a. \<lparr>lc_prefix = pre, lc_provider_token = ''m:'' @ a\<rparr>) after)
     = Some (Inr (list_matches m pre after))"
  using assms(4,5)
proof (induction fuel arbitrary: after)
  case (Suc fuel)
  note step = list_page_step[OF assms(1-3) Suc.prems(1)]
  show ?case
  proof (cases "length (list_matches m pre after) \<le> limit")
    case True
    then show ?thesis using step(1) by simp
  next
    case False
    then obtain a where a: "prefix pre a" "list_matches m pre (Some a) = drop limit (list_matches m pre after)"
      "mem_list m pre (map_option (\<lambda>a. \<lparr>lc_prefix = pre, lc_provider_token = ''m:'' @ a\<rparr>) after) limit
        = Inr \<lparr>lp_objects = take limit (list_matches m pre after),
               lp_next = Some \<lparr>lc_prefix = pre, lc_provider_token = ''m:'' @ a\<rparr>\<rparr>"
      using step(2) by auto
    have "list_walk fuel m pre limit (Some \<lparr>lc_prefix = pre, lc_provider_token = ''m:'' @ a\<rparr>)
        = Some (Inr (drop limit (list_matches m pre after)))"
      using Suc.IH[of "Some a"] a(1,2) Suc.prems(2) False assms(3) by simp
    then show ?thesis using a(3) by simp
  qed
qed simp

section \<open>Properties\<close>

text \<open>C31: a walk over the pages of a listing ends and returns every object path with the prefix exactly
  once, whatever the page size.\<close>

theorem list_walk_complete:
  assumes "om_wf m" "pre = [] \<or> suffix ''/'' pre" "0 < limit" "length m < fuel"
  shows "list_walk fuel m pre limit None = Some (Inr (filter (prefix pre) (om_keys m)))"
proof -
  have "list_matches m pre None = filter (prefix pre) (om_keys m)"
    using list_matches_eq[OF assms(1), of None] by simp
  moreover have "length (filter (prefix pre) (om_keys m)) < fuel"
    using assms(4) le_less_trans[OF length_filter_le[of "prefix pre" "om_keys m"]] by simp
  ultimately show ?thesis
    using list_walk_from[of m pre limit None fuel] assms by (simp add: validate_list_prefix_def)
qed

theorem list_walk_complete_witness:
  "list_walk 4 [(''a/1'', object_new []), (''a/2'', object_new []), (''b'', object_new [])] ''a/'' 1 None
     = Some (Inr [''a/1'', ''a/2''])"
  using list_walk_complete[of "[(''a/1'', object_new []), (''a/2'', object_new []), (''b'', object_new [])]" "''a/''" 1 4]
  by (simp add: suffix_def less_char_def)



end
