(* ===== verification/Paths.thy ===== *)
theory Paths
  imports Errors "HOL-Library.Sublist"
begin

text \<open>
  Collection addresses, logical keys and the paths of backend objects
  (\<^verbatim>\<open>glassdb-data/src/paths.rs\<close> and its submodules): the text form that
  \<^verbatim>\<open>Display\<close> writes and the parser that \<^verbatim>\<open>TryFrom<&str>\<close> is. A \<^verbatim>\<open>format!\<close> is the
  concatenation it writes; a slice of a string is \<^const>\<open>take\<close>/\<^const>\<open>drop\<close>; an
  \<^verbatim>\<open>expect\<close> that can fail is an \<^typ>\<open>'a option\<close> result.
\<close>

section \<open>String primitives of the standard library\<close>

text \<open>\<^verbatim>\<open>str::split_once\<close>, \<^verbatim>\<open>str::rsplit_once\<close> and \<^verbatim>\<open>str::strip_suffix\<close>.\<close>

fun split_once :: "string \<Rightarrow> string \<Rightarrow> (string \<times> string) option" where
  "split_once pat [] = (if pat = [] then Some ([], []) else None)"
| "split_once pat (c # cs) =
     (if prefix pat (c # cs) then Some ([], drop (length pat) (c # cs))
      else map_option (map_prod (Cons c) (\<lambda>x. x)) (split_once pat cs))"

fun rsplit_once :: "string \<Rightarrow> string \<Rightarrow> (string \<times> string) option" where
  "rsplit_once pat [] = (if pat = [] then Some ([], []) else None)"
| "rsplit_once pat (c # cs) =
     (case rsplit_once pat cs of
        Some (a, b) \<Rightarrow> Some (c # a, b)
      | None \<Rightarrow> if prefix pat (c # cs) then Some ([], drop (length pat) (c # cs)) else None)"

definition strip_suffix :: "string \<Rightarrow> string \<Rightarrow> string option" where
  "strip_suffix suf s = (if suffix suf s then Some (take (length s - length suf) s) else None)"

definition is_ascii_alphanumeric :: "char \<Rightarrow> bool" where
  "is_ascii_alphanumeric c \<longleftrightarrow>
     (let n = of_char c :: nat
      in 48 \<le> n \<and> n \<le> 57 \<or> 65 \<le> n \<and> n \<le> 90 \<or> 97 \<le> n \<and> n \<le> 122)"

section \<open>Types\<close>

datatype PathError = ParseError string | InvalidComponent string string | DecodeFailed DecodeError

datatype db_prefix = DbPrefix (db_str: string)

datatype collection_address = CollectionAddress (ca_db_prefix: db_prefix) (ca_id: collection_id)

datatype logical_key = LogicalKey (lk_collection: collection_address) (lk_key: bytes)

datatype leaf_ref = LeafRoot collection_address | LeafNode collection_address node_id

datatype object_path =
    DatabaseMetadata db_prefix
  | CollectionRecord collection_address
  | Transaction db_prefix tx_id
  | TreeRoot collection_address
  | NodePath collection_address node_id
  | StructuralIntentPath db_prefix tx_id structural_intent_id

definition validate_db_prefix :: "string \<Rightarrow> (PathError, unit) result" where
  "validate_db_prefix v =
     (if v = [] \<or> length v > 255 \<or> \<not> list_all is_ascii_alphanumeric v
      then Inl (InvalidComponent ''database prefix'' v) else Inr ())"

definition db_prefix_try_from :: "string \<Rightarrow> (PathError, db_prefix) result" where
  "db_prefix_try_from v = map_r (\<lambda>_. DbPrefix v) (validate_db_prefix v)"

definition ID_ENCODED_LEN :: nat where
  [simp]: "ID_ENCODED_LEN = 22"

definition parse_id ::
  "(bytes \<Rightarrow> (slice_error, 'i) result) \<Rightarrow> string \<Rightarrow> string \<Rightarrow> (PathError, 'i) result" where
  "parse_id try_from component v =
     (let invalid = Inl (InvalidComponent component v)
      in if length v \<noteq> ID_ENCODED_LEN then invalid
         else case decode v of
           Inl e \<Rightarrow> Inl (DecodeFailed e)
         | Inr decoded \<Rightarrow>
             if encode decoded \<noteq> v then invalid
             else (case try_from decoded of Inl _ \<Rightarrow> invalid | Inr i \<Rightarrow> Inr i))"

definition collection_address_new :: "string \<Rightarrow> collection_id \<Rightarrow> collection_address option" where
  "collection_address_new db i =
     (case db_prefix_try_from db of Inl _ \<Rightarrow> None | Inr p \<Rightarrow> Some (CollectionAddress p i))"

fun leaf_ref_collection :: "leaf_ref \<Rightarrow> collection_address" where
  "leaf_ref_collection (LeafRoot c) = c"
| "leaf_ref_collection (LeafNode c i) = c"

fun leaf_ref_node_id :: "leaf_ref \<Rightarrow> node_id option" where
  "leaf_ref_node_id (LeafRoot c) = None"
| "leaf_ref_node_id (LeafNode c i) = Some i"

fun leaf_ref_object_path :: "leaf_ref \<Rightarrow> object_path" where
  "leaf_ref_object_path (LeafRoot c) = TreeRoot c"
| "leaf_ref_object_path (LeafNode c i) = NodePath c i"

definition classify_collection_absence :: "collection_address \<Rightarrow> StorageError \<Rightarrow> StorageError" where
  "classify_collection_absence c e =
     (if e = NotFound \<and> \<not> is_root (ca_id c) then StaleCollection else e)"

section \<open>Tree object paths\<close>

definition collection_prefix :: "string \<Rightarrow> collection_id \<Rightarrow> string" where
  "collection_prefix db i = db @ ''/_c/'' @ encode (cid_bytes i)"

definition parse_collection_prefix :: "string \<Rightarrow> (PathError, string \<times> collection_id) result" where
  "parse_collection_prefix pre =
     (case split_once ''/_c/'' pre of
        None \<Rightarrow> Inl (ParseError pre)
      | Some (db, encoded) \<Rightarrow>
          if db = [] \<or> encoded = [] \<or> CHR ''/'' \<in> set encoded then Inl (ParseError pre)
          else map_r (Pair db) (parse_id collection_id_try_from ''collection ID'' encoded))"

text \<open>\<^verbatim>\<open>parse_collection\<close>: the address constructor cannot fail after the check of the prefix.\<close>

definition parse_collection :: "string \<Rightarrow> (PathError, collection_address) result" where
  "parse_collection pre =
     bind_r (parse_collection_prefix pre) (\<lambda>(db, i).
       map_r (\<lambda>p. CollectionAddress p i) (db_prefix_try_from db))"

definition physical_prefix :: "collection_address \<Rightarrow> string" where
  "physical_prefix c = collection_prefix (db_str (ca_db_prefix c)) (ca_id c)"

definition from_physical_prefix :: "string \<Rightarrow> (PathError, collection_address) result" where
  "from_physical_prefix pre =
     bind_r (parse_collection_prefix pre) (\<lambda>(db, i).
       map_r (\<lambda>p. CollectionAddress p i) (db_prefix_try_from db))"

definition tree_parse_object :: "string \<Rightarrow> (PathError, object_path) result option" where
  "tree_parse_object path =
     (case rsplit_once ''/_n/'' path of
        Some (pre, i) \<Rightarrow>
          Some (if pre = [] \<or> i = [] \<or> CHR ''/'' \<in> set i then Inl (ParseError path)
                else bind_r (parse_collection pre) (\<lambda>c.
                  map_r (NodePath c) (parse_id node_id_try_from ''node ID'' i)))
      | None \<Rightarrow>
          (case strip_suffix ''/_i'' path of
             Some pre \<Rightarrow>
               Some (if pre = [] then Inl (ParseError path)
                     else map_r CollectionRecord (parse_collection pre))
           | None \<Rightarrow>
               (case strip_suffix ''/_r'' path of
                  Some pre \<Rightarrow>
                    Some (if pre = [] then Inl (ParseError path)
                          else map_r TreeRoot (parse_collection pre))
                | None \<Rightarrow> None)))"

definition nodes_prefix :: "string \<Rightarrow> string" where
  "nodes_prefix pre = pre @ ''/_n/''"

section \<open>Transaction record paths\<close>

definition prefix_symbols :: "string \<Rightarrow> string" where
  "prefix_symbols encoded = take 2 encoded"

definition decode_parts :: "string \<Rightarrow> string \<Rightarrow> string \<Rightarrow> string \<Rightarrow> (PathError, tx_id) result" where
  "decode_parts source a b encoded =
     bind_r (parse_id tx_id_try_from ''transaction ID'' encoded) (\<lambda>i.
       let symbols = prefix_symbols encoded
       in if a \<noteq> take 1 symbols \<or> b \<noteq> drop 1 symbols then Inl (ParseError source) else Inr i)"

definition transaction_parse_object :: "string \<Rightarrow> (PathError, object_path) result option" where
  "transaction_parse_object path =
     (case rsplit_once ''/'' path of None \<Rightarrow> None | Some (parent1, encoded) \<Rightarrow>
     (case rsplit_once ''/'' parent1 of None \<Rightarrow> None | Some (parent2, b) \<Rightarrow>
     (case rsplit_once ''/'' parent2 of None \<Rightarrow> None | Some (typed, a) \<Rightarrow>
     (case rsplit_once ''/'' typed of None \<Rightarrow> None | Some (pre, marker) \<Rightarrow>
        if marker \<noteq> ''_t'' then None
        else if pre = [] then Some (Inl (ParseError path))
        else Some (bind_r (decode_parts path a b encoded) (\<lambda>i.
               map_r (\<lambda>p. Transaction p i) (db_prefix_try_from pre)))))))"

definition write_transaction :: "string \<Rightarrow> tx_id \<Rightarrow> string" where
  "write_transaction pre i =
     (let encoded = encode (tx_bytes i); symbols = prefix_symbols encoded
      in pre @ ''/_t/'' @ take 1 symbols @ ''/'' @ drop 1 symbols @ ''/'' @ encoded)"

text \<open>\<^term>\<open>None\<close> where \<^verbatim>\<open>expect\<close> would panic.\<close>

definition transaction_prefix_index :: "tx_id \<Rightarrow> nat option" where
  "transaction_prefix_index i =
     (case decode_u12 (prefix_symbols (encode (tx_bytes i))) of Inl _ \<Rightarrow> None | Inr n \<Rightarrow> Some n)"

definition index_prefix :: "string \<Rightarrow> nat \<Rightarrow> string option" where
  "index_prefix pre index =
     map_option (\<lambda>symbols. pre @ ''/_t/'' @ take 1 symbols @ ''/'' @ drop 1 symbols @ ''/'')
       (encode_u12 index)"

text \<open>The message of the error names the arguments; its text is not part of the model.\<close>

definition scan_prefix :: "string \<Rightarrow> nat \<Rightarrow> nat \<Rightarrow> (PathError, string) result option" where
  "scan_prefix pre depth index =
     (if depth > 2 \<or> index \<ge> 64 ^ depth
      then Some (Inl (ParseError ''invalid transaction scan prefix''))
      else if depth = 0 then Some (Inr (pre @ ''/_t/''))
      else if depth = 1
      then map_option (\<lambda>symbols. Inr (pre @ ''/_t/'' @ take 1 symbols @ ''/'')) (encode_u12 (index * 64))
      else map_option Inr (index_prefix pre index))"

section \<open>Structural intent paths\<close>

definition structural_parse_parts ::
  "string \<Rightarrow> string \<Rightarrow> string \<Rightarrow> (PathError, tx_id \<times> string) result" where
  "structural_parse_parts source db suf =
     (case split_once ''/'' suf of
        None \<Rightarrow> Inl (ParseError source)
      | Some (encoded_participant, intent_id) \<Rightarrow>
          if db = [] \<or> encoded_participant = [] \<or> intent_id = [] \<or> CHR ''/'' \<in> set intent_id
          then Inl (ParseError source)
          else map_r (\<lambda>p. (p, intent_id))
                 (parse_id tx_id_try_from ''transaction ID'' encoded_participant))"

definition structural_parse_object :: "string \<Rightarrow> (PathError, object_path) result option" where
  "structural_parse_object path =
     (case split_once ''/_s/'' path of
        None \<Rightarrow> None
      | Some (db, suf) \<Rightarrow>
          Some (bind_r (structural_parse_parts path db suf) (\<lambda>(participant, intent_id).
            bind_r (db_prefix_try_from db) (\<lambda>p.
              map_r (StructuralIntentPath p participant)
                (parse_id structural_intent_id_try_from ''structural intent ID'' intent_id)))))"

definition write_intent :: "string \<Rightarrow> tx_id \<Rightarrow> structural_intent_id \<Rightarrow> string" where
  "write_intent db participant intent_id =
     db @ ''/_s/'' @ encode (tx_bytes participant) @ ''/'' @ encode (sid_bytes intent_id)"

definition structural_directory :: "string \<Rightarrow> string" where
  "structural_directory db = db @ ''/_s/''"

definition participant_directory :: "string \<Rightarrow> tx_id \<Rightarrow> string" where
  "participant_directory db participant = db @ ''/_s/'' @ encode (tx_bytes participant) @ ''/''"

section \<open>Object paths\<close>

fun object_path_display :: "object_path \<Rightarrow> string" where
  "object_path_display (DatabaseMetadata db) = db_str db @ ''/glassdb''"
| "object_path_display (CollectionRecord c) = physical_prefix c @ ''/_i''"
| "object_path_display (Transaction db i) = write_transaction (db_str db) i"
| "object_path_display (TreeRoot c) = physical_prefix c @ ''/_r''"
| "object_path_display (NodePath c i) = physical_prefix c @ ''/_n/'' @ encode (nid_bytes i)"
| "object_path_display (StructuralIntentPath db p i) = write_intent (db_str db) p i"

definition object_path_try_from :: "string \<Rightarrow> (PathError, object_path) result" where
  "object_path_try_from path =
     (case strip_suffix ''/glassdb'' path of
        Some db \<Rightarrow> map_r DatabaseMetadata (db_prefix_try_from db)
      | None \<Rightarrow>
     (case transaction_parse_object path of Some r \<Rightarrow> r | None \<Rightarrow>
     (case structural_parse_object path of Some r \<Rightarrow> r | None \<Rightarrow>
     (case tree_parse_object path of Some r \<Rightarrow> r | None \<Rightarrow> Inl (ParseError path)))))"

section \<open>Well-formedness\<close>

definition db_prefix_ok :: "db_prefix \<Rightarrow> bool" where
  "db_prefix_ok p \<longleftrightarrow> db_str p \<noteq> [] \<and> length (db_str p) \<le> 255 \<and> list_all is_ascii_alphanumeric (db_str p)"

definition collection_address_ok :: "collection_address \<Rightarrow> bool" where
  "collection_address_ok c \<longleftrightarrow> db_prefix_ok (ca_db_prefix c) \<and> id_ok (cid_bytes (ca_id c))"

fun object_path_ok :: "object_path \<Rightarrow> bool" where
  "object_path_ok (DatabaseMetadata db) \<longleftrightarrow> db_prefix_ok db"
| "object_path_ok (CollectionRecord c) \<longleftrightarrow> collection_address_ok c"
| "object_path_ok (Transaction db i) \<longleftrightarrow> db_prefix_ok db \<and> id_ok (tx_bytes i)"
| "object_path_ok (TreeRoot c) \<longleftrightarrow> collection_address_ok c"
| "object_path_ok (NodePath c i) \<longleftrightarrow> collection_address_ok c \<and> id_ok (nid_bytes i)"
| "object_path_ok (StructuralIntentPath db p i) \<longleftrightarrow>
     db_prefix_ok db \<and> id_ok (tx_bytes p) \<and> id_ok (sid_bytes i)"

section \<open>Components of a path\<close>

fun split_slash :: "string \<Rightarrow> string list" where
  "split_slash [] = [[]]"
| "split_slash (c # cs) =
     (if c = CHR ''/'' then [] # split_slash cs
      else (c # hd (split_slash cs)) # tl (split_slash cs))"

lemma split_slash_not_Nil [simp]: "split_slash s \<noteq> []"
  by (cases s) auto

lemma split_slash_append [simp]:
  "split_slash (a @ CHR ''/'' # b) = split_slash a @ split_slash b"
  by (induction a) auto

lemma split_slash_component [simp]: "CHR ''/'' \<notin> set c \<Longrightarrow> split_slash c = [c]"
  by (induction c) auto

lemma prefix_drop: "prefix pat s \<Longrightarrow> pat @ drop (length pat) s = s"
  by (auto simp: prefix_def)

lemma split_once_sound: "split_once pat s = Some (a, b) \<Longrightarrow> s = a @ pat @ b"
  by (induction pat s arbitrary: a b rule: split_once.induct)
    (auto split: if_splits simp: prefix_drop)

lemma rsplit_once_sound: "rsplit_once pat s = Some (a, b) \<Longrightarrow> s = a @ pat @ b"
  by (induction pat s arbitrary: a b rule: rsplit_once.induct)
    (auto split: if_splits option.splits simp: prefix_drop)

lemma split_once_complete:
  "CHR ''/'' \<notin> set a \<Longrightarrow> split_once (CHR ''/'' # p) (a @ CHR ''/'' # p @ b) = Some (a, b)"
  by (induction a) auto

lemma rsplit_once_append:
  "rsplit_once pat s = Some (a, b) \<Longrightarrow> rsplit_once pat (x @ s) = Some (x @ a, b)"
  by (induction x) auto

lemma rsplit_once_None:
  assumes "count_list s (CHR ''/'') < count_list pat (CHR ''/'')"
  shows "rsplit_once pat s = None"
proof (rule ccontr)
  assume "rsplit_once pat s \<noteq> None"
  then obtain a b where "rsplit_once pat s = Some (a, b)" by auto
  then have "s = a @ pat @ b" by (rule rsplit_once_sound)
  then show False using assms by simp
qed

lemma rsplit_once_slash: "CHR ''/'' \<notin> set b \<Longrightarrow> rsplit_once ''/'' (a @ CHR ''/'' # b) = Some (a, b)"
  using rsplit_once_append[of "''/''" "CHR ''/'' # b" "[]" b a]
    rsplit_once_None[of b "''/''"] by (simp add: count_list_0_iff)

lemma rsplit_once_no_slash: "CHR ''/'' \<notin> set b \<Longrightarrow> rsplit_once ''/'' b = None"
  by (rule rsplit_once_None) (simp add: count_list_0_iff)

lemma rsplit_once_node: "CHR ''/'' \<notin> set b \<Longrightarrow> rsplit_once ''/_n/'' (a @ ''/_n/'' @ b) = Some (a, b)"
  using rsplit_once_append[of "''/_n/''" "''/_n/'' @ b" "[]" b a]
    rsplit_once_None[of "''_n/'' @ b" "''/_n/''"] by (simp add: count_list_0_iff)

text \<open>A pattern between slashes is found only where the path has that component.\<close>

lemma split_once_component:
  "split_once (CHR ''/'' # m @ ''/'') s = Some r \<Longrightarrow> CHR ''/'' \<notin> set m \<Longrightarrow> m \<in> set (split_slash s)"
  using split_once_sound[of "CHR ''/'' # m @ ''/''" s "fst r" "snd r"] by simp

lemma rsplit_once_component:
  "rsplit_once (CHR ''/'' # m @ ''/'') s = Some r \<Longrightarrow> CHR ''/'' \<notin> set m \<Longrightarrow> m \<in> set (split_slash s)"
  using rsplit_once_sound[of "CHR ''/'' # m @ ''/''" s "fst r" "snd r"] by simp

lemma strip_suffix_sound: "strip_suffix suf s = Some a \<longleftrightarrow> s = a @ suf"
  by (auto simp: strip_suffix_def suffix_def)

lemma strip_suffix_component:
  "strip_suffix (CHR ''/'' # m) s = Some a \<Longrightarrow> CHR ''/'' \<notin> set m \<Longrightarrow> last (split_slash s) = m"
  by (auto simp: strip_suffix_sound)

section \<open>Identifiers in a path\<close>

lemma parse_id_ok_iff:
  assumes "\<And>bs j. try_from bs = Inr j \<longleftrightarrow> bs = as_bytes j \<and> id_ok bs"
  shows "parse_id try_from what v = Inr i \<longleftrightarrow> v = encode (as_bytes i) \<and> id_ok (as_bytes i)"
proof
  assume "parse_id try_from what v = Inr i"
  then show "v = encode (as_bytes i) \<and> id_ok (as_bytes i)"
    using assms by (auto simp: parse_id_def Let_def split: if_splits sum.splits)
next
  assume r: "v = encode (as_bytes i) \<and> id_ok (as_bytes i)"
  then have "try_from (as_bytes i) = Inr i" using assms by simp
  moreover have "length v = 22" using r by (simp add: length_encode id_ok_def)
  ultimately show "parse_id try_from what v = Inr i"
    using r by (simp add: parse_id_def Let_def decode_encode_eq)
qed

lemmas parse_ids = parse_id_ok_iff[OF try_from_as_bytes(1)] parse_id_ok_iff[OF try_from_as_bytes(2)]
  parse_id_ok_iff[OF try_from_as_bytes(3)] parse_id_ok_iff[OF try_from_as_bytes(4)]

lemma db_prefix_try_from_ok_iff: "db_prefix_try_from v = Inr p \<longleftrightarrow> v = db_str p \<and> db_prefix_ok p"
  by (cases p) (auto simp: db_prefix_try_from_def validate_db_prefix_def db_prefix_ok_def)

lemma db_prefix_no_slash [simp]: "db_prefix_ok p \<Longrightarrow> CHR ''/'' \<notin> set (db_str p)"
  by (auto simp: db_prefix_ok_def list_all_iff is_ascii_alphanumeric_def Let_def)

lemma db_prefix_no_underscore: "db_prefix_ok p \<Longrightarrow> CHR ''_'' \<notin> set (db_str p)"
  by (auto simp: db_prefix_ok_def list_all_iff is_ascii_alphanumeric_def Let_def)

lemma encode_id_length: "id_ok bs \<Longrightarrow> length (encode bs) = 22"
  by (simp add: length_encode id_ok_def)

section \<open>Parsing what is written\<close>

lemma parse_collection_ok_iff:
  "parse_collection pre = Inr c \<longleftrightarrow> pre = physical_prefix c \<and> collection_address_ok c"
proof
  assume "parse_collection pre = Inr c"
  then obtain db i e where s: "split_once ''/_c/'' pre = Some (db, e)"
    and i: "parse_id collection_id_try_from ''collection ID'' e = Inr i"
    and p: "db_prefix_try_from db = Inr (ca_db_prefix c)" and c: "ca_id c = i"
    by (auto simp: parse_collection_def parse_collection_prefix_def bind_r_ok_iff map_r_ok_iff
        split: option.splits if_splits)
  then show "pre = physical_prefix c \<and> collection_address_ok c"
    using split_once_sound[OF s] parse_ids(4)[of _ e i] db_prefix_try_from_ok_iff[of db "ca_db_prefix c"]
    by (auto simp: physical_prefix_def collection_prefix_def collection_address_ok_def)
next
  assume r: "pre = physical_prefix c \<and> collection_address_ok c"
  then have ok: "db_prefix_ok (ca_db_prefix c)" "id_ok (cid_bytes (ca_id c))"
    by (auto simp: collection_address_ok_def)
  have "split_once ''/_c/'' pre = Some (db_str (ca_db_prefix c), encode (cid_bytes (ca_id c)))"
    using r ok split_once_complete[of "db_str (ca_db_prefix c)" "''_c/''"]
    by (simp add: physical_prefix_def collection_prefix_def)
  moreover have "db_str (ca_db_prefix c) \<noteq> []" using ok by (simp add: db_prefix_ok_def)
  moreover have "cid_bytes (ca_id c) \<noteq> []" using ok by auto
  ultimately show "parse_collection pre = Inr c"
    using ok db_prefix_try_from_ok_iff[of "db_str (ca_db_prefix c)" "ca_db_prefix c"]
      parse_ids(4)[of "''collection ID''" "encode (cid_bytes (ca_id c))" "ca_id c"]
    by (simp add: parse_collection_def parse_collection_prefix_def)
qed

lemma physical_prefix_not_Nil [simp]: "physical_prefix c \<noteq> []"
  by (simp add: physical_prefix_def collection_prefix_def)

lemma split_slash_physical_prefix:
  "collection_address_ok c \<Longrightarrow>
     split_slash (physical_prefix c) = [db_str (ca_db_prefix c), ''_c'', encode (cid_bytes (ca_id c))]"
  by (simp add: physical_prefix_def collection_prefix_def collection_address_ok_def)

lemma split_slash_display:
  assumes "object_path_ok p"
  shows "split_slash (object_path_display p) = (case p of
     DatabaseMetadata db \<Rightarrow> [db_str db, ''glassdb'']
   | CollectionRecord c \<Rightarrow> split_slash (physical_prefix c) @ [''_i'']
   | Transaction db i \<Rightarrow> [db_str db, ''_t'', take 1 (encode (tx_bytes i)),
       take 1 (drop 1 (encode (tx_bytes i))), encode (tx_bytes i)]
   | TreeRoot c \<Rightarrow> split_slash (physical_prefix c) @ [''_r'']
   | NodePath c i \<Rightarrow> split_slash (physical_prefix c) @ [''_n'', encode (nid_bytes i)]
   | StructuralIntentPath db q i \<Rightarrow> [db_str db, ''_s'', encode (tx_bytes q), encode (sid_bytes i)])"
proof -
  have "CHR ''/'' \<notin> set (take 1 (encode bs))" "CHR ''/'' \<notin> set (take 1 (drop 1 (encode bs)))" for bs
    using slash_not_encoded[of bs] by (meson in_set_dropD in_set_takeD)+
  then show ?thesis using assms
    by (cases p) (simp_all add: write_transaction_def write_intent_def prefix_symbols_def Let_def drop_take
        numeral_2_eq_2)
qed

lemma tree_parse_sound:
  assumes "tree_parse_object s = Some (Inr p)"
  shows "s = object_path_display p \<and> object_path_ok p"
proof (cases "rsplit_once ''/_n/'' s")
  case None
  then show ?thesis
    using assms by (auto simp: tree_parse_object_def map_r_ok_iff parse_collection_ok_iff
        strip_suffix_sound split: option.splits if_splits)
next
  case (Some r)
  obtain pre i where r: "r = (pre, i)" by (cases r)
  have s: "s = pre @ ''/_n/'' @ i" using rsplit_once_sound[of "''/_n/''" s pre i] Some r by simp
  show ?thesis
    using assms Some r s by (auto simp: tree_parse_object_def bind_r_ok_iff map_r_ok_iff
        parse_collection_ok_iff parse_ids split: if_splits)
qed

lemma structural_parse_sound:
  assumes "structural_parse_object s = Some (Inr p)"
  shows "s = object_path_display p \<and> object_path_ok p"
proof -
  obtain db suf where r: "split_once ''/_s/'' s = Some (db, suf)"
    using assms by (auto simp: structural_parse_object_def split: option.splits)
  obtain e i where q: "split_once ''/'' suf = Some (e, i)"
    using assms r by (auto simp: structural_parse_object_def structural_parse_parts_def bind_r_ok_iff
        split: option.splits)
  have "s = db @ ''/_s/'' @ e @ ''/'' @ i" using split_once_sound[OF r] split_once_sound[OF q] by simp
  then show ?thesis
    using assms r q by (auto simp: structural_parse_object_def structural_parse_parts_def bind_r_ok_iff
        map_r_ok_iff parse_ids db_prefix_try_from_ok_iff write_intent_def split: if_splits)
qed

lemma transaction_parse_sound:
  assumes "transaction_parse_object s = Some (Inr p)"
  shows "s = object_path_display p \<and> object_path_ok p"
proof -
  obtain s1 e s2 b s3 a pre where
    r: "rsplit_once ''/'' s = Some (s1, e)" "rsplit_once ''/'' s1 = Some (s2, b)"
      "rsplit_once ''/'' s2 = Some (s3, a)" "rsplit_once ''/'' s3 = Some (pre, ''_t'')"
    using assms by (auto simp: transaction_parse_object_def split: option.splits if_splits)
  have s: "s = pre @ ''/_t/'' @ a @ ''/'' @ b @ ''/'' @ e"
    using r[THEN rsplit_once_sound] by simp
  obtain i db where p: "p = Transaction db i" and i: "decode_parts s a b e = Inr i"
    and db: "db_prefix_try_from pre = Inr db"
    using assms r by (auto simp: transaction_parse_object_def bind_r_ok_iff map_r_ok_iff split: if_splits)
  from i have "e = encode (tx_bytes i)" "id_ok (tx_bytes i)" "a = take 1 (take 2 e)" "b = drop 1 (take 2 e)"
    by (auto simp: decode_parts_def bind_r_ok_iff parse_ids prefix_symbols_def Let_def split: if_splits)
  then show ?thesis
    using s p db by (simp add: write_transaction_def prefix_symbols_def Let_def db_prefix_try_from_ok_iff)
qed

lemma marker_not_db: "db_prefix_ok db \<Longrightarrow> (CHR ''_'' # m = db_str db) = False"
  using db_prefix_no_underscore[of db] by (metis list.set_intros(1))

lemma marker_not_id: "length m \<noteq> 22 \<Longrightarrow> id_ok bs \<Longrightarrow> (m = encode bs) = False"
  using encode_id_length[of bs] by auto

lemma last_component_display:
  "object_path_ok p \<Longrightarrow> \<forall>db. p \<noteq> DatabaseMetadata db \<Longrightarrow>
     last (split_slash (object_path_display p)) \<noteq> ''glassdb''"
  unfolding split_slash_display
  by (cases p) (auto dest!: encode_id_length)

lemma not_metadata:
  assumes "object_path_ok p" "\<forall>db. p \<noteq> DatabaseMetadata db"
  shows "strip_suffix ''/glassdb'' (object_path_display p) = None"
proof (rule ccontr)
  assume "strip_suffix ''/glassdb'' (object_path_display p) \<noteq> None"
  then obtain a where "strip_suffix ''/glassdb'' (object_path_display p) = Some a" by auto
  from strip_suffix_component[OF this] show False using last_component_display[OF assms] by simp
qed

lemma transaction_parse_five:
  assumes "CHR ''/'' \<notin> set m" "CHR ''/'' \<notin> set a" "CHR ''/'' \<notin> set b" "CHR ''/'' \<notin> set e"
    and s: "s = (((pre @ CHR ''/'' # m) @ CHR ''/'' # a) @ CHR ''/'' # b) @ CHR ''/'' # e"
  shows "transaction_parse_object s =
     (if m \<noteq> ''_t'' then None
      else if pre = [] then Some (Inl (ParseError s))
      else Some (bind_r (decode_parts s a b e) (\<lambda>i. map_r (\<lambda>p. Transaction p i) (db_prefix_try_from pre))))"
proof -
  have "rsplit_once ''/'' s = Some (((pre @ CHR ''/'' # m) @ CHR ''/'' # a) @ CHR ''/'' # b, e)"
    unfolding s by (rule rsplit_once_slash[OF assms(4)])
  then show ?thesis
    unfolding transaction_parse_object_def
    by (simp only: option.case prod.case rsplit_once_slash[OF assms(3)] rsplit_once_slash[OF assms(2)]
        rsplit_once_slash[OF assms(1)])
qed

lemma transaction_parse_four:
  assumes "CHR ''/'' \<notin> set x" "CHR ''/'' \<notin> set a" "CHR ''/'' \<notin> set b" "CHR ''/'' \<notin> set e"
    and s: "s = ((x @ CHR ''/'' # a) @ CHR ''/'' # b) @ CHR ''/'' # e"
  shows "transaction_parse_object s = None"
proof -
  have "rsplit_once ''/'' s = Some ((x @ CHR ''/'' # a) @ CHR ''/'' # b, e)"
    unfolding s by (rule rsplit_once_slash[OF assms(4)])
  then show ?thesis
    unfolding transaction_parse_object_def
    by (simp only: option.case prod.case rsplit_once_slash[OF assms(3)] rsplit_once_slash[OF assms(2)]
        rsplit_once_no_slash[OF assms(1)])
qed

lemma transaction_parse_complete:
  assumes "db_prefix_ok db" "id_ok (tx_bytes i)"
  shows "transaction_parse_object (object_path_display (Transaction db i)) = Some (Inr (Transaction db i))"
proof -
  let ?e = "encode (tx_bytes i)" and ?s = "object_path_display (Transaction db i)"
  have n: "CHR ''/'' \<notin> set (take 1 (take 2 ?e))" "CHR ''/'' \<notin> set (drop 1 (take 2 ?e))"
    using slash_not_encoded[of "tx_bytes i"] by (meson in_set_dropD in_set_takeD)+
  have s: "?s = (((db_str db @ CHR ''/'' # ''_t'') @ CHR ''/'' # take 1 (take 2 ?e))
      @ CHR ''/'' # drop 1 (take 2 ?e)) @ CHR ''/'' # ?e"
    by (simp add: write_transaction_def prefix_symbols_def Let_def)
  have "decode_parts ?s (take 1 (take 2 ?e)) (drop 1 (take 2 ?e)) ?e = Inr i"
    using assms by (simp add: decode_parts_def bind_r_ok_iff parse_ids prefix_symbols_def)
  moreover have "db_prefix_try_from (db_str db) = Inr db" "db_str db \<noteq> []"
    using assms by (auto simp: db_prefix_try_from_ok_iff db_prefix_ok_def)
  ultimately show ?thesis
    using transaction_parse_five[OF _ n slash_not_encoded s] by simp
qed

lemma transaction_parse_other:
  assumes "object_path_ok p" "\<forall>db. p \<noteq> DatabaseMetadata db" "\<forall>db i. p \<noteq> Transaction db i"
  shows "transaction_parse_object (object_path_display p) = None"
proof (cases p)
  case (CollectionRecord c)
  then show ?thesis using assms
    by (intro transaction_parse_four[of "db_str (ca_db_prefix c)" "''_c''" "encode (cid_bytes (ca_id c))" "''_i''"])
      (auto simp: collection_address_ok_def physical_prefix_def collection_prefix_def)
next
  case (TreeRoot c)
  then show ?thesis using assms
    by (intro transaction_parse_four[of "db_str (ca_db_prefix c)" "''_c''" "encode (cid_bytes (ca_id c))" "''_r''"])
      (auto simp: collection_address_ok_def physical_prefix_def collection_prefix_def)
next
  case (NodePath c i)
  then show ?thesis using assms
    by (subst transaction_parse_five[of "''_c''" "encode (cid_bytes (ca_id c))" "''_n''"
          "encode (nid_bytes i)" _ "db_str (ca_db_prefix c)"])
      (auto simp: collection_address_ok_def physical_prefix_def collection_prefix_def)
next
  case (StructuralIntentPath db q i)
  then show ?thesis using assms
    by (intro transaction_parse_four[of "db_str db" "''_s''" "encode (tx_bytes q)" "encode (sid_bytes i)"])
      (auto simp: write_intent_def)
qed (use assms in auto)

lemma structural_parse_complete:
  assumes "db_prefix_ok db" "id_ok (tx_bytes q)" "id_ok (sid_bytes i)"
  shows "structural_parse_object (object_path_display (StructuralIntentPath db q i))
    = Some (Inr (StructuralIntentPath db q i))"
proof -
  have "split_once ''/_s/'' (object_path_display (StructuralIntentPath db q i))
      = Some (db_str db, encode (tx_bytes q) @ ''/'' @ encode (sid_bytes i))"
    using split_once_complete[of "db_str db" "''_s/''"] assms by (simp add: write_intent_def)
  moreover have "split_once ''/'' (encode (tx_bytes q) @ ''/'' @ encode (sid_bytes i))
      = Some (encode (tx_bytes q), encode (sid_bytes i))"
    using split_once_complete[of "encode (tx_bytes q)" "[]"] by simp
  moreover have "db_str db \<noteq> []" "tx_bytes q \<noteq> []" "sid_bytes i \<noteq> []"
    using assms by (auto simp: db_prefix_ok_def)
  moreover have "db_prefix_try_from (db_str db) = Inr db" using assms by (simp add: db_prefix_try_from_ok_iff)
  moreover have "parse_id tx_id_try_from w (encode (tx_bytes q)) = Inr q"
    "parse_id structural_intent_id_try_from w (encode (sid_bytes i)) = Inr i" for w
    using assms by (simp_all add: parse_ids)
  ultimately show ?thesis
    by (simp add: structural_parse_object_def structural_parse_parts_def)
qed

lemma structural_parse_other:
  assumes "case p of CollectionRecord _ \<Rightarrow> True | TreeRoot _ \<Rightarrow> True | NodePath _ _ \<Rightarrow> True | _ \<Rightarrow> False"
    and "object_path_ok p"
  shows "structural_parse_object (object_path_display p) = None"
proof -
  have "''_s'' \<notin> set (split_slash (object_path_display p))"
    using assms unfolding split_slash_display[OF assms(2)]
    by (cases p) (auto simp: split_slash_physical_prefix collection_address_ok_def
        marker_not_id marker_not_db)
  then have "split_once ''/_s/'' (object_path_display p) = None"
    using split_once_component[of "''_s''" "object_path_display p"]
    by (cases "split_once ''/_s/'' (object_path_display p)") auto
  then show ?thesis by (simp add: structural_parse_object_def)
qed

lemma tree_parse_complete:
  assumes "case p of CollectionRecord _ \<Rightarrow> True | TreeRoot _ \<Rightarrow> True | NodePath _ _ \<Rightarrow> True | _ \<Rightarrow> False"
    and "object_path_ok p"
  shows "tree_parse_object (object_path_display p) = Some (Inr p)"
proof (cases "\<exists>c i. p = NodePath c i")
  case True
  then obtain c i where p: "p = NodePath c i" by auto
  moreover have "rsplit_once ''/_n/'' (object_path_display p) = Some (physical_prefix c, encode (nid_bytes i))"
    using rsplit_once_node[of "encode (nid_bytes i)" "physical_prefix c"] by (simp add: p)
  moreover have "parse_collection (physical_prefix c) = Inr c" "nid_bytes i \<noteq> []"
    "parse_id node_id_try_from ''node ID'' (encode (nid_bytes i)) = Inr i"
    using assms p by (auto simp: parse_collection_ok_iff parse_ids)
  ultimately show ?thesis by (simp add: tree_parse_object_def)
next
  case False
  then obtain c m where p: "p = CollectionRecord c \<and> m = ''_i'' \<or> p = TreeRoot c \<and> m = ''_r''"
    and c: "collection_address_ok c" using assms by (cases p) auto
  have "''_n'' \<notin> set (split_slash (object_path_display p))"
    using p c unfolding split_slash_display[OF assms(2)]
    by (auto simp: split_slash_physical_prefix collection_address_ok_def marker_not_id
        marker_not_db)
  then have n: "rsplit_once ''/_n/'' (object_path_display p) = None"
    using rsplit_once_component[of "''_n''" "object_path_display p"]
    by (cases "rsplit_once ''/_n/'' (object_path_display p)") auto
  have "parse_collection (physical_prefix c) = Inr c" using c by (simp add: parse_collection_ok_iff)
  moreover have "strip_suffix ''/_i'' (physical_prefix c @ ''/_r'') = None"
    by (simp add: strip_suffix_def suffix_def)
  moreover have "strip_suffix suf (a @ suf) = Some a" for suf a by (simp add: strip_suffix_sound)
  ultimately show ?thesis using p n by (auto simp: tree_parse_object_def)
qed

section \<open>Properties\<close>

text \<open>C25: a string parses as an object path exactly when it is the text of a valid path, and it
  parses to that path: one object has one name, and nothing else is accepted.\<close>

theorem object_path_parse_iff:
  "object_path_try_from s = Inr p \<longleftrightarrow> s = object_path_display p \<and> object_path_ok p"
proof
  assume r: "object_path_try_from s = Inr p"
  show "s = object_path_display p \<and> object_path_ok p"
  proof (cases "strip_suffix ''/glassdb'' s")
    case (Some db)
    then have "map_r DatabaseMetadata (db_prefix_try_from db) = Inr p" "s = db @ ''/glassdb''"
      using r by (simp add: object_path_try_from_def, simp add: strip_suffix_sound)
    then show ?thesis by (auto simp: map_r_ok_iff db_prefix_try_from_ok_iff)
  next
    case None
    then have "transaction_parse_object s = Some (Inr p) \<or> structural_parse_object s = Some (Inr p)
        \<or> tree_parse_object s = Some (Inr p)"
      using r by (auto simp: object_path_try_from_def split: option.splits)
    then show ?thesis using transaction_parse_sound structural_parse_sound tree_parse_sound by blast
  qed
next
  assume r: "s = object_path_display p \<and> object_path_ok p"
  show "object_path_try_from s = Inr p"
  proof (cases p)
    case (DatabaseMetadata db)
    then have "strip_suffix ''/glassdb'' s = Some (db_str db)" using r by (simp add: strip_suffix_sound)
    then show ?thesis using r DatabaseMetadata
      by (simp add: object_path_try_from_def map_r_ok_iff db_prefix_try_from_ok_iff)
  next
    case (Transaction db i)
    then show ?thesis using r not_metadata[of p] transaction_parse_complete[of db i]
      by (simp add: object_path_try_from_def)
  next
    case (StructuralIntentPath db q i)
    then show ?thesis
      using r not_metadata[of p] transaction_parse_other[of p] structural_parse_complete[of db q i]
      by (simp add: object_path_try_from_def)
  qed (use r not_metadata[of p] transaction_parse_other[of p] structural_parse_other[of p]
        tree_parse_complete[of p] in \<open>simp_all add: object_path_try_from_def\<close>)
qed

lemma decode_u12_pair:
  "x < 64 \<Longrightarrow> y < 64 \<Longrightarrow> decode_u12 [ALPHABET ! x, ALPHABET ! y] = Inr (x * 64 + y)"
  using unat_group4[of 0 0 x y] by simp

lemma encode_u12_pair: "x < 64 \<Longrightarrow> y < 64 \<Longrightarrow> encode_u12 (x * 64 + y) = Some [ALPHABET ! x, ALPHABET ! y]"
proof -
  assume b: "x < 64" "y < 64"
  then have "x * 64 + y < 2 ^ 12" "(x * 64 + y) div 64 = x" "(x * 64 + y) mod 64 = y" by simp_all
  then show ?thesis by (simp add: encode_u12_def)
qed

lemma prefix_symbols_encode:
  assumes "2 \<le> length bs"
  shows "\<exists>x y. x < 64 \<and> y < 64 \<and> prefix_symbols (encode bs) = [ALPHABET ! x, ALPHABET ! y]"
  using assms
proof (cases bs rule: encode.cases)
  case (3 a b)
  show ?thesis unfolding 3
    by (intro exI[of _ "unat a div 4"] exI[of _ "unat a mod 4 * 16 + unat b div 16"])
      (simp add: prefix_symbols_def encode_nat digit_bounds del: encode.simps)
next
  case (4 a b c rest)
  show ?thesis unfolding 4
    by (intro exI[of _ "unat a div 4"] exI[of _ "unat a mod 4 * 16 + unat b div 16"])
      (simp add: prefix_symbols_def encode_nat digit_bounds del: encode.simps)
qed auto

text \<open>C30: the record of a transaction lies under exactly one of the 4096 listing prefixes of its
  database, the one of its prefix index, so that listing them all finds every record once.\<close>

theorem transaction_under_one_prefix:
  assumes "id_ok (tx_bytes i)"
  shows "\<exists>n < 4096. transaction_prefix_index i = Some n
    \<and> (\<forall>m < 4096. (\<exists>q. index_prefix db m = Some q \<and> prefix q (write_transaction db i)) \<longleftrightarrow> m = n)"
proof -
  obtain x y where xy: "x < 64" "y < 64"
    and s: "prefix_symbols (encode (tx_bytes i)) = [ALPHABET ! x, ALPHABET ! y]"
    using prefix_symbols_encode[of "tx_bytes i"] assms by (auto simp: id_ok_def)
  have "(\<exists>q. index_prefix db m = Some q \<and> prefix q (write_transaction db i)) \<longleftrightarrow> m = x * 64 + y"
    if "m < 4096" for m
  proof -
    define x' y' where "x' = m div 64" and "y' = m mod 64"
    have m: "m = x' * 64 + y'" "x' < 64" "y' < 64" using that by (auto simp: x'_def y'_def)
    have "index_prefix db m = Some (db @ ''/_t/'' @ [ALPHABET ! x'] @ ''/'' @ [ALPHABET ! y'] @ ''/'')"
      using encode_u12_pair[OF m(2,3)] by (simp add: index_prefix_def m(1))
    moreover have "x' * 64 + y' = x * 64 + y \<longleftrightarrow> x' = x \<and> y' = y"
    proof
      assume e: "x' * 64 + y' = x * 64 + y"
      then have "(x' * 64 + y') mod 64 = (x * 64 + y) mod 64" by simp
      then have "y' = y" using m xy by simp
      then show "x' = x \<and> y' = y" using e by simp
    qed simp
    ultimately show ?thesis
      using m xy s by (simp add: write_transaction_def Let_def)
  qed
  moreover have "x * 64 + y < 4096" using xy by simp
  moreover have "transaction_prefix_index i = Some (x * 64 + y)"
    using decode_u12_pair[OF xy] by (simp add: transaction_prefix_index_def s)
  ultimately show ?thesis by blast
qed

theorem transaction_under_one_prefix_witness:
  "\<exists>n < 4096. transaction_prefix_index (TxId (replicate 16 3)) = Some n"
  using transaction_under_one_prefix[of "TxId (replicate 16 3)" "''db''"] by (auto simp: id_ok_def)

end
