(* ===== verification/CachedStore.thy ===== *)
theory CachedStore
  imports Timeline Backend Paths
begin

text \<open>
  The decoded object cache (\<^verbatim>\<open>glassdb-storage/src/cached_store.rs\<close> and its modules
  \<^verbatim>\<open>evidence.rs\<close>, \<^verbatim>\<open>knowledge.rs\<close>, \<^verbatim>\<open>mutation.rs\<close>, \<^verbatim>\<open>path_lane.rs\<close>).

  Evidence cells are shared and mutable: observations and cache entries hold the
  address of a cell, and the cells are a list in the store's state, so that advancing
  a cell is seen by all its holders. A backend operation has three parts, which other
  operations may come between: it begins (the starting knowledge is captured and the
  invocation point allocated), the backend answers, and it finishes (the answer is
  reconciled with the cache). The typed store's codec is an argument. A path has one
  decoded type, so the model has no failing downcast; the persistent tier is the one
  that is not configured.
\<close>

section \<open>Evidence\<close>

datatype evidence = Evidence (ev_cell: nat)

record object_key =
  ok_object :: object_path
  ok_encoded :: string

definition object_key_of :: "object_path \<Rightarrow> object_key" where
  "object_key_of p = \<lparr>ok_object = p, ok_encoded = object_path_display p\<rparr>"

definition object_key_parse :: "string \<Rightarrow> (PathError, object_key) result" where
  "object_key_parse encoded =
     map_r (\<lambda>p. \<lparr>ok_object = p, ok_encoded = encoded\<rparr>) (object_path_try_from encoded)"

record 'v observation =
  ob_key :: object_key
  ob_value :: "'v option"
  ob_revision :: "revision option"
  ob_evidence :: evidence

record 'v cas_receipt =
  cr_expected_revision :: "revision option"
  cr_installed :: "'v observation"
  cr_invoked :: sequence_point

datatype 'v cas_result = CasApplied "'v cas_receipt" | CasRejected

datatype 'v observation_check = CheckCurrent | CheckChanged "'v observation"

record 'v codec =
  cd_decode :: "object_path \<Rightarrow> bytes \<Rightarrow> (StorageError, 'v) result"
  cd_encode :: "object_path \<Rightarrow> 'v \<Rightarrow> (StorageError, bytes) result"
  cd_size :: "'v \<Rightarrow> nat"
  cd_accepts :: "object_path \<Rightarrow> bool"
  cd_name :: string

section \<open>State\<close>

datatype 'v entry_state =
    EntryPresent 'v nat revision evidence
  | EntryAbsent evidence

record 'v cached_store =
  cs_timeline :: timeline
  cs_cells :: "sequence_point list"
  cs_cache :: "string \<Rightarrow> 'v entry_state option"

definition cs_new :: "timeline \<Rightarrow> 'v cached_store" where
  "cs_new t = \<lparr>cs_timeline = t, cs_cells = [], cs_cache = Map.empty\<rparr>"

definition ev_new :: "sequence_point \<Rightarrow> 'v cached_store \<Rightarrow> evidence \<times> 'v cached_store" where
  "ev_new t s = (Evidence (length (cs_cells s)), s\<lparr>cs_cells := cs_cells s @ [t]\<rparr>)"

definition ev_get :: "'v cached_store \<Rightarrow> evidence \<Rightarrow> sequence_point" where
  "ev_get s e = cs_cells s ! ev_cell e"

definition ev_is_shared_with :: "evidence \<Rightarrow> evidence \<Rightarrow> bool" where
  "ev_is_shared_with e f \<longleftrightarrow> e = f"

text \<open>\<^verbatim>\<open>fetch_max\<close>: a watermark never regresses.\<close>

definition ev_advance :: "evidence \<Rightarrow> sequence_point \<Rightarrow> 'v cached_store \<Rightarrow> 'v cached_store" where
  "ev_advance e t s = s\<lparr>cs_cells := (cs_cells s)[ev_cell e := max (ev_get s e) t]\<rparr>"

definition is_current_after :: "'v cached_store \<Rightarrow> 'v observation \<Rightarrow> currentness_barrier \<Rightarrow> bool" where
  "is_current_after s ob b \<longleftrightarrow> is_reached_by b (ev_get s (ob_evidence ob))"

definition ob_satisfies :: "'v cached_store \<Rightarrow> 'v observation \<Rightarrow> requirement \<Rightarrow> bool" where
  "ob_satisfies s ob req \<longleftrightarrow> is_satisfied_by req (ev_get s (ob_evidence ob))"

definition same_state :: "'v observation \<Rightarrow> 'v observation \<Rightarrow> bool" where
  "same_state a b \<longleftrightarrow>
     ev_is_shared_with (ob_evidence a) (ob_evidence b)
     \<or> (case (ob_revision a, ob_revision b) of
          (Some mine, Some theirs) \<Rightarrow> ob_key a = ob_key b \<and> mine = theirs
        | _ \<Rightarrow> False)"

definition confirms_expected :: "'v cas_receipt \<Rightarrow> 'v observation \<Rightarrow> currentness_barrier \<Rightarrow> bool" where
  "confirms_expected r ob b \<longleftrightarrow>
     is_reached_by b (cr_invoked r) \<and> ob_key (cr_installed r) = ob_key ob
     \<and> cr_expected_revision r = ob_revision ob"

section \<open>Knowledge\<close>

record 'v fetch_result =
  fr_value :: "'v option"
  fr_revision :: "revision option"
  fr_evidence :: evidence

record 'v present_seed =
  ps_value :: 'v
  ps_size :: nat
  ps_revision :: revision
  ps_evidence :: evidence

datatype expected_predicate = ExpAbsent | ExpPresent revision

record expected =
  ex_predicate :: expected_predicate
  ex_observation :: "evidence option"
  ex_cached :: "evidence option"

definition kn_peek :: "'v cached_store \<Rightarrow> object_key \<Rightarrow> requirement \<Rightarrow> 'v observation option" where
  "kn_peek s key req =
     (case cs_cache s (ok_encoded key) of
        None \<Rightarrow> None
      | Some (EntryPresent v sz rv e) \<Rightarrow>
          if is_satisfied_by req (ev_get s e)
          then Some \<lparr>ob_key = key, ob_value = Some v, ob_revision = Some rv, ob_evidence = e\<rparr> else None
      | Some (EntryAbsent e) \<Rightarrow>
          if is_satisfied_by req (ev_get s e)
          then Some \<lparr>ob_key = key, ob_value = None, ob_revision = None, ob_evidence = e\<rparr> else None)"

definition kn_present_seed ::
    "'v codec \<Rightarrow> 'v cached_store \<Rightarrow> object_key \<Rightarrow> 'v observation option \<Rightarrow> 'v present_seed option" where
  "kn_present_seed cd s key fallback =
     (case cs_cache s (ok_encoded key) of
        Some (EntryPresent v sz rv e) \<Rightarrow>
          Some \<lparr>ps_value = v, ps_size = sz, ps_revision = rv, ps_evidence = e\<rparr>
      | _ \<Rightarrow>
          (case fallback of
             None \<Rightarrow> None
           | Some ob \<Rightarrow>
               (case (ob_value ob, ob_revision ob) of
                  (Some v, Some rv) \<Rightarrow>
                    Some \<lparr>ps_value = v, ps_size = cd_size cd v, ps_revision = rv, ps_evidence = ob_evidence ob\<rparr>
                | _ \<Rightarrow> None)))"

definition kn_result_from_observation :: "'v observation \<Rightarrow> 'v fetch_result" where
  "kn_result_from_observation ob =
     \<lparr>fr_value = ob_value ob, fr_revision = ob_revision ob, fr_evidence = ob_evidence ob\<rparr>"

definition kn_to_observation :: "object_key \<Rightarrow> 'v fetch_result \<Rightarrow> 'v observation" where
  "kn_to_observation key f =
     \<lparr>ob_key = key, ob_value = fr_value f, ob_revision = fr_revision f, ob_evidence = fr_evidence f\<rparr>"

text \<open>Installing merges evidence with an entry of the same revision, and replaces any other entry.\<close>

definition kn_install_present ::
    "string \<Rightarrow> 'v \<Rightarrow> nat \<Rightarrow> revision \<Rightarrow> evidence \<Rightarrow> 'v cached_store \<Rightarrow> evidence \<times> 'v cached_store" where
  "kn_install_present path v sz rv incoming s =
     (case cs_cache s path of
        Some (EntryPresent old_v old_sz old_rv e) \<Rightarrow>
          if old_rv = rv then (e, ev_advance e (ev_get s incoming) s)
          else (incoming, s\<lparr>cs_cache := (cs_cache s)(path \<mapsto> EntryPresent v sz rv incoming)\<rparr>)
      | _ \<Rightarrow> (incoming, s\<lparr>cs_cache := (cs_cache s)(path \<mapsto> EntryPresent v sz rv incoming)\<rparr>))"

definition kn_install_absent :: "string \<Rightarrow> sequence_point \<Rightarrow> 'v cached_store \<Rightarrow> evidence \<times> 'v cached_store" where
  "kn_install_absent path current_after s =
     (let (incoming, s) = ev_new current_after s in
      case cs_cache s path of
        Some (EntryAbsent e) \<Rightarrow> (e, ev_advance e current_after s)
      | _ \<Rightarrow> (incoming, s\<lparr>cs_cache := (cs_cache s)(path \<mapsto> EntryAbsent incoming)\<rparr>))"

definition kn_install_fetched ::
    "string \<Rightarrow> 'v \<Rightarrow> nat \<Rightarrow> revision \<Rightarrow> sequence_point \<Rightarrow> 'v cached_store \<Rightarrow> 'v fetch_result \<times> 'v cached_store" where
  "kn_install_fetched path v sz rv current_after s =
     (let (incoming, s) = ev_new current_after s;
          (e, s) = kn_install_present path v sz rv incoming s
      in (\<lparr>fr_value = Some v, fr_revision = Some rv, fr_evidence = e\<rparr>, s))"

definition kn_install_mutation ::
    "object_key \<Rightarrow> 'v \<Rightarrow> nat \<Rightarrow> revision \<Rightarrow> sequence_point \<Rightarrow> 'v cached_store \<Rightarrow> 'v observation \<times> 'v cached_store" where
  "kn_install_mutation key v sz rv current_after s =
     (let (incoming, s) = ev_new current_after s;
          (e, s) = kn_install_present (ok_encoded key) v sz rv incoming s
      in (\<lparr>ob_key = key, ob_value = Some v, ob_revision = Some rv, ob_evidence = e\<rparr>, s))"

definition kn_install_absent_result ::
    "string \<Rightarrow> sequence_point \<Rightarrow> 'v cached_store \<Rightarrow> 'v fetch_result \<times> 'v cached_store" where
  "kn_install_absent_result path current_after s =
     (let (e, s) = kn_install_absent path current_after s
      in (\<lparr>fr_value = None, fr_revision = None, fr_evidence = e\<rparr>, s))"

definition kn_install_absent_observation ::
    "object_key \<Rightarrow> sequence_point \<Rightarrow> 'v cached_store \<Rightarrow> 'v observation \<times> 'v cached_store" where
  "kn_install_absent_observation key current_after s =
     (let (e, s) = kn_install_absent (ok_encoded key) current_after s
      in (\<lparr>ob_key = key, ob_value = None, ob_revision = None, ob_evidence = e\<rparr>, s))"

definition kn_confirm_unchanged ::
    "string \<Rightarrow> 'v present_seed \<Rightarrow> sequence_point \<Rightarrow> 'v cached_store \<Rightarrow> 'v fetch_result \<times> 'v cached_store" where
  "kn_confirm_unchanged path seed current_after s =
     (let s = ev_advance (ps_evidence seed) current_after s;
          (e, s) = kn_install_present path (ps_value seed) (ps_size seed) (ps_revision seed) (ps_evidence seed) s
      in (\<lparr>fr_value = Some (ps_value seed), fr_revision = Some (ps_revision seed), fr_evidence = e\<rparr>, s))"

definition kn_expected_absent :: "'v observation option \<Rightarrow> expected" where
  "kn_expected_absent ob =
     \<lparr>ex_predicate = ExpAbsent, ex_observation = map_option ob_evidence ob, ex_cached = None\<rparr>"

definition kn_expected_present :: "revision \<Rightarrow> 'v observation \<Rightarrow> expected" where
  "kn_expected_present rv ob =
     \<lparr>ex_predicate = ExpPresent rv, ex_observation = Some (ob_evidence ob), ex_cached = None\<rparr>"

fun expected_matches :: "expected_predicate \<Rightarrow> 'v entry_state \<Rightarrow> bool" where
  "expected_matches ExpAbsent (EntryAbsent e) \<longleftrightarrow> True"
| "expected_matches (ExpPresent rv) (EntryPresent v sz current e) \<longleftrightarrow> rv = current"
| "expected_matches _ _ \<longleftrightarrow> False"

fun entry_evidence :: "'v entry_state \<Rightarrow> evidence" where
  "entry_evidence (EntryPresent v sz rv e) = e"
| "entry_evidence (EntryAbsent e) = e"

text \<open>A matching entry's cell is kept beside the observation's, unless they are the same cell.\<close>

definition expected_capture_cached :: "expected \<Rightarrow> evidence \<Rightarrow> expected" where
  "expected_capture_cached ex cached =
     (if ex_observation ex = Some cached \<or> ex_cached ex = Some cached then ex
      else ex\<lparr>ex_cached := Some cached\<rparr>)"

definition kn_capture_expected :: "string \<Rightarrow> expected \<Rightarrow> 'v cached_store \<Rightarrow> expected" where
  "kn_capture_expected path ex s =
     (case cs_cache s path of
        Some entry \<Rightarrow>
          if expected_matches (ex_predicate ex) entry then expected_capture_cached ex (entry_evidence entry) else ex
      | None \<Rightarrow> ex)"

definition advance_option :: "evidence option \<Rightarrow> sequence_point \<Rightarrow> 'v cached_store \<Rightarrow> 'v cached_store" where
  "advance_option e t s = (case e of None \<Rightarrow> s | Some e \<Rightarrow> ev_advance e t s)"

definition kn_advance_expected :: "expected \<Rightarrow> sequence_point \<Rightarrow> 'v cached_store \<Rightarrow> 'v cached_store" where
  "kn_advance_expected ex t s = advance_option (ex_cached ex) t (advance_option (ex_observation ex) t s)"

definition kn_invalidate :: "string \<Rightarrow> 'v cached_store \<Rightarrow> 'v cached_store" where
  "kn_invalidate path s = s\<lparr>cs_cache := (cs_cache s)(path := None)\<rparr>"

definition kn_invalidate_expected :: "string \<Rightarrow> expected \<Rightarrow> 'v cached_store \<Rightarrow> 'v cached_store" where
  "kn_invalidate_expected path ex s =
     (case cs_cache s path of
        Some entry \<Rightarrow> if expected_matches (ex_predicate ex) entry then kn_invalidate path s else s
      | None \<Rightarrow> s)"

section \<open>Mutation rounds\<close>

datatype 'a mutation_outcome =
    MoApplied 'a "sequence_point option"
  | MoRejected
  | MoDefiniteFailure StorageError
  | MoInDoubt StorageError

definition mo_failed :: "BackendError \<Rightarrow> 'a mutation_outcome" where
  "mo_failed error =
     (case error of
        BeUnavailable m \<Rightarrow> MoInDoubt (Unavailable m)
      | e \<Rightarrow> MoDefiniteFailure (storage_error_from_backend e))"

definition round_finish ::
    "string \<Rightarrow> expected \<Rightarrow> 'a mutation_outcome \<Rightarrow> ('a \<Rightarrow> 'v cached_store \<Rightarrow> 'r \<times> 'v cached_store) \<Rightarrow>
     'v cached_store \<Rightarrow> (StorageError, 'r option) result \<times> 'v cached_store" where
  "round_finish path ex outcome apply_success s =
     (case outcome of
        MoApplied v current_at \<Rightarrow>
          (let (r, s) = apply_success v s;
               s = (case current_at of None \<Rightarrow> s | Some t \<Rightarrow> kn_advance_expected ex t s)
           in (Inr (Some r), s))
      | MoRejected \<Rightarrow> (Inr None, kn_invalidate_expected path ex s)
      | MoDefiniteFailure e \<Rightarrow> (Inl e, s)
      | MoInDoubt e \<Rightarrow> (Inl e, kn_invalidate path s))"

text \<open>An armed round that is dropped leaves the path without knowledge.\<close>

definition round_drop :: "string \<Rightarrow> 'v cached_store \<Rightarrow> 'v cached_store" where
  "round_drop path s = kn_invalidate path s"

datatype 'v mutation =
    MutCreate 'v nat bytes
  | MutReplace 'v nat bytes revision
  | MutDelete revision

record 'v mutation_round =
  mr_key :: object_key
  mr_mutation :: "'v mutation"
  mr_expected :: expected
  mr_invoked :: sequence_point

definition next_invocation :: "nat \<Rightarrow> 'v cached_store \<Rightarrow> sequence_point \<times> 'v cached_store" where
  "next_invocation elapsed s =
     (let (p, t) = timeline_now elapsed (cs_timeline s) in (p, s\<lparr>cs_timeline := t\<rparr>))"

definition round_new ::
    "nat \<Rightarrow> object_key \<Rightarrow> 'v mutation \<Rightarrow> expected \<Rightarrow> 'v cached_store \<Rightarrow> 'v mutation_round \<times> 'v cached_store" where
  "round_new elapsed key mu ex s =
     (let ex = kn_capture_expected (ok_encoded key) ex s;
          (invoked, s) = next_invocation elapsed s
      in (\<lparr>mr_key = key, mr_mutation = mu, mr_expected = ex, mr_invoked = invoked\<rparr>, s))"

definition check_path :: "'v codec \<Rightarrow> object_key \<Rightarrow> (StorageError, unit) result" where
  "check_path cd key =
     (if cd_accepts cd (ok_object key) then Inr ()
      else Inl (OtherError (''path does not name a '' @ cd_name cd @ '' object'')))"

definition create_begin ::
    "'v codec \<Rightarrow> nat \<Rightarrow> object_key \<Rightarrow> 'v observation option \<Rightarrow> 'v \<Rightarrow> 'v cached_store \<Rightarrow>
     (StorageError, 'v mutation_round \<times> 'v cached_store) result" where
  "create_begin cd elapsed key expected_absence v s =
     bind_r (check_path cd key) (\<lambda>_.
       if (case expected_absence of None \<Rightarrow> False | Some ob \<Rightarrow> ob_value ob \<noteq> None \<or> ob_key ob \<noteq> key)
       then Inl (OtherError ''create requires an absence observation for the same path'')
       else bind_r (cd_encode cd (ok_object key) v) (\<lambda>bytes.
         Inr (round_new elapsed key (MutCreate v (cd_size cd v) bytes) (kn_expected_absent expected_absence) s)))"

definition replace_begin ::
    "'v codec \<Rightarrow> nat \<Rightarrow> 'v observation \<Rightarrow> 'v \<Rightarrow> 'v cached_store \<Rightarrow>
     (StorageError, 'v mutation_round \<times> 'v cached_store) result" where
  "replace_begin cd elapsed expected v s =
     bind_r (check_path cd (ob_key expected)) (\<lambda>_.
       case ob_revision expected of
         None \<Rightarrow> Inl (OtherError ''replace requires a present observation'')
       | Some rv \<Rightarrow>
           bind_r (cd_encode cd (ok_object (ob_key expected)) v) (\<lambda>bytes.
             Inr (round_new elapsed (ob_key expected) (MutReplace v (cd_size cd v) bytes rv)
                    (kn_expected_present rv expected) s)))"

definition delete_begin ::
    "'v codec \<Rightarrow> nat \<Rightarrow> 'v observation \<Rightarrow> 'v cached_store \<Rightarrow>
     (StorageError, 'v mutation_round \<times> 'v cached_store) result" where
  "delete_begin cd elapsed expected s =
     bind_r (check_path cd (ob_key expected)) (\<lambda>_.
       if ob_value expected = None then Inl (OtherError ''delete requires a present observation'')
       else case ob_revision expected of
         None \<Rightarrow> Inl (OtherError ''delete requires a present observation'')
       | Some rv \<Rightarrow>
           Inr (round_new elapsed (ob_key expected) (MutDelete rv) (kn_expected_present rv expected) s))"

definition create_finish ::
    "'v mutation_round \<Rightarrow> (BackendError, revision) result \<Rightarrow> 'v cached_store \<Rightarrow>
     (StorageError, 'v cas_result) result \<times> 'v cached_store" where
  "create_finish r reply s =
     (case mr_mutation r of
        MutCreate v sz bytes \<Rightarrow>
          (let outcome = (case reply of
                 Inr rv \<Rightarrow> MoApplied rv (Some (mr_invoked r))
               | Inl BePrecondition \<Rightarrow> MoRejected
               | Inl e \<Rightarrow> mo_failed e);
               (applied, s) = round_finish (ok_encoded (mr_key r)) (mr_expected r) outcome
                 (\<lambda>rv. kn_install_mutation (mr_key r) v sz rv (mr_invoked r)) s
           in (map_r (\<lambda>a. case a of
                 None \<Rightarrow> CasRejected
               | Some installed \<Rightarrow>
                   CasApplied \<lparr>cr_expected_revision = None, cr_installed = installed, cr_invoked = mr_invoked r\<rparr>)
               applied, s))
      | _ \<Rightarrow> (Inl (OtherError ''not a create''), s))"

definition replace_finish ::
    "'v mutation_round \<Rightarrow> (BackendError, revision) result \<Rightarrow> 'v cached_store \<Rightarrow>
     (StorageError, 'v cas_result) result \<times> 'v cached_store" where
  "replace_finish r reply s =
     (case mr_mutation r of
        MutReplace v sz bytes expected_revision \<Rightarrow>
          (let outcome = (case reply of
                 Inr rv \<Rightarrow> MoApplied (Some rv) (Some (mr_invoked r))
               | Inl BeNotFound \<Rightarrow> MoApplied None None
               | Inl BePrecondition \<Rightarrow> MoRejected
               | Inl e \<Rightarrow> mo_failed e);
               (completed, s) = round_finish (ok_encoded (mr_key r)) (mr_expected r) outcome
                 (\<lambda>installed s. case installed of
                    Some rv \<Rightarrow>
                      (let (ob, s) = kn_install_mutation (mr_key r) v sz rv (mr_invoked r) s
                       in (CasApplied \<lparr>cr_expected_revision = Some expected_revision, cr_installed = ob,
                             cr_invoked = mr_invoked r\<rparr>, s))
                  | None \<Rightarrow>
                      (let (ob, s) = kn_install_absent_observation (mr_key r) (mr_invoked r) s
                       in (CasRejected, s))) s
           in (map_r (\<lambda>a. case a of None \<Rightarrow> CasRejected | Some c \<Rightarrow> c) completed, s))
      | _ \<Rightarrow> (Inl (OtherError ''not a replace''), s))"

definition delete_finish ::
    "'v mutation_round \<Rightarrow> (BackendError, unit) result \<Rightarrow> 'v cached_store \<Rightarrow>
     (StorageError, 'v observation) result \<times> 'v cached_store" where
  "delete_finish r reply s =
     (let outcome = (case reply of
            Inr _ \<Rightarrow> MoApplied () (Some (mr_invoked r))
          | Inl BeNotFound \<Rightarrow> MoApplied () None
          | Inl BePrecondition \<Rightarrow> MoRejected
          | Inl e \<Rightarrow> mo_failed e);
          (completed, s) = round_finish (ok_encoded (mr_key r)) (mr_expected r) outcome
            (\<lambda>_. kn_install_absent_observation (mr_key r) (mr_invoked r)) s
      in (bind_r completed (\<lambda>a. case a of None \<Rightarrow> Inl Precondition | Some ob \<Rightarrow> Inr ob), s))"

section \<open>Reads\<close>

record 'v read_round =
  rd_key :: object_key
  rd_seed :: "'v present_seed option"
  rd_invoked :: sequence_point

text \<open>A read that leads: it is served by knowledge that became sufficient while it waited, or it begins
  a backend read, conditional when a present state is known.\<close>

datatype 'v read_admission =
    ReadDone "'v fetch_result"
  | ReadLead "'v read_round"

definition fetch_begin ::
    "'v codec \<Rightarrow> nat \<Rightarrow> object_key \<Rightarrow> requirement \<Rightarrow> 'v observation option \<Rightarrow> 'v cached_store \<Rightarrow>
     'v read_admission \<times> 'v cached_store" where
  "fetch_begin cd elapsed key req fallback s =
     (case fallback of
        Some ob \<Rightarrow>
          if is_satisfied_by req (ev_get s (ob_evidence ob)) then (ReadDone (kn_result_from_observation ob), s)
          else (case kn_peek s key req of
             Some hit \<Rightarrow> (ReadDone (kn_result_from_observation hit), s)
           | None \<Rightarrow>
               (let (invoked, s') = next_invocation elapsed s
                in (ReadLead \<lparr>rd_key = key, rd_seed = kn_present_seed cd s key fallback, rd_invoked = invoked\<rparr>, s')))
      | None \<Rightarrow>
          (case kn_peek s key req of
             Some hit \<Rightarrow> (ReadDone (kn_result_from_observation hit), s)
           | None \<Rightarrow>
               (let (invoked, s') = next_invocation elapsed s
                in (ReadLead \<lparr>rd_key = key, rd_seed = kn_present_seed cd s key None, rd_invoked = invoked\<rparr>, s'))))"

definition publish_present ::
    "'v codec \<Rightarrow> object_key \<Rightarrow> read_reply \<Rightarrow> sequence_point \<Rightarrow> 'v cached_store \<Rightarrow>
     (StorageError, 'v fetch_result) result \<times> 'v cached_store" where
  "publish_present cd key reply invoked s =
     (case cd_decode cd (ok_object key) (rr_contents reply) of
        Inl e \<Rightarrow> (Inl e, kn_invalidate (ok_encoded key) s)
      | Inr v \<Rightarrow> map_prod Inr id (kn_install_fetched (ok_encoded key) v (cd_size cd v) (rr_revision reply) invoked s))"

definition do_fetch ::
    "'v codec \<Rightarrow> 'v read_round \<Rightarrow> (BackendError, read_reply) result \<Rightarrow> 'v cached_store \<Rightarrow>
     (StorageError, 'v fetch_result) result \<times> 'v cached_store" where
  "do_fetch cd r reply s =
     (case reply of
        Inr reply \<Rightarrow> publish_present cd (rd_key r) reply (rd_invoked r) s
      | Inl BeNotFound \<Rightarrow>
          map_prod Inr id (kn_install_absent_result (ok_encoded (rd_key r)) (rd_invoked r) s)
      | Inl BePrecondition \<Rightarrow>
          (case rd_seed r of
             Some seed \<Rightarrow> map_prod Inr id (kn_confirm_unchanged (ok_encoded (rd_key r)) seed (rd_invoked r) s)
           | None \<Rightarrow> (Inl (storage_error_from_backend BePrecondition), s))
      | Inl e \<Rightarrow> (Inl (storage_error_from_backend e), s))"

text \<open>\<^verbatim>\<open>admit_read\<close>: a read joins a flight whose invocation already satisfies its requirement.\<close>

definition can_join :: "requirement \<Rightarrow> 'v read_round \<Rightarrow> bool" where
  "can_join req flight \<longleftrightarrow> is_satisfied_by req (rd_invoked flight)"

section \<open>Checking an observation\<close>

definition check_local ::
    "'v observation \<Rightarrow> requirement \<Rightarrow> 'v cached_store \<Rightarrow> 'v observation_check option \<times> 'v cached_store" where
  "check_local ob req s =
     (if is_satisfied_by req (ev_get s (ob_evidence ob)) then (Some CheckCurrent, s)
      else case kn_peek s (ob_key ob) req of
        Some current \<Rightarrow>
          if ob_revision current = ob_revision ob
          then (Some CheckCurrent, ev_advance (ob_evidence ob) (ev_get s (ob_evidence current)) s)
          else (Some (CheckChanged current), s)
      | None \<Rightarrow> (None, s))"

definition same_observed_state :: "'v observation \<Rightarrow> 'v observation \<Rightarrow> bool" where
  "same_observed_state a b \<longleftrightarrow> ob_key a = ob_key b \<and> ob_revision a = ob_revision b"

definition check_fetched :: "'v observation \<Rightarrow> 'v fetch_result \<Rightarrow> 'v cached_store \<Rightarrow> 'v observation_check \<times> 'v cached_store" where
  "check_fetched ob fetched s =
     (let current = kn_to_observation (ob_key ob) fetched in
      if same_observed_state ob current
      then let merged = max (ev_get s (ob_evidence ob)) (ev_get s (ob_evidence current));
               s = ev_advance (ob_evidence ob) merged s;
               s = ev_advance (ob_evidence current) merged s
           in (CheckCurrent, s)
      else (CheckChanged current, s))"

end
