(* ===== verification/CachedStore_Sound.thy ===== *)
theory CachedStore_Sound
  imports CachedStore
begin

text \<open>
  The currentness model of the cached store as a step relation. The operations of
  \<open>CachedStore\<close> begin, are answered and finish one at a time, in any order and with
  changes of other database instances between them. A history records the backend
  after every step, with the last sequence point allocated by then. It is what
  evidence is about: a watermark \<open>t\<close> on a state says that the state was current at
  some moment at which \<open>t\<close> had been allocated.

  The same-path lanes of \<^verbatim>\<open>path_lane.rs\<close> only restrict the order of steps, and the
  relation does not ask for them.
\<close>

section \<open>The backend's answers\<close>

text \<open>The contract of \<^verbatim>\<open>glassdb-backend/src/lib.rs\<close>: at one path a revision identifies the contents,
  as given by \<open>cont\<close>; a refused mutation changes nothing; an answer that is neither a refusal nor a
  success leaves the effect open, and an effect that comes later is a change by a peer.\<close>

type_synonym contents_of = "string \<Rightarrow> revision \<Rightarrow> bytes"
type_synonym history = "(nat \<times> store_view) list"

definition revisions_ok :: "contents_of \<Rightarrow> store_view \<Rightarrow> bool" where
  "revisions_ok cont V \<longleftrightarrow> (\<forall>p r. V p = Some r \<longrightarrow> rr_contents r = cont p (rr_revision r))"

definition no_answer :: "BackendError \<Rightarrow> bool" where
  "no_answer e \<longleftrightarrow> e \<noteq> BeNotFound \<and> e \<noteq> BePrecondition"

inductive read_answer :: "store_view \<Rightarrow> string \<Rightarrow> revision option \<Rightarrow> (BackendError, read_reply) result \<Rightarrow> bool"
  for V p where
  read_missing: "V p = None \<Longrightarrow> read_answer V p known (Inl BeNotFound)"
| read_plain: "V p = Some r \<Longrightarrow> known \<noteq> Some (rr_revision r) \<Longrightarrow> read_answer V p known (Inr r)"
| read_unmodified: "V p = Some r \<Longrightarrow> read_answer V p (Some (rr_revision r)) (Inl BePrecondition)"
| read_failed: "no_answer e \<Longrightarrow> read_answer V p known (Inl e)"

inductive create_answer ::
    "contents_of \<Rightarrow> store_view \<Rightarrow> string \<Rightarrow> bytes \<Rightarrow> (BackendError, revision) result \<Rightarrow> store_view \<Rightarrow> bool"
  for cont V p bytes where
  create_applied: "V p = None \<Longrightarrow> cont p rv = bytes \<Longrightarrow>
    create_answer cont V p bytes (Inr rv) (V(p \<mapsto> \<lparr>rr_contents = bytes, rr_revision = rv\<rparr>))"
| create_refused: "V p \<noteq> None \<Longrightarrow> create_answer cont V p bytes (Inl BePrecondition) V"
| create_failed: "no_answer e \<Longrightarrow> create_answer cont V p bytes (Inl e) V"

inductive write_answer ::
    "contents_of \<Rightarrow> store_view \<Rightarrow> string \<Rightarrow> bytes \<Rightarrow> revision \<Rightarrow> (BackendError, revision) result \<Rightarrow> store_view \<Rightarrow> bool"
  for cont V p bytes expected where
  write_applied: "V p = Some r \<Longrightarrow> rr_revision r = expected \<Longrightarrow> cont p rv = bytes \<Longrightarrow>
    write_answer cont V p bytes expected (Inr rv) (V(p \<mapsto> \<lparr>rr_contents = bytes, rr_revision = rv\<rparr>))"
| write_stale: "V p = Some r \<Longrightarrow> rr_revision r \<noteq> expected \<Longrightarrow>
    write_answer cont V p bytes expected (Inl BePrecondition) V"
| write_missing: "V p = None \<Longrightarrow> e \<in> {BeNotFound, BePrecondition} \<Longrightarrow>
    write_answer cont V p bytes expected (Inl e) V"
| write_failed: "no_answer e \<Longrightarrow> write_answer cont V p bytes expected (Inl e) V"

text \<open>A successful delete found the expected revision. A store may also report success for a missing
  object; \<open>lenient\<close> says whether it does.\<close>

inductive delete_answer ::
    "bool \<Rightarrow> store_view \<Rightarrow> string \<Rightarrow> revision \<Rightarrow> (BackendError, unit) result \<Rightarrow> store_view \<Rightarrow> bool"
  for lenient V p expected where
  delete_applied: "V p = Some r \<Longrightarrow> rr_revision r = expected \<Longrightarrow>
    delete_answer lenient V p expected (Inr ()) (V(p := None))"
| delete_stale: "V p = Some r \<Longrightarrow> rr_revision r \<noteq> expected \<Longrightarrow>
    delete_answer lenient V p expected (Inl BePrecondition) V"
| delete_missing: "V p = None \<Longrightarrow> delete_answer lenient V p expected (Inl BeNotFound) V"
| delete_missing_ok: "V p = None \<Longrightarrow> lenient \<Longrightarrow> delete_answer lenient V p expected (Inr ()) V"
| delete_failed: "no_answer e \<Longrightarrow> delete_answer lenient V p expected (Inl e) V"

section \<open>Steps\<close>

datatype 'v pending =
    PendingRead "'v read_round"
  | ReadReply "'v read_round" "(BackendError, read_reply) result"
  | PendingMutation "'v mutation_round"
  | CreateReply "'v mutation_round" "(BackendError, revision) result"
  | ReplaceReply "'v mutation_round" "(BackendError, revision) result"
  | DeleteReply "'v mutation_round" "(BackendError, unit) result"

record 'v system =
  sy_store :: "'v cached_store"
  sy_view :: store_view
  sy_history :: history
  sy_pending :: "'v pending set"
  sy_observed :: "'v observation set"
  sy_receipts :: "'v cas_receipt set"

definition key_ok :: "object_key \<Rightarrow> bool" where
  "key_ok key \<longleftrightarrow> ok_encoded key = object_path_display (ok_object key)"

definition moment :: "'v system \<Rightarrow> 'v system" where
  "moment y = y\<lparr>sy_history := sy_history y @ [(tl_last (cs_timeline (sy_store y)), sy_view y)]\<rparr>"

definition sys_init :: "timeline \<Rightarrow> store_view \<Rightarrow> 'v system" where
  "sys_init t V = moment
     \<lparr>sy_store = cs_new t, sy_view = V, sy_history = [], sy_pending = {}, sy_observed = {}, sy_receipts = {}\<rparr>"

definition receipts_of :: "(StorageError, 'v cas_result) result \<Rightarrow> 'v cas_receipt set" where
  "receipts_of res = {r. res = Inr (CasApplied r)}"

fun pending_round :: "'v pending \<Rightarrow> 'v mutation_round option" where
  "pending_round (PendingMutation r) = Some r"
| "pending_round (CreateReply r _) = Some r"
| "pending_round (ReplaceReply r _) = Some r"
| "pending_round (DeleteReply r _) = Some r"
| "pending_round _ = None"

fun changed_of :: "'v observation_check \<Rightarrow> 'v observation set" where
  "changed_of (CheckChanged ob) = {ob}"
| "changed_of CheckCurrent = {}"

definition settle :: "'v pending \<Rightarrow> 'v pending set \<Rightarrow> 'v cached_store \<Rightarrow> 'v observation set \<Rightarrow> 'v system \<Rightarrow> 'v system" where
  "settle p new st obs y =
     moment (y\<lparr>sy_store := st, sy_pending := sy_pending y - {p} \<union> new, sy_observed := sy_observed y \<union> obs\<rparr>)"

definition begin_op :: "'v pending set \<Rightarrow> 'v cached_store \<Rightarrow> 'v observation set \<Rightarrow> 'v system \<Rightarrow> 'v system" where
  "begin_op new st obs y =
     moment (y\<lparr>sy_store := st, sy_pending := sy_pending y \<union> new, sy_observed := sy_observed y \<union> obs\<rparr>)"

definition answer :: "'v pending \<Rightarrow> 'v pending \<Rightarrow> store_view \<Rightarrow> 'v system \<Rightarrow> 'v system" where
  "answer p q V y = moment (y\<lparr>sy_view := V, sy_pending := insert q (sy_pending y - {p})\<rparr>)"

inductive sys_step :: "'v codec \<Rightarrow> contents_of \<Rightarrow> bool \<Rightarrow> 'v system \<Rightarrow> 'v system \<Rightarrow> bool"
  for cd cont lenient y where
  peer: "revisions_ok cont V \<Longrightarrow> sys_step cd cont lenient y (moment (y\<lparr>sy_view := V\<rparr>))"
| tick: "next_invocation elapsed (sy_store y) = (p, st) \<Longrightarrow> sys_step cd cont lenient y (begin_op {} st {} y)"
| evict: "sys_step cd cont lenient y (begin_op {} (kn_invalidate path (sy_store y)) {} y)"
| hit: "key_ok key \<Longrightarrow> kn_peek (sy_store y) key req = Some ob \<Longrightarrow>
    sys_step cd cont lenient y (begin_op {} (sy_store y) {ob} y)"
| fetch_served: "key_ok key \<Longrightarrow> \<forall>ob. fallback = Some ob \<longrightarrow> ob \<in> sy_observed y \<and> ob_key ob = key \<Longrightarrow>
    fetch_begin cd elapsed key req fallback (sy_store y) = (ReadDone f, st) \<Longrightarrow>
    sys_step cd cont lenient y (begin_op {} st {kn_to_observation key f} y)"
| fetch_lead: "key_ok key \<Longrightarrow> \<forall>ob. fallback = Some ob \<longrightarrow> ob \<in> sy_observed y \<and> ob_key ob = key \<Longrightarrow>
    fetch_begin cd elapsed key req fallback (sy_store y) = (ReadLead r, st) \<Longrightarrow>
    sys_step cd cont lenient y (begin_op {PendingRead r} st {} y)"
| read_call: "PendingRead r \<in> sy_pending y \<Longrightarrow>
    read_answer (sy_view y) (ok_encoded (rd_key r)) (map_option ps_revision (rd_seed r)) reply \<Longrightarrow>
    sys_step cd cont lenient y (answer (PendingRead r) (ReadReply r reply) (sy_view y) y)"
| read_done: "ReadReply r reply \<in> sy_pending y \<Longrightarrow> do_fetch cd r reply (sy_store y) = (Inr f, st) \<Longrightarrow>
    sys_step cd cont lenient y (settle (ReadReply r reply) {} st {kn_to_observation (rd_key r) f} y)"
| read_error: "ReadReply r reply \<in> sy_pending y \<Longrightarrow> do_fetch cd r reply (sy_store y) = (Inl e, st) \<Longrightarrow>
    sys_step cd cont lenient y (settle (ReadReply r reply) {} st {} y)"
| check_hit: "ob \<in> sy_observed y \<Longrightarrow> check_local ob req (sy_store y) = (Some res, st) \<Longrightarrow>
    sys_step cd cont lenient y (begin_op {} st (changed_of res) y)"
| check_read: "ob \<in> sy_observed y \<Longrightarrow> kn_to_observation (ob_key ob) f \<in> sy_observed y \<Longrightarrow>
    check_fetched ob f (sy_store y) = (res, st) \<Longrightarrow>
    sys_step cd cont lenient y (begin_op {} st (changed_of res) y)"
| create_start: "key_ok key \<Longrightarrow> \<forall>ob. absence = Some ob \<longrightarrow> ob \<in> sy_observed y \<Longrightarrow>
    create_begin cd elapsed key absence v (sy_store y) = Inr (r, st) \<Longrightarrow>
    sys_step cd cont lenient y (begin_op {PendingMutation r} st {} y)"
| replace_start: "ob \<in> sy_observed y \<Longrightarrow> replace_begin cd elapsed ob v (sy_store y) = Inr (r, st) \<Longrightarrow>
    sys_step cd cont lenient y (begin_op {PendingMutation r} st {} y)"
| delete_start: "ob \<in> sy_observed y \<Longrightarrow> delete_begin cd elapsed ob (sy_store y) = Inr (r, st) \<Longrightarrow>
    sys_step cd cont lenient y (begin_op {PendingMutation r} st {} y)"
| create_call: "PendingMutation r \<in> sy_pending y \<Longrightarrow> mr_mutation r = MutCreate v sz bytes \<Longrightarrow>
    create_answer cont (sy_view y) (ok_encoded (mr_key r)) bytes reply V \<Longrightarrow>
    sys_step cd cont lenient y (answer (PendingMutation r) (CreateReply r reply) V y)"
| replace_call: "PendingMutation r \<in> sy_pending y \<Longrightarrow> mr_mutation r = MutReplace v sz bytes rv \<Longrightarrow>
    write_answer cont (sy_view y) (ok_encoded (mr_key r)) bytes rv reply V \<Longrightarrow>
    sys_step cd cont lenient y (answer (PendingMutation r) (ReplaceReply r reply) V y)"
| delete_call: "PendingMutation r \<in> sy_pending y \<Longrightarrow> mr_mutation r = MutDelete rv \<Longrightarrow>
    delete_answer lenient (sy_view y) (ok_encoded (mr_key r)) rv reply' V \<Longrightarrow>
    sys_step cd cont lenient y (answer (PendingMutation r) (DeleteReply r reply') V y)"
| create_done: "CreateReply r reply \<in> sy_pending y \<Longrightarrow> create_finish r reply (sy_store y) = (res, st) \<Longrightarrow>
    sys_step cd cont lenient y
      ((settle (CreateReply r reply) {} st {} y)\<lparr>sy_receipts := sy_receipts y \<union> receipts_of res\<rparr>)"
| replace_done: "ReplaceReply r reply \<in> sy_pending y \<Longrightarrow> replace_finish r reply (sy_store y) = (res, st) \<Longrightarrow>
    sys_step cd cont lenient y
      ((settle (ReplaceReply r reply) {} st {} y)\<lparr>sy_receipts := sy_receipts y \<union> receipts_of res\<rparr>)"
| delete_done: "DeleteReply r reply' \<in> sy_pending y \<Longrightarrow> delete_finish r reply' (sy_store y) = (res', st) \<Longrightarrow>
    sys_step cd cont lenient y (settle (DeleteReply r reply') {} st {ob. res' = Inr ob} y)"
| receipt_kept: "c \<in> sy_receipts y \<Longrightarrow> sys_step cd cont lenient y (begin_op {} (sy_store y) {cr_installed c} y)"
| dropped: "p \<in> sy_pending y \<Longrightarrow> pending_round p = Some r \<Longrightarrow>
    sys_step cd cont lenient y (settle p {} (round_drop (ok_encoded (mr_key r)) (sy_store y)) {} y)"

inductive sys_reach :: "'v codec \<Rightarrow> contents_of \<Rightarrow> bool \<Rightarrow> timeline \<Rightarrow> store_view \<Rightarrow> 'v system \<Rightarrow> bool"
  for cd cont lenient t V where
  reach_init: "sys_reach cd cont lenient t V (sys_init t V)"
| reach_step: "sys_reach cd cont lenient t V y \<Longrightarrow> sys_step cd cont lenient y y' \<Longrightarrow>
    sys_reach cd cont lenient t V y'"

section \<open>What evidence means\<close>

definition state_at :: "store_view \<Rightarrow> string \<Rightarrow> revision option" where
  "state_at V p = map_option rr_revision (V p)"

definition was_current :: "history \<Rightarrow> string \<Rightarrow> revision option \<Rightarrow> sequence_point \<Rightarrow> bool" where
  "was_current h p rv t \<longleftrightarrow> (\<exists>(n, V) \<in> set h. sp_raw t \<le> n \<and> state_at V p = rv)"

text \<open>A cached value is the decoded form of the contents, or the value that was encoded to them.\<close>

definition holds_value :: "'v codec \<Rightarrow> contents_of \<Rightarrow> string \<Rightarrow> 'v option \<Rightarrow> revision option \<Rightarrow> bool" where
  "holds_value cd cont p v rv =
     (case (v, rv) of
        (None, None) \<Rightarrow> True
      | (Some v, Some rv) \<Rightarrow>
          (\<exists>path. object_path_display path = p
             \<and> (cd_decode cd path (cont p rv) = Inr v \<or> cd_encode cd path v = Inr (cont p rv)))
      | _ \<Rightarrow> False)"

text \<open>\<open>own\<close> names, for every evidence cell, the state it is about.\<close>

type_synonym owners = "(string \<times> revision option) list"

definition cell_is :: "owners \<Rightarrow> evidence \<Rightarrow> string \<Rightarrow> revision option \<Rightarrow> bool" where
  "cell_is own e p rv \<longleftrightarrow> ev_cell e < length own \<and> own ! ev_cell e = (p, rv)"

fun entry_revision :: "'v entry_state \<Rightarrow> revision option" where
  "entry_revision (EntryPresent v sz rv e) = Some rv"
| "entry_revision (EntryAbsent e) = None"

fun entry_value :: "'v entry_state \<Rightarrow> 'v option" where
  "entry_value (EntryPresent v sz rv e) = Some v"
| "entry_value (EntryAbsent e) = None"

definition store_ok :: "'v codec \<Rightarrow> contents_of \<Rightarrow> history \<Rightarrow> owners \<Rightarrow> 'v cached_store \<Rightarrow> bool" where
  "store_ok cd cont h own s \<longleftrightarrow>
     length own = length (cs_cells s)
     \<and> (\<forall>i < length own. was_current h (fst (own ! i)) (snd (own ! i)) (cs_cells s ! i))
     \<and> (\<forall>p entry. cs_cache s p = Some entry \<longrightarrow>
          cell_is own (entry_evidence entry) p (entry_revision entry)
          \<and> holds_value cd cont p (entry_value entry) (entry_revision entry))"

definition obs_ok :: "'v codec \<Rightarrow> contents_of \<Rightarrow> owners \<Rightarrow> 'v observation \<Rightarrow> bool" where
  "obs_ok cd cont own ob \<longleftrightarrow>
     key_ok (ob_key ob) \<and> cell_is own (ob_evidence ob) (ok_encoded (ob_key ob)) (ob_revision ob)
     \<and> holds_value cd cont (ok_encoded (ob_key ob)) (ob_value ob) (ob_revision ob)"

lemma was_current_mono: "was_current h p rv t \<Longrightarrow> set h \<subseteq> set h' \<Longrightarrow> was_current h' p rv t"
  unfolding was_current_def by blast

lemma was_current_max: "was_current h p rv a \<Longrightarrow> was_current h p rv b \<Longrightarrow> was_current h p rv (max a b)"
  by (auto simp: max_def)

lemma was_current_le: "was_current h p rv b \<Longrightarrow> a \<le> b \<Longrightarrow> was_current h p rv a"
proof -
  assume "was_current h p rv b" "a \<le> b"
  then obtain n V where "(n, V) \<in> set h" "sp_raw b \<le> n" "state_at V p = rv" "sp_raw a \<le> sp_raw b"
    by (auto simp: was_current_def less_eq_sequence_point_def)
  then show ?thesis by (auto simp: was_current_def intro!: bexI[of _ "(n, V)"])
qed

lemma cell_is_append [simp]: "cell_is own e p rv \<Longrightarrow> cell_is (own @ x) e p rv"
  by (auto simp: cell_is_def nth_append)

lemma cell_is_new [simp]: "cell_is (own @ [(p, rv)]) (Evidence (length own)) p rv"
  by (simp add: cell_is_def)

lemma obs_ok_append [simp]: "obs_ok cd cont own ob \<Longrightarrow> obs_ok cd cont (own @ x) ob"
  by (simp add: obs_ok_def)

lemma store_ok_mono: "store_ok cd cont h own s \<Longrightarrow> set h \<subseteq> set h' \<Longrightarrow> store_ok cd cont h' own s"
  unfolding store_ok_def using was_current_mono by blast

lemma ev_get_current:
  "store_ok cd cont h own s \<Longrightarrow> cell_is own e p rv \<Longrightarrow> was_current h p rv (ev_get s e)"
  unfolding store_ok_def cell_is_def ev_get_def by fastforce

lemma store_ok_entry:
  assumes "store_ok cd cont h own s" "cs_cache s p = Some entry"
  shows "cell_is own (entry_evidence entry) p (entry_revision entry)"
    and "holds_value cd cont p (entry_value entry) (entry_revision entry)"
  using assms unfolding store_ok_def by blast+

section \<open>Store operations keep the evidence sound\<close>

lemma store_ok_cells:
  assumes "store_ok cd cont h own s" "length cells = length (cs_cells s)"
    and "\<And>i. i < length own \<Longrightarrow> was_current h (fst (own ! i)) (snd (own ! i)) (cells ! i)"
  shows "store_ok cd cont h own (s\<lparr>cs_cells := cells\<rparr>)"
  using assms by (auto simp: store_ok_def)

lemma ev_advance_ok:
  assumes s: "store_ok cd cont h own s" and e: "cell_is own e p rv" and t: "was_current h p rv t"
  shows "store_ok cd cont h own (ev_advance e t s)"
  unfolding ev_advance_def
proof (rule store_ok_cells[OF s])
  fix i assume i: "i < length own"
  show "was_current h (fst (own ! i)) (snd (own ! i)) ((cs_cells s)[ev_cell e := max (ev_get s e) t] ! i)"
  proof (cases "i = ev_cell e")
    case True
    then show ?thesis
      using e t s i was_current_max[OF ev_get_current[OF s e] t] by (simp add: cell_is_def store_ok_def)
  next
    case False
    then show ?thesis using s i by (simp add: store_ok_def)
  qed
qed simp

lemma ev_advance_cache [simp]: "cs_cache (ev_advance e t s) = cs_cache s"
  by (simp add: ev_advance_def)

lemma ev_new_ok:
  assumes s: "store_ok cd cont h own s" and t: "was_current h p rv t" and new: "ev_new t s = (e, s')"
  shows "store_ok cd cont h (own @ [(p, rv)]) s'" "cell_is (own @ [(p, rv)]) e p rv" "cs_cache s' = cs_cache s"
proof -
  have len: "length own = length (cs_cells s)" using s by (simp add: store_ok_def)
  have e: "e = Evidence (length own)" "s' = s\<lparr>cs_cells := cs_cells s @ [t]\<rparr>"
    using new len by (auto simp: ev_new_def)
  show "cell_is (own @ [(p, rv)]) e p rv" "cs_cache s' = cs_cache s" using e by simp_all
  show "store_ok cd cont h (own @ [(p, rv)]) s'"
    using s t e by (auto simp: store_ok_def nth_append less_Suc_eq)
qed

lemma cache_set_ok:
  assumes "store_ok cd cont h own s" "cell_is own (entry_evidence entry) p (entry_revision entry)"
    and "holds_value cd cont p (entry_value entry) (entry_revision entry)"
  shows "store_ok cd cont h own (s\<lparr>cs_cache := (cs_cache s)(p \<mapsto> entry)\<rparr>)"
  using assms by (simp add: store_ok_def)

lemma kn_invalidate_ok: "store_ok cd cont h own s \<Longrightarrow> store_ok cd cont h own (kn_invalidate p s)"
  by (auto simp: store_ok_def kn_invalidate_def)

lemma kn_install_present_ok:
  assumes s: "store_ok cd cont h own s" and e: "cell_is own incoming p (Some rv)"
    and v: "holds_value cd cont p (Some v) (Some rv)"
    and inst: "kn_install_present p v sz rv incoming s = (e', s')"
  shows "store_ok cd cont h own s' \<and> cell_is own e' p (Some rv)"
proof (cases "\<exists>ov osz oe. cs_cache s p = Some (EntryPresent ov osz rv oe)")
  case True
  then obtain ov osz oe where c: "cs_cache s p = Some (EntryPresent ov osz rv oe)" by blast
  then have "e' = oe" "s' = ev_advance oe (ev_get s incoming) s" using inst by (auto simp: kn_install_present_def)
  then show ?thesis
    using store_ok_entry(1)[OF s c] ev_advance_ok[OF s _ ev_get_current[OF s e]] by simp
next
  case False
  then have "e' = incoming" "s' = s\<lparr>cs_cache := (cs_cache s)(p \<mapsto> EntryPresent v sz rv incoming)\<rparr>"
    using inst by (auto simp: kn_install_present_def split: option.splits entry_state.splits if_splits)
  then show ?thesis using cache_set_ok[OF s, of "EntryPresent v sz rv incoming" p] e v by simp
qed

lemma kn_install_absent_ok:
  assumes s: "store_ok cd cont h own s" and t: "was_current h p None t"
    and inst: "kn_install_absent p t s = (e', s')"
  shows "\<exists>x. store_ok cd cont h (own @ x) s' \<and> cell_is (own @ x) e' p None"
proof -
  obtain inc s1 where new: "ev_new t s = (inc, s1)" by fastforce
  note s1 = ev_new_ok[OF s t new]
  show ?thesis
  proof (cases "\<exists>e. cs_cache s p = Some (EntryAbsent e)")
    case True
    then obtain e where c: "cs_cache s1 p = Some (EntryAbsent e)" using s1(3) by auto
    then have "e' = e" "s' = ev_advance e t s1" using inst new by (auto simp: kn_install_absent_def)
    moreover have "cell_is (own @ [(p, None)]) e p None" using store_ok_entry(1)[OF s1(1) c] by simp
    ultimately show ?thesis using ev_advance_ok[OF s1(1) _ t] by blast
  next
    case False
    then have "e' = inc" "s' = s1\<lparr>cs_cache := (cs_cache s1)(p \<mapsto> EntryAbsent inc)\<rparr>"
      using inst new s1(3) by (auto simp: kn_install_absent_def split: option.splits entry_state.splits)
    then show ?thesis
      using cache_set_ok[OF s1(1), of "EntryAbsent inc" p] s1(2) by (auto simp: holds_value_def)
  qed
qed


lemma kn_install_fetched_ok:
  assumes s: "store_ok cd cont h own s" and t: "was_current h p (Some rv) t"
    and v: "holds_value cd cont p (Some v) (Some rv)"
    and inst: "kn_install_fetched p v sz rv t s = (f, s')"
  shows "\<exists>x. store_ok cd cont h (own @ x) s' \<and> cell_is (own @ x) (fr_evidence f) p (Some rv)
    \<and> fr_value f = Some v \<and> fr_revision f = Some rv"
proof -
  obtain inc s1 where new: "ev_new t s = (inc, s1)" by fastforce
  obtain e s2 where ins: "kn_install_present p v sz rv inc s1 = (e, s2)" by fastforce
  have "f = \<lparr>fr_value = Some v, fr_revision = Some rv, fr_evidence = e\<rparr>" "s' = s2"
    using inst new ins by (auto simp: kn_install_fetched_def)
  then show ?thesis
    using kn_install_present_ok[OF ev_new_ok(1,2)[OF s t new] v ins] by auto
qed

lemma kn_install_mutation_ok:
  assumes s: "store_ok cd cont h own s" and t: "was_current h (ok_encoded key) (Some rv) t"
    and v: "holds_value cd cont (ok_encoded key) (Some v) (Some rv)" and key: "key_ok key"
    and inst: "kn_install_mutation key v sz rv t s = (ob, s')"
  shows "\<exists>x. store_ok cd cont h (own @ x) s' \<and> obs_ok cd cont (own @ x) ob
    \<and> ob_key ob = key \<and> ob_revision ob = Some rv"
proof -
  obtain inc s1 where new: "ev_new t s = (inc, s1)" by fastforce
  obtain e s2 where ins: "kn_install_present (ok_encoded key) v sz rv inc s1 = (e, s2)" by fastforce
  have "ob = \<lparr>ob_key = key, ob_value = Some v, ob_revision = Some rv, ob_evidence = e\<rparr>" "s' = s2"
    using inst new ins by (auto simp: kn_install_mutation_def)
  then show ?thesis
    using kn_install_present_ok[OF ev_new_ok(1,2)[OF s t new] v ins] key v by (auto simp: obs_ok_def)
qed

lemma kn_install_absent_observation_ok:
  assumes s: "store_ok cd cont h own s" and t: "was_current h (ok_encoded key) None t" and key: "key_ok key"
    and inst: "kn_install_absent_observation key t s = (ob, s')"
  shows "\<exists>x. store_ok cd cont h (own @ x) s' \<and> obs_ok cd cont (own @ x) ob"
proof -
  obtain e s1 where ins: "kn_install_absent (ok_encoded key) t s = (e, s1)" by fastforce
  then have "ob = \<lparr>ob_key = key, ob_value = None, ob_revision = None, ob_evidence = e\<rparr>" "s' = s1"
    using inst by (auto simp: kn_install_absent_observation_def)
  then show ?thesis using kn_install_absent_ok[OF s t ins] key by (auto simp: obs_ok_def holds_value_def)
qed

definition seed_ok :: "'v codec \<Rightarrow> contents_of \<Rightarrow> owners \<Rightarrow> string \<Rightarrow> 'v present_seed \<Rightarrow> bool" where
  "seed_ok cd cont own p seed \<longleftrightarrow>
     cell_is own (ps_evidence seed) p (Some (ps_revision seed))
     \<and> holds_value cd cont p (Some (ps_value seed)) (Some (ps_revision seed))"

lemma seed_ok_append [simp]: "seed_ok cd cont own p seed \<Longrightarrow> seed_ok cd cont (own @ x) p seed"
  by (simp add: seed_ok_def)

lemma kn_confirm_unchanged_ok:
  assumes s: "store_ok cd cont h own s" and seed: "seed_ok cd cont own p seed"
    and t: "was_current h p (Some (ps_revision seed)) t"
    and conf: "kn_confirm_unchanged p seed t s = (f, s')"
  shows "store_ok cd cont h own s' \<and> cell_is own (fr_evidence f) p (Some (ps_revision seed))
    \<and> fr_value f = Some (ps_value seed) \<and> fr_revision f = Some (ps_revision seed)"
proof -
  have e: "cell_is own (ps_evidence seed) p (Some (ps_revision seed))" using seed by (simp add: seed_ok_def)
  obtain e' s2 where ins: "kn_install_present p (ps_value seed) (ps_size seed) (ps_revision seed) (ps_evidence seed)
      (ev_advance (ps_evidence seed) t s) = (e', s2)" by fastforce
  have "f = \<lparr>fr_value = Some (ps_value seed), fr_revision = Some (ps_revision seed), fr_evidence = e'\<rparr>" "s' = s2"
    using conf ins by (auto simp: kn_confirm_unchanged_def Let_def)
  then show ?thesis
    using kn_install_present_ok[OF ev_advance_ok[OF s e t] e _ ins] seed by (simp add: seed_ok_def)
qed

lemma kn_peek_ok:
  assumes "store_ok cd cont h own s" "key_ok key" "kn_peek s key req = Some ob"
  shows "obs_ok cd cont own ob \<and> ob_key ob = key \<and> ob_satisfies s ob req"
proof -
  obtain entry where c: "cs_cache s (ok_encoded key) = Some entry"
    using assms(3) by (auto simp: kn_peek_def split: option.splits)
  then show ?thesis
    using assms store_ok_entry[OF assms(1) c]
    by (cases entry) (auto simp: kn_peek_def obs_ok_def ob_satisfies_def split: if_splits)
qed

lemma kn_present_seed_ok:
  assumes s: "store_ok cd cont h own s" and fb: "\<And>ob. fallback = Some ob \<Longrightarrow> obs_ok cd cont own ob \<and> ob_key ob = key"
    and seed: "kn_present_seed cd s key fallback = Some seed"
  shows "seed_ok cd cont own (ok_encoded key) seed"
proof (cases "\<exists>v sz rv e. cs_cache s (ok_encoded key) = Some (EntryPresent v sz rv e)")
  case True
  then obtain v sz rv e where c: "cs_cache s (ok_encoded key) = Some (EntryPresent v sz rv e)" by blast
  then show ?thesis using seed store_ok_entry[OF s c] by (auto simp: kn_present_seed_def seed_ok_def)
next
  case False
  then obtain ob v rv where "fallback = Some ob" "ob_value ob = Some v" "ob_revision ob = Some rv"
    "seed = \<lparr>ps_value = v, ps_size = cd_size cd v, ps_revision = rv, ps_evidence = ob_evidence ob\<rparr>"
    using seed by (auto simp: kn_present_seed_def split: option.splits entry_state.splits)
  then show ?thesis using fb by (auto simp: obs_ok_def seed_ok_def)
qed


section \<open>Rounds\<close>

fun predicate_state :: "expected_predicate \<Rightarrow> revision option" where
  "predicate_state ExpAbsent = None"
| "predicate_state (ExpPresent rv) = Some rv"

definition expected_ok :: "owners \<Rightarrow> string \<Rightarrow> expected \<Rightarrow> bool" where
  "expected_ok own p ex \<longleftrightarrow>
     (\<forall>e. ex_observation ex = Some e \<or> ex_cached ex = Some e \<longrightarrow> cell_is own e p (predicate_state (ex_predicate ex)))"

lemma expected_ok_append [simp]: "expected_ok own p ex \<Longrightarrow> expected_ok (own @ x) p ex"
  by (auto simp: expected_ok_def)

lemma expected_matches_state: "expected_matches pred entry \<Longrightarrow> predicate_state pred = entry_revision entry"
  by (cases "(pred, entry)" rule: expected_matches.cases) auto

lemma kn_capture_expected_ok:
  assumes "store_ok cd cont h own s" "expected_ok own p ex"
  shows "expected_ok own p (kn_capture_expected p ex s)"
    and "ex_predicate (kn_capture_expected p ex s) = ex_predicate ex"
  using assms store_ok_entry(1)[OF assms(1), of p]
  by (auto simp: kn_capture_expected_def expected_capture_cached_def expected_ok_def dest!: expected_matches_state
      split: option.splits)

lemma kn_advance_expected_ok:
  assumes s: "store_ok cd cont h own s" and ex: "expected_ok own p ex"
    and t: "was_current h p (predicate_state (ex_predicate ex)) t"
  shows "store_ok cd cont h own (kn_advance_expected ex t s)"
proof -
  have adv: "store_ok cd cont h own (advance_option eo t s')"
    if "store_ok cd cont h own s'" "\<And>e. eo = Some e \<Longrightarrow> cell_is own e p (predicate_state (ex_predicate ex))" for eo s'
    using that ev_advance_ok[OF that(1) _ t] by (cases eo) (auto simp: advance_option_def)
  show ?thesis unfolding kn_advance_expected_def using s ex by (intro adv) (auto simp: expected_ok_def)
qed

lemma kn_invalidate_expected_ok:
  "store_ok cd cont h own s \<Longrightarrow> store_ok cd cont h own (kn_invalidate_expected p ex s)"
  by (auto simp: kn_invalidate_expected_def intro: kn_invalidate_ok split: option.split)

text \<open>Reconciliation: it is enough that what it installs is sound, and that an advance of the expected
  state is backed by the history.\<close>

lemma round_finish_ok:
  assumes s: "store_ok cd cont h own s" and ex: "expected_ok own p ex"
    and fin: "round_finish p ex outcome apply s = (res, s')"
    and applied: "\<And>v ct r s1. outcome = MoApplied v ct \<Longrightarrow> apply v s = (r, s1) \<Longrightarrow>
        \<exists>x. store_ok cd cont h (own @ x) s1 \<and> Q (own @ x) r"
    and advance: "\<And>v t. outcome = MoApplied v (Some t) \<Longrightarrow> was_current h p (predicate_state (ex_predicate ex)) t"
  shows "\<exists>x. store_ok cd cont h (own @ x) s' \<and> (\<forall>r. res = Inr (Some r) \<longrightarrow> Q (own @ x) r)"
proof (cases outcome)
  case (MoApplied v ct)
  obtain r s1 where ap: "apply v s = (r, s1)" by fastforce
  obtain x where x: "store_ok cd cont h (own @ x) s1" "Q (own @ x) r" using applied[OF MoApplied ap] by blast
  have "store_ok cd cont h (own @ x) (case ct of None \<Rightarrow> s1 | Some t \<Rightarrow> kn_advance_expected ex t s1)"
    using x(1) advance MoApplied ex kn_advance_expected_ok[OF x(1), of p ex] by (auto split: option.split)
  then show ?thesis using fin MoApplied ap x(2) by (auto simp: round_finish_def Let_def)
next
  case MoRejected
  then show ?thesis
    using fin kn_invalidate_expected_ok[OF s] by (intro exI[of _ "[]"]) (auto simp: round_finish_def)
next
  case (MoDefiniteFailure e)
  then show ?thesis using fin s by (intro exI[of _ "[]"]) (auto simp: round_finish_def)
next
  case (MoInDoubt e)
  then show ?thesis using fin kn_invalidate_ok[OF s] by (intro exI[of _ "[]"]) (auto simp: round_finish_def)
qed

fun mutation_ok :: "'v codec \<Rightarrow> object_path \<Rightarrow> 'v mutation \<Rightarrow> expected_predicate \<Rightarrow> bool" where
  "mutation_ok cd path (MutCreate v sz bytes) pred \<longleftrightarrow> pred = ExpAbsent \<and> cd_encode cd path v = Inr bytes"
| "mutation_ok cd path (MutReplace v sz bytes rv) pred \<longleftrightarrow> pred = ExpPresent rv \<and> cd_encode cd path v = Inr bytes"
| "mutation_ok cd path (MutDelete rv) pred \<longleftrightarrow> pred = ExpPresent rv"

definition round_ok :: "'v codec \<Rightarrow> nat \<Rightarrow> owners \<Rightarrow> 'v mutation_round \<Rightarrow> bool" where
  "round_ok cd now own r \<longleftrightarrow>
     key_ok (mr_key r) \<and> expected_ok own (ok_encoded (mr_key r)) (mr_expected r) \<and> sp_raw (mr_invoked r) \<le> now
     \<and> mutation_ok cd (ok_object (mr_key r)) (mr_mutation r) (ex_predicate (mr_expected r))"

definition read_round_ok :: "'v codec \<Rightarrow> contents_of \<Rightarrow> nat \<Rightarrow> owners \<Rightarrow> 'v read_round \<Rightarrow> bool" where
  "read_round_ok cd cont now own r \<longleftrightarrow>
     key_ok (rd_key r) \<and> sp_raw (rd_invoked r) \<le> now
     \<and> (\<forall>seed. rd_seed r = Some seed \<longrightarrow> seed_ok cd cont own (ok_encoded (rd_key r)) seed)"

lemma round_ok_mono: "round_ok cd now own r \<Longrightarrow> now \<le> now' \<Longrightarrow> round_ok cd now' (own @ x) r"
  by (simp add: round_ok_def)

lemma read_round_ok_mono: "read_round_ok cd cont now own r \<Longrightarrow> now \<le> now' \<Longrightarrow> read_round_ok cd cont now' (own @ x) r"
  by (simp add: read_round_ok_def)

lemma encoded_holds_value:
  "key_ok key \<Longrightarrow> cd_encode cd (ok_object key) v = Inr (cont (ok_encoded key) rv) \<Longrightarrow>
   holds_value cd cont (ok_encoded key) (Some v) (Some rv)"
  by (auto simp: holds_value_def key_ok_def)

lemma next_invocation_facts:
  assumes "next_invocation elapsed s = (p, s')"
  shows "cs_cells s' = cs_cells s" "cs_cache s' = cs_cache s" "sp_raw p = tl_last (cs_timeline s')"
    and "tl_last (cs_timeline s) \<le> U64_MAX \<Longrightarrow> tl_last (cs_timeline s) \<le> tl_last (cs_timeline s')"
    and "tl_last (cs_timeline s) < U64_MAX \<Longrightarrow> tl_last (cs_timeline s) < tl_last (cs_timeline s')"
    and "tl_last (cs_timeline s') \<le> U64_MAX"
  using assms
  by (auto simp: next_invocation_def timeline_now_eq Let_def saturating_add_def)

lemma store_ok_timeline:
  "cs_cells s' = cs_cells s \<Longrightarrow> cs_cache s' = cs_cache s \<Longrightarrow> store_ok cd cont h own s \<Longrightarrow> store_ok cd cont h own s'"
  by (simp add: store_ok_def)

lemma round_new_ok:
  assumes s: "store_ok cd cont h own s" and ex: "expected_ok own (ok_encoded key) ex" and key: "key_ok key"
    and mu: "mutation_ok cd (ok_object key) mu (ex_predicate ex)" and new: "round_new elapsed key mu ex s = (r, s')"
  shows "store_ok cd cont h own s' \<and> round_ok cd (tl_last (cs_timeline s')) own r"
proof -
  obtain p s1 where ni: "next_invocation elapsed s = (p, s1)" by fastforce
  then have "r = \<lparr>mr_key = key, mr_mutation = mu, mr_expected = kn_capture_expected (ok_encoded key) ex s, mr_invoked = p\<rparr>"
    "s' = s1" using new by (auto simp: round_new_def Let_def)
  then show ?thesis
    using next_invocation_facts(1-3)[OF ni] kn_capture_expected_ok[OF s ex] key mu store_ok_timeline[OF _ _ s, of s1]
    by (simp add: round_ok_def)
qed


lemma create_begin_ok:
  assumes s: "store_ok cd cont h own s" and key: "key_ok key"
    and ob: "\<And>ob. absence = Some ob \<Longrightarrow> obs_ok cd cont own ob"
    and beg: "create_begin cd elapsed key absence v s = Inr (r, s')"
  shows "store_ok cd cont h own s' \<and> round_ok cd (tl_last (cs_timeline s')) own r"
proof -
  obtain bytes where b: "cd_encode cd (ok_object key) v = Inr bytes"
    "round_new elapsed key (MutCreate v (cd_size cd v) bytes) (kn_expected_absent absence) s = (r, s')"
    "\<And>ob. absence = Some ob \<Longrightarrow> ob_value ob = None \<and> ob_key ob = key"
    using beg by (auto simp: create_begin_def bind_r_ok_iff split: if_splits option.splits)
  have "expected_ok own (ok_encoded key) (kn_expected_absent absence)"
  proof (cases absence)
    case (Some a)
    have "obs_ok cd cont own a" "ob_value a = None" "ob_key a = key" using ob[OF Some] b(3)[OF Some] by auto
    then have "cell_is own (ob_evidence a) (ok_encoded key) None"
      by (cases "ob_revision a") (auto simp: obs_ok_def holds_value_def)
    then show ?thesis using Some by (simp add: expected_ok_def kn_expected_absent_def)
  qed (simp add: expected_ok_def kn_expected_absent_def)
  then show ?thesis using round_new_ok[OF s _ key _ b(2)] b(1) by (simp add: kn_expected_absent_def)
qed

lemma expected_present_ok:
  "obs_ok cd cont own ob \<Longrightarrow> ob_revision ob = Some rv \<Longrightarrow>
   expected_ok own (ok_encoded (ob_key ob)) (kn_expected_present rv ob)"
  by (simp add: expected_ok_def kn_expected_present_def obs_ok_def)

lemma replace_begin_ok:
  assumes s: "store_ok cd cont h own s" and ob: "obs_ok cd cont own ob"
    and beg: "replace_begin cd elapsed ob v s = Inr (r, s')"
  shows "store_ok cd cont h own s' \<and> round_ok cd (tl_last (cs_timeline s')) own r"
proof -
  obtain rv bytes where b: "ob_revision ob = Some rv" "cd_encode cd (ok_object (ob_key ob)) v = Inr bytes"
    "round_new elapsed (ob_key ob) (MutReplace v (cd_size cd v) bytes rv) (kn_expected_present rv ob) s = (r, s')"
    using beg by (auto simp: replace_begin_def bind_r_ok_iff split: option.splits)
  show ?thesis
    using round_new_ok[OF s expected_present_ok[OF ob b(1)] _ _ b(3)] ob b(2)
    by (simp add: kn_expected_present_def obs_ok_def)
qed

lemma delete_begin_ok:
  assumes s: "store_ok cd cont h own s" and ob: "obs_ok cd cont own ob"
    and beg: "delete_begin cd elapsed ob s = Inr (r, s')"
  shows "store_ok cd cont h own s' \<and> round_ok cd (tl_last (cs_timeline s')) own r"
proof -
  obtain rv where b: "ob_revision ob = Some rv"
    "round_new elapsed (ob_key ob) (MutDelete rv) (kn_expected_present rv ob) s = (r, s')"
    using beg by (auto simp: delete_begin_def bind_r_ok_iff split: option.splits if_splits)
  show ?thesis
    using round_new_ok[OF s expected_present_ok[OF ob b(1)] _ _ b(2)] ob
    by (simp add: kn_expected_present_def obs_ok_def)
qed

section \<open>Finishing\<close>

definition receipt_ok :: "'v codec \<Rightarrow> contents_of \<Rightarrow> history \<Rightarrow> owners \<Rightarrow> 'v cas_receipt \<Rightarrow> bool" where
  "receipt_ok cd cont h own c \<longleftrightarrow>
     obs_ok cd cont own (cr_installed c)
     \<and> was_current h (ok_encoded (ob_key (cr_installed c))) (cr_expected_revision c) (cr_invoked c)"

text \<open>What an answer establishes about the history.\<close>

definition cas_reply_ok :: "history \<Rightarrow> contents_of \<Rightarrow> 'v mutation_round \<Rightarrow> bytes \<Rightarrow> (BackendError, revision) result \<Rightarrow> bool" where
  "cas_reply_ok h cont r bytes reply \<longleftrightarrow>
     (case reply of
        Inr rv \<Rightarrow>
          was_current h (ok_encoded (mr_key r)) (predicate_state (ex_predicate (mr_expected r))) (mr_invoked r)
          \<and> was_current h (ok_encoded (mr_key r)) (Some rv) (mr_invoked r) \<and> cont (ok_encoded (mr_key r)) rv = bytes
      | Inl BeNotFound \<Rightarrow> was_current h (ok_encoded (mr_key r)) None (mr_invoked r)
      | Inl _ \<Rightarrow> True)"

lemma map_r_cas:
  "map_r (\<lambda>a. case a of None \<Rightarrow> CasRejected | Some ob \<Rightarrow> f ob) res = Inr (CasApplied c)
   \<longleftrightarrow> (\<exists>ob. res = Inr (Some ob) \<and> f ob = CasApplied c)"
  by (cases res) (auto split: option.splits)

lemma create_finish_ok:
  assumes s: "store_ok cd cont h own s" and r: "round_ok cd now own r" and mu: "mr_mutation r = MutCreate v sz bytes"
    and reply: "cas_reply_ok h cont r bytes reply" and fin: "create_finish r reply s = (res, s')"
  shows "\<exists>x. store_ok cd cont h (own @ x) s' \<and> (\<forall>c. res = Inr (CasApplied c) \<longrightarrow> receipt_ok cd cont h (own @ x) c)"
proof -
  let ?p = "ok_encoded (mr_key r)"
  define outcome where "outcome = (case reply of
                 Inr rv \<Rightarrow> MoApplied rv (Some (mr_invoked r))
               | Inl BePrecondition \<Rightarrow> MoRejected
               | Inl e \<Rightarrow> mo_failed e)"
  have r': "key_ok (mr_key r)" "expected_ok own ?p (mr_expected r)" "ex_predicate (mr_expected r) = ExpAbsent"
    "cd_encode cd (ok_object (mr_key r)) v = Inr bytes"
    using r mu by (simp_all add: round_ok_def)
  obtain applied s1 where rf: "round_finish ?p (mr_expected r) outcome
      (\<lambda>rv. kn_install_mutation (mr_key r) v sz rv (mr_invoked r)) s = (applied, s1)" by fastforce
  have out: "reply = Inr rv \<and> ct = Some (mr_invoked r)" if "outcome = MoApplied rv ct" for rv ct
    using that by (auto simp: outcome_def mo_failed_def split: sum.splits BackendError.splits)
  have ok: "\<exists>x. store_ok cd cont h (own @ x) s1 \<and> (\<forall>ob. applied = Inr (Some ob) \<longrightarrow>
      obs_ok cd cont (own @ x) ob \<and> ob_key ob = mr_key r
      \<and> was_current h ?p None (mr_invoked r))"
  proof (rule round_finish_ok[OF s r'(2) rf, where Q = "\<lambda>own ob. obs_ok cd cont own ob \<and> ob_key ob = mr_key r
      \<and> was_current h ?p None (mr_invoked r)"])
    fix rv ct ob s2
    assume "outcome = MoApplied rv ct" and inst: "kn_install_mutation (mr_key r) v sz rv (mr_invoked r) s = (ob, s2)"
    then have w: "was_current h ?p None (mr_invoked r)" "was_current h ?p (Some rv) (mr_invoked r)" "cont ?p rv = bytes"
      using out reply r'(3) by (auto simp: cas_reply_ok_def)
    then have "holds_value cd cont ?p (Some v) (Some rv)" using r'(1,4) by (intro encoded_holds_value) simp_all
    from kn_install_mutation_ok[OF s w(2) this r'(1) inst] w(1)
    show "\<exists>x. store_ok cd cont h (own @ x) s2 \<and> obs_ok cd cont (own @ x) ob \<and> ob_key ob = mr_key r
      \<and> was_current h ?p None (mr_invoked r)" by blast
  next
    fix rv t assume "outcome = MoApplied rv (Some t)"
    then show "was_current h ?p (predicate_state (ex_predicate (mr_expected r))) t"
      using out reply by (auto simp: cas_reply_ok_def)
  qed
  have s': "s' = s1" and res: "res = map_r (\<lambda>a. case a of None \<Rightarrow> CasRejected | Some installed \<Rightarrow>
      CasApplied \<lparr>cr_expected_revision = None, cr_installed = installed, cr_invoked = mr_invoked r\<rparr>) applied"
    using fin mu rf by (auto simp: create_finish_def outcome_def)
  from ok obtain x where x: "store_ok cd cont h (own @ x) s1" "\<forall>ob. applied = Inr (Some ob) \<longrightarrow>
      obs_ok cd cont (own @ x) ob \<and> ob_key ob = mr_key r \<and> was_current h ?p None (mr_invoked r)" by blast
  have "receipt_ok cd cont h (own @ x) c" if c: "res = Inr (CasApplied c)" for c
  proof -
    obtain ob where "applied = Inr (Some ob)"
      "c = \<lparr>cr_expected_revision = None, cr_installed = ob, cr_invoked = mr_invoked r\<rparr>"
      using c unfolding res map_r_cas by auto
    then show ?thesis using x(2) by (simp add: receipt_ok_def)
  qed
  then show ?thesis using x(1) s' by (intro exI[of _ x]) simp
qed


definition cas_ok :: "'v codec \<Rightarrow> contents_of \<Rightarrow> history \<Rightarrow> owners \<Rightarrow> 'v cas_result \<Rightarrow> bool" where
  "cas_ok cd cont h own c = (case c of CasApplied r \<Rightarrow> receipt_ok cd cont h own r | CasRejected \<Rightarrow> True)"

lemma replace_finish_ok:
  assumes s: "store_ok cd cont h own s" and r: "round_ok cd now own r" and mu: "mr_mutation r = MutReplace v sz bytes rv0"
    and reply: "cas_reply_ok h cont r bytes reply" and fin: "replace_finish r reply s = (res, s')"
  shows "\<exists>x. store_ok cd cont h (own @ x) s' \<and> (\<forall>c. res = Inr (CasApplied c) \<longrightarrow> receipt_ok cd cont h (own @ x) c)"
proof -
  let ?p = "ok_encoded (mr_key r)"
  define outcome where "outcome = (case reply of
                 Inr rv \<Rightarrow> MoApplied (Some rv) (Some (mr_invoked r))
               | Inl BeNotFound \<Rightarrow> MoApplied None None
               | Inl BePrecondition \<Rightarrow> MoRejected
               | Inl e \<Rightarrow> mo_failed e)"
  define install where "install = (\<lambda>installed s. case installed of
                    Some rv \<Rightarrow>
                      (let (ob, s) = kn_install_mutation (mr_key r) v sz rv (mr_invoked r) s
                       in (CasApplied \<lparr>cr_expected_revision = Some rv0, cr_installed = ob,
                             cr_invoked = mr_invoked r\<rparr>, s))
                  | None \<Rightarrow>
                      (let (ob, s) = kn_install_absent_observation (mr_key r) (mr_invoked r) s
                       in (CasRejected, s)))"
  have r': "key_ok (mr_key r)" "expected_ok own ?p (mr_expected r)" "ex_predicate (mr_expected r) = ExpPresent rv0"
    "cd_encode cd (ok_object (mr_key r)) v = Inr bytes"
    using r mu by (simp_all add: round_ok_def)
  obtain completed s1 where rf: "round_finish ?p (mr_expected r) outcome install s = (completed, s1)" by fastforce
  have out: "(a = None \<and> reply = Inl BeNotFound \<and> ct = None) \<or> (\<exists>rv. a = Some rv \<and> reply = Inr rv \<and> ct = Some (mr_invoked r))"
    if "outcome = MoApplied a ct" for a ct
    using that by (auto simp: outcome_def mo_failed_def split: sum.splits BackendError.splits)
  have "\<exists>x. store_ok cd cont h (own @ x) s1 \<and> (\<forall>c. completed = Inr (Some c) \<longrightarrow> cas_ok cd cont h (own @ x) c)"
  proof (rule round_finish_ok[OF s r'(2) rf, where Q = "cas_ok cd cont h"])
    fix a ct c s2 assume oa: "outcome = MoApplied a ct" and inst: "install a s = (c, s2)"
    show "\<exists>x. store_ok cd cont h (own @ x) s2 \<and> cas_ok cd cont h (own @ x) c"
    proof (cases a)
      case None
      then have w: "was_current h ?p None (mr_invoked r)" using out[OF oa] reply by (simp add: cas_reply_ok_def)
      obtain ob where ob: "kn_install_absent_observation (mr_key r) (mr_invoked r) s = (ob, s2)" "c = CasRejected"
        using None inst by (auto simp: install_def split: prod.splits)
      from kn_install_absent_observation_ok[OF s w r'(1) ob(1)] show ?thesis
        using ob(2) by (auto simp: cas_ok_def)
    next
      case (Some rv)
      then have w: "was_current h ?p (Some rv0) (mr_invoked r)" "was_current h ?p (Some rv) (mr_invoked r)" "cont ?p rv = bytes"
        using out[OF oa] reply r'(3) by (auto simp: cas_reply_ok_def)
      then have v: "holds_value cd cont ?p (Some v) (Some rv)" using r'(1,4) by (intro encoded_holds_value) simp_all
      obtain ob where ob: "kn_install_mutation (mr_key r) v sz rv (mr_invoked r) s = (ob, s2)"
        "c = CasApplied \<lparr>cr_expected_revision = Some rv0, cr_installed = ob, cr_invoked = mr_invoked r\<rparr>"
        using Some inst by (auto simp: install_def split: prod.splits)
      from kn_install_mutation_ok[OF s w(2) v r'(1) ob(1)] show ?thesis
        using w(1) ob(2) by (auto simp: cas_ok_def receipt_ok_def)
    qed
  next
    fix a t assume "outcome = MoApplied a (Some t)"
    then show "was_current h ?p (predicate_state (ex_predicate (mr_expected r))) t"
      using out reply by (fastforce simp: cas_reply_ok_def)
  qed
  then obtain x where x: "store_ok cd cont h (own @ x) s1"
    "\<forall>c. completed = Inr (Some c) \<longrightarrow> cas_ok cd cont h (own @ x) c" by blast
  have s': "s' = s1" and res: "res = map_r (\<lambda>a. case a of None \<Rightarrow> CasRejected | Some c \<Rightarrow> c) completed"
    using fin mu rf by (auto simp: replace_finish_def outcome_def install_def)
  have "receipt_ok cd cont h (own @ x) c" if c: "res = Inr (CasApplied c)" for c
    using c x(2) unfolding res map_r_cas by (auto simp: cas_ok_def)
  then show ?thesis using x(1) s' by (intro exI[of _ x]) simp
qed

text \<open>A successful answer to a delete must have found the expected revision.\<close>

definition delete_reply_ok :: "history \<Rightarrow> 'v mutation_round \<Rightarrow> (BackendError, unit) result \<Rightarrow> bool" where
  "delete_reply_ok h r reply \<longleftrightarrow>
     (case reply of
        Inr _ \<Rightarrow>
          was_current h (ok_encoded (mr_key r)) (predicate_state (ex_predicate (mr_expected r))) (mr_invoked r)
          \<and> was_current h (ok_encoded (mr_key r)) None (mr_invoked r)
      | Inl BeNotFound \<Rightarrow> was_current h (ok_encoded (mr_key r)) None (mr_invoked r)
      | Inl _ \<Rightarrow> True)"

lemma delete_finish_ok:
  assumes s: "store_ok cd cont h own s" and r: "round_ok cd now own r"
    and reply: "delete_reply_ok h r reply" and fin: "delete_finish r reply s = (res, s')"
  shows "\<exists>x. store_ok cd cont h (own @ x) s' \<and> (\<forall>ob. res = Inr ob \<longrightarrow> obs_ok cd cont (own @ x) ob)"
proof -
  let ?p = "ok_encoded (mr_key r)"
  define outcome where "outcome = (case reply of
            Inr _ \<Rightarrow> MoApplied () (Some (mr_invoked r))
          | Inl BeNotFound \<Rightarrow> MoApplied () None
          | Inl BePrecondition \<Rightarrow> MoRejected
          | Inl e \<Rightarrow> mo_failed e)"
  have r': "key_ok (mr_key r)" "expected_ok own ?p (mr_expected r)" using r by (simp_all add: round_ok_def)
  obtain completed s1 where rf: "round_finish ?p (mr_expected r) outcome
      (\<lambda>_. kn_install_absent_observation (mr_key r) (mr_invoked r)) s = (completed, s1)" by fastforce
  have out: "(reply = Inl BeNotFound \<and> ct = None) \<or> (reply = Inr () \<and> ct = Some (mr_invoked r))"
    if "outcome = MoApplied a ct" for a ct
    using that by (auto simp: outcome_def mo_failed_def split: sum.splits BackendError.splits)
  have "\<exists>x. store_ok cd cont h (own @ x) s1 \<and> (\<forall>ob. completed = Inr (Some ob) \<longrightarrow> obs_ok cd cont (own @ x) ob)"
  proof (rule round_finish_ok[OF s r'(2) rf, where Q = "obs_ok cd cont"])
    fix a ct ob s2 assume oa: "outcome = MoApplied a ct"
      and inst: "kn_install_absent_observation (mr_key r) (mr_invoked r) s = (ob, s2)"
    have "was_current h ?p None (mr_invoked r)" using out[OF oa] reply by (auto simp: delete_reply_ok_def)
    then show "\<exists>x. store_ok cd cont h (own @ x) s2 \<and> obs_ok cd cont (own @ x) ob"
      using kn_install_absent_observation_ok[OF s _ r'(1) inst] by blast
  next
    fix a t assume "outcome = MoApplied a (Some t)"
    then show "was_current h ?p (predicate_state (ex_predicate (mr_expected r))) t"
      using out reply by (fastforce simp: delete_reply_ok_def)
  qed
  moreover have "s' = s1" "res = bind_r completed (\<lambda>a. case a of None \<Rightarrow> Inl Precondition | Some ob \<Rightarrow> Inr ob)"
    using fin rf by (auto simp: delete_finish_def outcome_def)
  ultimately show ?thesis by (auto simp: bind_r_ok_iff split: option.splits)
qed


section \<open>Reads and checks\<close>

lemma obs_of_fetch:
  "key_ok key \<Longrightarrow> cell_is own (fr_evidence f) (ok_encoded key) (fr_revision f) \<Longrightarrow>
   holds_value cd cont (ok_encoded key) (fr_value f) (fr_revision f) \<Longrightarrow> obs_ok cd cont own (kn_to_observation key f)"
  by (simp add: obs_ok_def kn_to_observation_def)

lemma observation_of_result [simp]: "ob_key ob = key \<Longrightarrow> kn_to_observation key (kn_result_from_observation ob) = ob"
  by (simp add: kn_to_observation_def kn_result_from_observation_def)

lemma fetch_begin_ok:
  assumes s: "store_ok cd cont h own s" and key: "key_ok key"
    and fb: "\<And>ob. fallback = Some ob \<Longrightarrow> obs_ok cd cont own ob \<and> ob_key ob = key"
    and beg: "fetch_begin cd elapsed key req fallback s = (adm, s')"
  shows "store_ok cd cont h own s'
    \<and> (\<forall>f. adm = ReadDone f \<longrightarrow> s' = s \<and> obs_ok cd cont own (kn_to_observation key f)
          \<and> ob_satisfies s (kn_to_observation key f) req)
    \<and> (\<forall>r. adm = ReadLead r \<longrightarrow> read_round_ok cd cont (tl_last (cs_timeline s')) own r \<and> rd_key r = key
          \<and> sp_raw (rd_invoked r) = tl_last (cs_timeline s') \<and> (\<exists>p. next_invocation elapsed s = (p, s')))"
proof -
  obtain p s1 where ni: "next_invocation elapsed s = (p, s1)" by fastforce
  have lead: "store_ok cd cont h own s1"
    using next_invocation_facts(1,2)[OF ni] store_ok_timeline[OF _ _ s] by simp
  consider (fallback) ob where "fallback = Some ob" "is_satisfied_by req (ev_get s (ob_evidence ob))"
      "adm = ReadDone (kn_result_from_observation ob)" "s' = s"
    | (peek) hit where "kn_peek s key req = Some hit" "adm = ReadDone (kn_result_from_observation hit)" "s' = s"
    | (lead) "adm = ReadLead \<lparr>rd_key = key, rd_seed = kn_present_seed cd s key fallback, rd_invoked = p\<rparr>" "s' = s1"
    using beg ni by (auto simp: fetch_begin_def split: option.splits if_splits)
  then show ?thesis
  proof cases
    case fallback
    then show ?thesis using s fb[OF fallback(1)] by (simp add: ob_satisfies_def)
  next
    case peek
    then show ?thesis using s kn_peek_ok[OF s key peek(1)] by simp
  next
    case lead: lead
    have "\<forall>seed. kn_present_seed cd s key fallback = Some seed \<longrightarrow> seed_ok cd cont own (ok_encoded key) seed"
      using kn_present_seed_ok[OF s fb] by blast
    then show ?thesis
      using lead \<open>store_ok cd cont h own s1\<close> key next_invocation_facts(3)[OF ni] ni by (simp add: read_round_ok_def)
  qed
qed

definition read_reply_ok :: "history \<Rightarrow> contents_of \<Rightarrow> 'v read_round \<Rightarrow> (BackendError, read_reply) result \<Rightarrow> bool" where
  "read_reply_ok h cont r reply \<longleftrightarrow>
     (case reply of
        Inr rep \<Rightarrow>
          was_current h (ok_encoded (rd_key r)) (Some (rr_revision rep)) (rd_invoked r)
          \<and> rr_contents rep = cont (ok_encoded (rd_key r)) (rr_revision rep)
      | Inl BeNotFound \<Rightarrow> was_current h (ok_encoded (rd_key r)) None (rd_invoked r)
      | Inl BePrecondition \<Rightarrow>
          (\<forall>seed. rd_seed r = Some seed \<longrightarrow>
             was_current h (ok_encoded (rd_key r)) (Some (ps_revision seed)) (rd_invoked r))
      | Inl _ \<Rightarrow> True)"

lemma do_fetch_ok:
  assumes s: "store_ok cd cont h own s" and r: "read_round_ok cd cont now own r"
    and reply: "read_reply_ok h cont r reply" and fin: "do_fetch cd r reply s = (res, s')"
  shows "\<exists>x. store_ok cd cont h (own @ x) s'
    \<and> (\<forall>f. res = Inr f \<longrightarrow> obs_ok cd cont (own @ x) (kn_to_observation (rd_key r) f))"
proof -
  let ?p = "ok_encoded (rd_key r)"
  have key: "key_ok (rd_key r)" using r by (simp add: read_round_ok_def)
  have same: ?thesis if "store_ok cd cont h own s'" "\<And>f. res = Inr f \<Longrightarrow> obs_ok cd cont own (kn_to_observation (rd_key r) f)"
    using that by (intro exI[of _ "[]"]) simp
  consider (body) rep v f where "reply = Inr rep" "cd_decode cd (ok_object (rd_key r)) (rr_contents rep) = Inr v"
      "kn_install_fetched ?p v (cd_size cd v) (rr_revision rep) (rd_invoked r) s = (f, s')" "res = Inr f"
    | (absent) f where "reply = Inl BeNotFound" "kn_install_absent_result ?p (rd_invoked r) s = (f, s')" "res = Inr f"
    | (unchanged) seed f where "reply = Inl BePrecondition" "rd_seed r = Some seed"
      "kn_confirm_unchanged ?p seed (rd_invoked r) s = (f, s')" "res = Inr f"
    | (failed) e where "res = Inl e" "s' = s \<or> s' = kn_invalidate ?p s"
    using fin
    by (auto simp: do_fetch_def publish_present_def map_prod_def split: sum.splits BackendError.splits option.splits prod.splits)
  then show ?thesis
  proof cases
    case body
    have w: "was_current h ?p (Some (rr_revision rep)) (rd_invoked r)" "rr_contents rep = cont ?p (rr_revision rep)"
      using reply body(1) by (simp_all add: read_reply_ok_def)
    then have "holds_value cd cont ?p (Some v) (Some (rr_revision rep))"
      using body(2) key by (auto simp: holds_value_def key_ok_def)
    from kn_install_fetched_ok[OF s w(1) this body(3)] this show ?thesis
      using body(4) key by (auto intro!: obs_of_fetch)
  next
    case absent
    have w: "was_current h ?p None (rd_invoked r)" using reply absent(1) by (simp add: read_reply_ok_def)
    obtain e where e: "kn_install_absent ?p (rd_invoked r) s = (e, s')"
      "f = \<lparr>fr_value = None, fr_revision = None, fr_evidence = e\<rparr>"
      using absent(2) by (auto simp: kn_install_absent_result_def split: prod.splits)
    from kn_install_absent_ok[OF s w e(1)] show ?thesis
      using absent(3) e(2) key by (auto intro!: obs_of_fetch simp: holds_value_def)
  next
    case unchanged
    have w: "was_current h ?p (Some (ps_revision seed)) (rd_invoked r)" and seed: "seed_ok cd cont own ?p seed"
      using reply r unchanged(1,2) by (simp_all add: read_reply_ok_def read_round_ok_def)
    from kn_confirm_unchanged_ok[OF s seed w unchanged(3)] show ?thesis
      using seed unchanged(4) key by (intro same) (auto intro!: obs_of_fetch simp: seed_ok_def)
  next
    case failed
    then show ?thesis using s kn_invalidate_ok[OF s] by (intro same) auto
  qed
qed


lemma check_local_ok:
  assumes s: "store_ok cd cont h own s" and ob: "obs_ok cd cont own ob"
    and chk: "check_local ob req s = (Some res, s')"
  shows "store_ok cd cont h own s' \<and> (\<forall>c \<in> changed_of res. obs_ok cd cont own c)
    \<and> cs_timeline s' = cs_timeline s \<and> (res = CheckCurrent \<longrightarrow> ob_satisfies s' ob req)"
proof -
  have key: "key_ok (ob_key ob)" and own: "cell_is own (ob_evidence ob) (ok_encoded (ob_key ob)) (ob_revision ob)"
    using ob by (simp_all add: obs_ok_def)
  consider (local) "is_satisfied_by req (ev_get s (ob_evidence ob))" "res = CheckCurrent" "s' = s"
    | (hit) current where "kn_peek s (ob_key ob) req = Some current" "ob_revision current = ob_revision ob"
      "res = CheckCurrent" "s' = ev_advance (ob_evidence ob) (ev_get s (ob_evidence current)) s"
    | (changed) current where "kn_peek s (ob_key ob) req = Some current" "res = CheckChanged current" "s' = s"
  proof (cases "is_satisfied_by req (ev_get s (ob_evidence ob))")
    case False
    then obtain current where current: "kn_peek s (ob_key ob) req = Some current"
      using chk by (cases "kn_peek s (ob_key ob) req") (simp_all add: check_local_def)
    show ?thesis
    proof (cases "ob_revision current = ob_revision ob")
      case True
      then have "res = CheckCurrent \<and> s' = ev_advance (ob_evidence ob) (ev_get s (ob_evidence current)) s"
        using chk False current by (auto simp: check_local_def)
      then show ?thesis using hit[OF current True] by blast
    next
      case rev: False
      then have "res = CheckChanged current \<and> s' = s" using chk False current by (auto simp: check_local_def)
      then show ?thesis using changed[OF current] by blast
    qed
  next
    case True
    then have "res = CheckCurrent \<and> s' = s" using chk by (auto simp: check_local_def)
    then show ?thesis using local[OF True] by blast
  qed
  then show ?thesis
  proof cases
    case local
    then show ?thesis using s by (simp add: ob_satisfies_def)
  next
    case hit
    note c = kn_peek_ok[OF s key hit(1)]
    have w: "was_current h (ok_encoded (ob_key ob)) (ob_revision ob) (ev_get s (ob_evidence current))"
      using c hit(2) ev_get_current[OF s] by (auto simp: obs_ok_def)
    have "ev_get s' (ob_evidence ob) = max (ev_get s (ob_evidence ob)) (ev_get s (ob_evidence current))"
    proof -
      have "ev_cell (ob_evidence ob) < length (cs_cells s)" using own s by (simp add: cell_is_def store_ok_def)
      then show ?thesis unfolding hit(4) by (simp add: ev_get_def ev_advance_def)
    qed
    then have "is_satisfied_by req (ev_get s' (ob_evidence ob))"
      using c is_satisfied_by_mono[of req "ev_get s (ob_evidence current)"] by (simp add: ob_satisfies_def)
    then show ?thesis
      using hit ev_advance_ok[OF s own w] by (simp add: ob_satisfies_def ev_advance_def)
  next
    case changed
    then show ?thesis using s kn_peek_ok[OF s key changed(1)] by simp
  qed
qed

lemma check_fetched_ok:
  assumes s: "store_ok cd cont h own s" and ob: "obs_ok cd cont own ob"
    and cur: "obs_ok cd cont own (kn_to_observation (ob_key ob) f)" and chk: "check_fetched ob f s = (res, s')"
  shows "store_ok cd cont h own s' \<and> (\<forall>c \<in> changed_of res. obs_ok cd cont own c) \<and> cs_timeline s' = cs_timeline s"
proof (cases "same_observed_state ob (kn_to_observation (ob_key ob) f)")
  case True
  let ?cur = "kn_to_observation (ob_key ob) f"
  let ?t = "max (ev_get s (ob_evidence ob)) (ev_get s (ob_evidence ?cur))"
  have c1: "cell_is own (ob_evidence ob) (ok_encoded (ob_key ob)) (ob_revision ob)"
    and c2: "cell_is own (ob_evidence ?cur) (ok_encoded (ob_key ob)) (ob_revision ob)"
    using ob cur True by (auto simp: obs_ok_def same_observed_state_def)
  have w: "was_current h (ok_encoded (ob_key ob)) (ob_revision ob) ?t"
    using was_current_max ev_get_current[OF s c1] ev_get_current[OF s c2] by blast
  have "s' = ev_advance (ob_evidence ?cur) ?t (ev_advance (ob_evidence ob) ?t s)" "res = CheckCurrent"
    using chk True by (auto simp: check_fetched_def Let_def)
  then show ?thesis using ev_advance_ok[OF ev_advance_ok[OF s c1 w] c2 w] by (simp add: ev_advance_def)
next
  case False
  then show ?thesis using s cur chk by (auto simp: check_fetched_def Let_def)
qed

section \<open>The invariant of the system\<close>

fun pending_ok :: "'v codec \<Rightarrow> contents_of \<Rightarrow> history \<Rightarrow> nat \<Rightarrow> owners \<Rightarrow> 'v pending \<Rightarrow> bool" where
  "pending_ok cd cont h now own (PendingRead r) \<longleftrightarrow> read_round_ok cd cont now own r"
| "pending_ok cd cont h now own (ReadReply r reply) \<longleftrightarrow> read_round_ok cd cont now own r \<and> read_reply_ok h cont r reply"
| "pending_ok cd cont h now own (PendingMutation r) \<longleftrightarrow> round_ok cd now own r"
| "pending_ok cd cont h now own (CreateReply r reply) \<longleftrightarrow> round_ok cd now own r
     \<and> (\<exists>v sz bytes. mr_mutation r = MutCreate v sz bytes \<and> cas_reply_ok h cont r bytes reply)"
| "pending_ok cd cont h now own (ReplaceReply r reply) \<longleftrightarrow> round_ok cd now own r
     \<and> (\<exists>v sz bytes rv. mr_mutation r = MutReplace v sz bytes rv \<and> cas_reply_ok h cont r bytes reply)"
| "pending_ok cd cont h now own (DeleteReply r reply') \<longleftrightarrow> round_ok cd now own r \<and> delete_reply_ok h r reply'"

abbreviation sy_now :: "'v system \<Rightarrow> nat" where
  "sy_now y \<equiv> tl_last (cs_timeline (sy_store y))"

definition sys_inv :: "'v codec \<Rightarrow> contents_of \<Rightarrow> owners \<Rightarrow> 'v system \<Rightarrow> bool" where
  "sys_inv cd cont own y \<longleftrightarrow>
     store_ok cd cont (sy_history y) own (sy_store y)
     \<and> (\<forall>ob \<in> sy_observed y. obs_ok cd cont own ob)
     \<and> (\<forall>p \<in> sy_pending y. pending_ok cd cont (sy_history y) (sy_now y) own p)
     \<and> (\<forall>c \<in> sy_receipts y. receipt_ok cd cont (sy_history y) own c)
     \<and> sy_history y \<noteq> [] \<and> last (sy_history y) = (sy_now y, sy_view y) \<and> sy_now y \<le> U64_MAX
     \<and> (\<forall>(n, V) \<in> set (sy_history y). n \<le> sy_now y \<and> revisions_ok cont V)"

lemma cas_reply_ok_mono: "cas_reply_ok h cont r bytes reply \<Longrightarrow> set h \<subseteq> set h' \<Longrightarrow> cas_reply_ok h' cont r bytes reply"
  by (auto simp: cas_reply_ok_def intro: was_current_mono split: sum.splits BackendError.splits)

lemma delete_reply_ok_mono: "delete_reply_ok h r reply \<Longrightarrow> set h \<subseteq> set h' \<Longrightarrow> delete_reply_ok h' r reply"
  by (auto simp: delete_reply_ok_def intro: was_current_mono split: sum.splits BackendError.splits)

lemma read_reply_ok_mono: "read_reply_ok h cont r reply \<Longrightarrow> set h \<subseteq> set h' \<Longrightarrow> read_reply_ok h' cont r reply"
  by (auto simp: read_reply_ok_def intro: was_current_mono split: sum.splits BackendError.splits)

lemma pending_ok_mono:
  "pending_ok cd cont h now own p \<Longrightarrow> set h \<subseteq> set h' \<Longrightarrow> now \<le> now' \<Longrightarrow> pending_ok cd cont h' now' (own @ x) p"
  by (cases p) (auto intro: round_ok_mono read_round_ok_mono cas_reply_ok_mono delete_reply_ok_mono read_reply_ok_mono)

lemma receipt_ok_mono: "receipt_ok cd cont h own c \<Longrightarrow> set h \<subseteq> set h' \<Longrightarrow> receipt_ok cd cont h' (own @ x) c"
  by (auto simp: receipt_ok_def intro: was_current_mono)

text \<open>Every step ends in a moment: what it changed must be sound, and the rest is carried over.\<close>

lemma sys_inv_moment:
  assumes inv: "sys_inv cd cont own y"
    and hist: "sy_history y' = sy_history y"
    and st: "store_ok cd cont (sy_history y) (own @ x) (sy_store y')"
    and now: "sy_now y \<le> sy_now y'" "sy_now y' \<le> U64_MAX" and view: "revisions_ok cont (sy_view y')"
    and obs: "\<And>ob. ob \<in> sy_observed y' \<Longrightarrow> ob \<in> sy_observed y \<or> obs_ok cd cont (own @ x) ob"
    and pend: "\<And>p. p \<in> sy_pending y' \<Longrightarrow> p \<in> sy_pending y
        \<or> pending_ok cd cont (sy_history y @ [(sy_now y', sy_view y')]) (sy_now y') (own @ x) p"
    and rec: "\<And>c. c \<in> sy_receipts y' \<Longrightarrow> c \<in> sy_receipts y \<or> receipt_ok cd cont (sy_history y) (own @ x) c"
  shows "sys_inv cd cont (own @ x) (moment y')"
proof -
  let ?h = "sy_history y @ [(sy_now y', sy_view y')]"
  have sub: "set (sy_history y) \<subseteq> set ?h" by auto
  have old: "\<forall>ob \<in> sy_observed y. obs_ok cd cont own ob"
    "\<forall>p \<in> sy_pending y. pending_ok cd cont (sy_history y) (sy_now y) own p"
    "\<forall>c \<in> sy_receipts y. receipt_ok cd cont (sy_history y) own c"
    using inv unfolding sys_inv_def by blast+
  have "\<forall>ob \<in> sy_observed y'. obs_ok cd cont (own @ x) ob" using obs old(1) obs_ok_append by blast
  moreover have "\<forall>p \<in> sy_pending y'. pending_ok cd cont ?h (sy_now y') (own @ x) p"
    using pend old(2) pending_ok_mono[OF _ sub now(1)] by blast
  moreover have "receipt_ok cd cont ?h (own @ x) c" if "receipt_ok cd cont (sy_history y) (own @ x) c" for c
    using receipt_ok_mono[OF that sub, of "[]"] by simp
  then have "\<forall>c \<in> sy_receipts y'. receipt_ok cd cont ?h (own @ x) c"
    using rec old(3) receipt_ok_mono[OF _ sub, of cd cont own _ x] by blast
  moreover have "\<forall>(n, V) \<in> set ?h. n \<le> sy_now y' \<and> revisions_ok cont V"
    using inv view now(1) by (auto simp: sys_inv_def)
  ultimately show ?thesis
    using store_ok_mono[OF st sub] now(2) hist by (simp add: sys_inv_def moment_def)
qed


section \<open>Only invocations move the timeline\<close>

lemma ev_advance_timeline [simp]: "cs_timeline (ev_advance e t s) = cs_timeline s"
  by (simp add: ev_advance_def)

lemma kn_install_present_timeline: "cs_timeline (snd (kn_install_present p v sz rv e s)) = cs_timeline s"
  by (simp add: kn_install_present_def split: option.split entry_state.split)

lemma kn_install_absent_timeline: "cs_timeline (snd (kn_install_absent p t s)) = cs_timeline s"
  by (simp add: kn_install_absent_def ev_new_def split: option.split entry_state.split)

lemma kn_timeline [simp]:
  "cs_timeline (kn_invalidate p s) = cs_timeline s"
  "cs_timeline (kn_invalidate_expected p ex s) = cs_timeline s"
  "cs_timeline (kn_advance_expected ex t s) = cs_timeline s"
  by (auto simp: kn_invalidate_def kn_invalidate_expected_def kn_advance_expected_def advance_option_def
      split: option.split)

lemma kn_install_timeline:
  "kn_install_mutation key v sz rv t s = (ob, s') \<Longrightarrow> cs_timeline s' = cs_timeline s"
  "kn_install_fetched p v sz rv t s = (f, s') \<Longrightarrow> cs_timeline s' = cs_timeline s"
  "kn_install_absent_observation key t s = (ob, s') \<Longrightarrow> cs_timeline s' = cs_timeline s"
  "kn_install_absent_result p t s = (f, s') \<Longrightarrow> cs_timeline s' = cs_timeline s"
  "kn_confirm_unchanged p seed t s = (f, s') \<Longrightarrow> cs_timeline s' = cs_timeline s"
  by (auto simp: kn_install_mutation_def kn_install_fetched_def kn_install_absent_observation_def
      kn_install_absent_result_def kn_confirm_unchanged_def ev_new_def Let_def split: prod.splits
      dest!: arg_cong[where f = snd] simp: kn_install_present_timeline kn_install_absent_timeline)

lemma round_finish_timeline:
  assumes "round_finish p ex outcome apply s = (res, s')"
    and "\<And>v r s1. apply v s = (r, s1) \<Longrightarrow> cs_timeline s1 = cs_timeline s"
  shows "cs_timeline s' = cs_timeline s"
  using assms by (auto simp: round_finish_def Let_def split: mutation_outcome.splits prod.splits option.splits)

lemma finish_timeline:
  "create_finish r reply s = (res, s') \<Longrightarrow> cs_timeline s' = cs_timeline s"
  "replace_finish r reply s = (res, s') \<Longrightarrow> cs_timeline s' = cs_timeline s"
  "delete_finish r reply' s = (res', s') \<Longrightarrow> cs_timeline s' = cs_timeline s"
  by (auto simp: create_finish_def replace_finish_def delete_finish_def Let_def
      split: mutation.splits prod.splits option.splits dest!: round_finish_timeline
      dest: kn_install_timeline)

lemma do_fetch_timeline: "do_fetch cd r reply s = (res, s') \<Longrightarrow> cs_timeline s' = cs_timeline s"
  by (auto simp: do_fetch_def publish_present_def map_prod_def
      split: sum.splits BackendError.splits option.splits prod.splits dest: kn_install_timeline)


section \<open>Every step keeps the invariant\<close>

lemma sys_inv_facts:
  assumes "sys_inv cd cont own y"
  shows "store_ok cd cont (sy_history y) own (sy_store y)"
    and "ob \<in> sy_observed y \<Longrightarrow> obs_ok cd cont own ob"
    and "p \<in> sy_pending y \<Longrightarrow> pending_ok cd cont (sy_history y) (sy_now y) own p"
    and "c \<in> sy_receipts y \<Longrightarrow> receipt_ok cd cont (sy_history y) own c"
    and "sy_now y \<le> U64_MAX" and "revisions_ok cont (sy_view y)"
    and "(sy_now y, sy_view y) \<in> set (sy_history y)"
proof -
  have m: "(sy_now y, sy_view y) \<in> set (sy_history y)"
    using assms last_in_set[of "sy_history y"] by (simp add: sys_inv_def)
  then show "revisions_ok cont (sy_view y)" using assms unfolding sys_inv_def by blast
  show "(sy_now y, sy_view y) \<in> set (sy_history y)" by (rule m)
qed (use assms in \<open>simp_all add: sys_inv_def\<close>)

lemma settle_inv:
  assumes inv: "sys_inv cd cont own y"
    and st: "store_ok cd cont (sy_history y) (own @ x) st"
    and now: "sy_now y \<le> tl_last (cs_timeline st)" "tl_last (cs_timeline st) \<le> U64_MAX"
    and obs: "\<And>ob. ob \<in> obs \<Longrightarrow> obs_ok cd cont (own @ x) ob"
    and pend: "\<And>q. q \<in> new \<Longrightarrow> pending_ok cd cont (sy_history y) (tl_last (cs_timeline st)) (own @ x) q"
    and rec: "\<And>c. c \<in> rcs \<Longrightarrow> receipt_ok cd cont (sy_history y) (own @ x) c"
  shows "sys_inv cd cont (own @ x) (moment (y\<lparr>sy_store := st, sy_pending := sy_pending y - D \<union> new,
    sy_observed := sy_observed y \<union> obs, sy_receipts := sy_receipts y \<union> rcs\<rparr>))"
proof (rule sys_inv_moment[OF inv, where x = x])
  let ?y = "y\<lparr>sy_store := st, sy_pending := sy_pending y - D \<union> new,
    sy_observed := sy_observed y \<union> obs, sy_receipts := sy_receipts y \<union> rcs\<rparr>"
  fix p assume "p \<in> sy_pending ?y"
  moreover have "pending_ok cd cont (sy_history y @ [(sy_now ?y, sy_view ?y)]) (sy_now ?y) (own @ x) q"
    if "q \<in> new" for q
    using pending_ok_mono[OF pend[OF that], of "sy_history y @ [(sy_now ?y, sy_view ?y)]" "sy_now ?y" "[]"] by auto
  ultimately show "p \<in> sy_pending y \<or>
      pending_ok cd cont (sy_history y @ [(sy_now ?y, sy_view ?y)]) (sy_now ?y) (own @ x) p" by auto
qed (use st now obs rec sys_inv_facts(6)[OF inv] in auto)

lemma settle_eq:
  "settle p new st obs y = moment (y\<lparr>sy_store := st, sy_pending := sy_pending y - {p} \<union> new,
    sy_observed := sy_observed y \<union> obs, sy_receipts := sy_receipts y \<union> {}\<rparr>)"
  "(settle p new st obs y)\<lparr>sy_receipts := sy_receipts y \<union> rcs\<rparr> = moment (y\<lparr>sy_store := st,
    sy_pending := sy_pending y - {p} \<union> new, sy_observed := sy_observed y \<union> obs, sy_receipts := sy_receipts y \<union> rcs\<rparr>)"
  "begin_op new st obs y = moment (y\<lparr>sy_store := st, sy_pending := sy_pending y - {} \<union> new,
    sy_observed := sy_observed y \<union> obs, sy_receipts := sy_receipts y \<union> {}\<rparr>)"
  by (simp_all add: settle_def begin_op_def moment_def)

lemma answer_inv:
  assumes inv: "sys_inv cd cont own y" and view: "revisions_ok cont V"
    and q: "pending_ok cd cont (sy_history y @ [(sy_now y, V)]) (sy_now y) own q"
  shows "sys_inv cd cont own (answer p q V y)"
proof -
  have "sys_inv cd cont (own @ []) (moment (y\<lparr>sy_view := V, sy_pending := insert q (sy_pending y - {p})\<rparr>))"
    by (rule sys_inv_moment[OF inv]) (use sys_inv_facts[OF inv] view q in auto)
  then show ?thesis by (simp add: answer_def)
qed

lemma was_current_now:
  "(n, V) \<in> set h \<Longrightarrow> sp_raw t \<le> n \<Longrightarrow> state_at V p = rv \<Longrightarrow> was_current h p rv t"
  by (auto simp: was_current_def)

lemma read_answer_ok:
  assumes "read_answer V p (map_option ps_revision (rd_seed r)) reply" "p = ok_encoded (rd_key r)"
    and "(n, V) \<in> set h" "sp_raw (rd_invoked r) \<le> n" "revisions_ok cont V"
  shows "read_reply_ok h cont r reply"
  using assms(1)
proof cases
  case (read_plain rep)
  then show ?thesis
    using assms(2,5) by (auto simp: read_reply_ok_def state_at_def revisions_ok_def intro: was_current_now[OF assms(3,4)])
next
  case (read_unmodified rep)
  then show ?thesis
    using assms(2) by (auto simp: read_reply_ok_def state_at_def intro: was_current_now[OF assms(3,4)])
qed (use assms(2) in \<open>auto simp: read_reply_ok_def state_at_def no_answer_def
    intro: was_current_now[OF assms(3,4)] split: BackendError.split\<close>)

lemma create_answer_ok:
  assumes "create_answer cont V p bytes reply V'" "p = ok_encoded (mr_key r)" "ex_predicate (mr_expected r) = ExpAbsent"
    and "(n, V) \<in> set h" "(n, V') \<in> set h" "sp_raw (mr_invoked r) \<le> n" "revisions_ok cont V"
  shows "cas_reply_ok h cont r bytes reply \<and> revisions_ok cont V'"
  using assms(1)
proof cases
  case (create_applied rv)
  then show ?thesis
    using assms(2,3,7)
    by (auto simp: cas_reply_ok_def state_at_def revisions_ok_def
        intro: was_current_now[OF assms(4,6)] was_current_now[OF assms(5,6)])
qed (use assms(7) in \<open>auto simp: cas_reply_ok_def no_answer_def split: BackendError.split\<close>)

lemma write_answer_ok:
  assumes "write_answer cont V p bytes rv0 reply V'" "p = ok_encoded (mr_key r)" "ex_predicate (mr_expected r) = ExpPresent rv0"
    and "(n, V) \<in> set h" "(n, V') \<in> set h" "sp_raw (mr_invoked r) \<le> n" "revisions_ok cont V"
  shows "cas_reply_ok h cont r bytes reply \<and> revisions_ok cont V'"
  using assms(1)
proof cases
  case (write_applied rep rv)
  then show ?thesis
    using assms(2,3,7)
    by (auto simp: cas_reply_ok_def state_at_def revisions_ok_def
        intro: was_current_now[OF assms(4,6)] was_current_now[OF assms(5,6)])
next
  case (write_missing e)
  then show ?thesis
    using assms(2,7) by (auto simp: cas_reply_ok_def state_at_def intro!: was_current_now[OF assms(4,6)])
qed (use assms(7) in \<open>auto simp: cas_reply_ok_def no_answer_def split: BackendError.split\<close>)

lemma delete_answer_ok:
  assumes "delete_answer False V p rv0 reply V'" "p = ok_encoded (mr_key r)" "ex_predicate (mr_expected r) = ExpPresent rv0"
    and "(n, V) \<in> set h" "(n, V') \<in> set h" "sp_raw (mr_invoked r) \<le> n" "revisions_ok cont V"
  shows "delete_reply_ok h r reply \<and> revisions_ok cont V'"
  using assms(1)
proof cases
  case (delete_applied rep)
  then show ?thesis
    using assms(2,3,7)
    by (auto simp: delete_reply_ok_def state_at_def revisions_ok_def
        intro: was_current_now[OF assms(4,6)] was_current_now[OF assms(5,6)])
next
  case delete_missing
  then show ?thesis
    using assms(2,7) by (auto simp: delete_reply_ok_def state_at_def intro!: was_current_now[OF assms(4,6)])
qed (use assms(7) in \<open>auto simp: delete_reply_ok_def no_answer_def split: BackendError.split\<close>)


lemma settle_same:
  assumes inv: "sys_inv cd cont own y"
    and st: "\<exists>x. store_ok cd cont (sy_history y) (own @ x) st \<and> (\<forall>ob \<in> obs. obs_ok cd cont (own @ x) ob)
      \<and> (\<forall>c \<in> rcs. receipt_ok cd cont (sy_history y) (own @ x) c)"
    and now: "cs_timeline st = cs_timeline (sy_store y)"
  shows "\<exists>x. sys_inv cd cont (own @ x) (moment (y\<lparr>sy_store := st, sy_pending := sy_pending y - D \<union> {},
    sy_observed := sy_observed y \<union> obs, sy_receipts := sy_receipts y \<union> rcs\<rparr>))"
proof -
  obtain x where x: "store_ok cd cont (sy_history y) (own @ x) st" "\<And>ob. ob \<in> obs \<Longrightarrow> obs_ok cd cont (own @ x) ob"
    "\<And>c. c \<in> rcs \<Longrightarrow> receipt_ok cd cont (sy_history y) (own @ x) c" using st by blast
  have "sys_inv cd cont (own @ x) (moment (y\<lparr>sy_store := st, sy_pending := sy_pending y - D \<union> {},
    sy_observed := sy_observed y \<union> obs, sy_receipts := sy_receipts y \<union> rcs\<rparr>))"
    by (rule settle_inv[OF inv]) (use x now sys_inv_facts(5)[OF inv] in auto)
  then show ?thesis by blast
qed

lemma begin_inv:
  assumes inv: "sys_inv cd cont own y" and st: "store_ok cd cont (sy_history y) own st"
    and now: "sy_now y \<le> tl_last (cs_timeline st)" "tl_last (cs_timeline st) \<le> U64_MAX"
    and pend: "\<And>q. q \<in> new \<Longrightarrow> pending_ok cd cont (sy_history y) (tl_last (cs_timeline st)) own q"
  shows "\<exists>x. sys_inv cd cont (own @ x) (begin_op new st {} y)"
proof -
  have "sys_inv cd cont (own @ []) (moment (y\<lparr>sy_store := st, sy_pending := sy_pending y - {} \<union> new,
    sy_observed := sy_observed y \<union> {}, sy_receipts := sy_receipts y \<union> {}\<rparr>))"
    by (rule settle_inv[OF inv]) (use st now pend in auto)
  then show ?thesis unfolding settle_eq(3) by blast
qed

lemma round_new_timeline:
  assumes "round_new elapsed key mu ex s = (r, s')" "tl_last (cs_timeline s) \<le> U64_MAX"
  shows "tl_last (cs_timeline s) \<le> tl_last (cs_timeline s') \<and> tl_last (cs_timeline s') \<le> U64_MAX"
proof -
  obtain p s1 where ni: "next_invocation elapsed s = (p, s1)" by fastforce
  then have "s' = s1" using assms(1) by (auto simp: round_new_def Let_def)
  then show ?thesis using next_invocation_facts(4,6)[OF ni] assms(2) by simp
qed

lemma begin_timeline:
  "create_begin cd elapsed key absence v s = Inr (r, s') \<Longrightarrow> \<exists>mu ex. round_new elapsed key mu ex s = (r, s')"
  "replace_begin cd elapsed ob v s = Inr (r, s') \<Longrightarrow> \<exists>mu ex. round_new elapsed (ob_key ob) mu ex s = (r, s')"
  "delete_begin cd elapsed ob s = Inr (r, s') \<Longrightarrow> \<exists>mu ex. round_new elapsed (ob_key ob) mu ex s = (r, s')"
  by (auto simp: create_begin_def replace_begin_def delete_begin_def bind_r_ok_iff split: if_splits option.splits)

lemma begin_round_inv:
  assumes inv: "sys_inv cd cont own y"
    and ok: "store_ok cd cont (sy_history y) own st \<and> round_ok cd (tl_last (cs_timeline st)) own r"
    and new: "\<exists>mu ex. round_new elapsed key mu ex (sy_store y) = (r, st)"
  shows "\<exists>x. sys_inv cd cont (own @ x) (begin_op {PendingMutation r} st {} y)"
proof -
  obtain mu ex where "round_new elapsed key mu ex (sy_store y) = (r, st)" using new by blast
  from round_new_timeline[OF this sys_inv_facts(5)[OF inv]] ok show ?thesis
    by (intro begin_inv[OF inv]) auto
qed

lemma answer_step:
  assumes inv: "sys_inv cd cont own y"
    and ok: "pending_ok cd cont (sy_history y @ [(sy_now y, V)]) (sy_now y) own q \<and> revisions_ok cont V"
  shows "\<exists>x. sys_inv cd cont (own @ x) (answer p q V y)"
  using answer_inv[OF inv, of V q p] ok by (intro exI[of _ "[]"]) simp

lemma pending_round_ok:
  assumes inv: "sys_inv cd cont own y" and p: "PendingMutation r \<in> sy_pending y"
  shows "round_ok cd (sy_now y) own r" "sp_raw (mr_invoked r) \<le> sy_now y"
    "mutation_ok cd (ok_object (mr_key r)) (mr_mutation r) (ex_predicate (mr_expected r))"
  using sys_inv_facts(3)[OF inv p] by (simp_all add: round_ok_def)


lemma sys_step_inv:
  assumes inv: "sys_inv cd cont own y" and step: "sys_step cd cont False y y'"
  shows "\<exists>x. sys_inv cd cont (own @ x) y'"
  using step
proof cases
  note f = sys_inv_facts[OF inv]
  let ?h = "sy_history y"
  {
    case (peer V)
    have "sys_inv cd cont (own @ []) (moment (y\<lparr>sy_view := V\<rparr>))"
      by (rule sys_inv_moment[OF inv]) (use f peer in auto)
    then show ?thesis using peer by blast
  next
    case (tick elapsed p st)
    show ?thesis unfolding tick
      by (rule begin_inv[OF inv])
        (use next_invocation_facts[OF tick(2)] f(5) store_ok_timeline[OF _ _ f(1), of st] in auto)
  next
    case (evict path)
    show ?thesis unfolding evict settle_eq
      by (rule settle_same[OF inv]) (use kn_invalidate_ok[OF f(1)] in \<open>auto intro: exI[of _ "[]"]\<close>)
  next
    case (hit key req ob)
    show ?thesis unfolding hit settle_eq
      by (rule settle_same[OF inv]) (use f(1) kn_peek_ok[OF f(1) hit(2,3)] in \<open>auto intro: exI[of _ "[]"]\<close>)
  next
    case (fetch_served key fallback elapsed req fr st)
    have fb: "fallback = Some ob \<Longrightarrow> obs_ok cd cont own ob \<and> ob_key ob = key" for ob using fetch_served(3) f(2) by auto
    show ?thesis unfolding fetch_served settle_eq
      by (rule settle_same[OF inv])
        (use fetch_begin_ok[OF f(1) fetch_served(2) fb fetch_served(4)] in \<open>auto intro: exI[of _ "[]"]\<close>)
  next
    case (fetch_lead key fallback elapsed req r st)
    have fb: "fallback = Some ob \<Longrightarrow> obs_ok cd cont own ob \<and> ob_key ob = key" for ob using fetch_lead(3) f(2) by auto
    note ok = fetch_begin_ok[OF f(1) fetch_lead(2) fb fetch_lead(4)]
    then obtain p where ni: "next_invocation elapsed (sy_store y) = (p, st)" by blast
    show ?thesis unfolding fetch_lead
      by (rule begin_inv[OF inv]) (use ok next_invocation_facts(4,6)[OF ni] f(5) in auto)
  next
    case (read_call r reply)
    have r: "read_round_ok cd cont (sy_now y) own r" using f(3)[OF read_call(2)] by simp
    then have "read_reply_ok (?h @ [(sy_now y, sy_view y)]) cont r reply"
      by (intro read_answer_ok[OF read_call(3) refl, where n = "sy_now y"]) (use f(6) in \<open>auto simp: read_round_ok_def\<close>)
    then show ?thesis unfolding read_call by (intro answer_step[OF inv]) (use r f(6) in simp)
  next
    case (read_done r reply fr st)
    have "pending_ok cd cont ?h (sy_now y) own (ReadReply r reply)" by (rule f(3)[OF read_done(2)])
    then have r: "read_round_ok cd cont (sy_now y) own r" "read_reply_ok ?h cont r reply" by simp_all
    show ?thesis unfolding read_done settle_eq
      by (rule settle_same[OF inv])
        (use do_fetch_ok[OF f(1) r read_done(3)] do_fetch_timeline[OF read_done(3)] in auto)
  next
    case (read_error r reply e st)
    have "pending_ok cd cont ?h (sy_now y) own (ReadReply r reply)" by (rule f(3)[OF read_error(2)])
    then have r: "read_round_ok cd cont (sy_now y) own r" "read_reply_ok ?h cont r reply" by simp_all
    show ?thesis unfolding read_error settle_eq
      by (rule settle_same[OF inv])
        (use do_fetch_ok[OF f(1) r read_error(3)] do_fetch_timeline[OF read_error(3)] in auto)
  next
    case (check_hit ob req res st)
    show ?thesis unfolding check_hit settle_eq
      by (rule settle_same[OF inv])
        (use check_local_ok[OF f(1) f(2)[OF check_hit(2)] check_hit(3)] in \<open>auto intro: exI[of _ "[]"]\<close>)
  next
    case (check_read ob fr res st)
    show ?thesis unfolding check_read settle_eq
      by (rule settle_same[OF inv])
        (use check_fetched_ok[OF f(1) f(2)[OF check_read(2)] f(2)[OF check_read(3)] check_read(4)]
          in \<open>auto intro: exI[of _ "[]"]\<close>)
  next
    case (create_start key absence elapsed v r st)
    have ob: "absence = Some ob \<Longrightarrow> obs_ok cd cont own ob" for ob using create_start(3) f(2) by auto
    show ?thesis unfolding create_start
      by (rule begin_round_inv[OF inv create_begin_ok[OF f(1) create_start(2) ob create_start(4)] begin_timeline(1)[OF create_start(4)]])
  next
    case (replace_start ob elapsed v r st)
    show ?thesis unfolding replace_start
      by (rule begin_round_inv[OF inv replace_begin_ok[OF f(1) f(2)[OF replace_start(2)] replace_start(3)]
          begin_timeline(2)[OF replace_start(3)]])
  next
    case (delete_start ob elapsed r st)
    show ?thesis unfolding delete_start
      by (rule begin_round_inv[OF inv delete_begin_ok[OF f(1) f(2)[OF delete_start(2)] delete_start(3)]
          begin_timeline(3)[OF delete_start(3)]])
  next
    case (create_call r v sz bytes reply V)
    note r = pending_round_ok[OF inv create_call(2)]
    have "cas_reply_ok (?h @ [(sy_now y, V)]) cont r bytes reply \<and> revisions_ok cont V"
      by (rule create_answer_ok[OF create_call(4) refl, where n = "sy_now y"]) (use r create_call(3) f(6,7) in auto)
    then show ?thesis unfolding create_call by (intro answer_step[OF inv]) (use r(1) create_call(3) in auto)
  next
    case (replace_call r v sz bytes rv reply V)
    note r = pending_round_ok[OF inv replace_call(2)]
    have "cas_reply_ok (?h @ [(sy_now y, V)]) cont r bytes reply \<and> revisions_ok cont V"
      by (rule write_answer_ok[OF replace_call(4) refl, where n = "sy_now y"]) (use r replace_call(3) f(6,7) in auto)
    then show ?thesis unfolding replace_call by (intro answer_step[OF inv]) (use r(1) replace_call(3) in auto)
  next
    case (delete_call r rv reply V)
    note r = pending_round_ok[OF inv delete_call(2)]
    have "delete_reply_ok (?h @ [(sy_now y, V)]) r reply \<and> revisions_ok cont V"
      by (rule delete_answer_ok[OF delete_call(4) refl, where n = "sy_now y"]) (use r delete_call(3) f(6,7) in auto)
    then show ?thesis unfolding delete_call by (intro answer_step[OF inv]) (use r(1) in auto)
  next
    case (create_done r reply res st)
    have "pending_ok cd cont ?h (sy_now y) own (CreateReply r reply)" by (rule f(3)[OF create_done(2)])
    then obtain v sz bytes where r: "round_ok cd (sy_now y) own r" "mr_mutation r = MutCreate v sz bytes"
      "cas_reply_ok ?h cont r bytes reply" by auto
    show ?thesis unfolding create_done settle_eq(2)
      by (rule settle_same[OF inv])
        (use create_finish_ok[OF f(1) r create_done(3)] finish_timeline(1)[OF create_done(3)] in \<open>auto simp: receipts_of_def\<close>)
  next
    case (replace_done r reply res st)
    have "pending_ok cd cont ?h (sy_now y) own (ReplaceReply r reply)" by (rule f(3)[OF replace_done(2)])
    then obtain v sz bytes rv where r: "round_ok cd (sy_now y) own r" "mr_mutation r = MutReplace v sz bytes rv"
      "cas_reply_ok ?h cont r bytes reply" by auto
    show ?thesis unfolding replace_done settle_eq(2)
      by (rule settle_same[OF inv])
        (use replace_finish_ok[OF f(1) r replace_done(3)] finish_timeline(2)[OF replace_done(3)] in \<open>auto simp: receipts_of_def\<close>)
  next
    case (delete_done r reply res st)
    have "pending_ok cd cont ?h (sy_now y) own (DeleteReply r reply)" by (rule f(3)[OF delete_done(2)])
    then have r: "round_ok cd (sy_now y) own r" "delete_reply_ok ?h r reply" by simp_all
    show ?thesis unfolding delete_done settle_eq
      by (rule settle_same[OF inv])
        (use delete_finish_ok[OF f(1) r delete_done(3)] finish_timeline(3)[OF delete_done(3)] in auto)
  next
    case (receipt_kept c)
    show ?thesis unfolding receipt_kept settle_eq
      by (rule settle_same[OF inv]) (use f(1) f(4)[OF receipt_kept(2)] in \<open>auto simp: receipt_ok_def intro: exI[of _ "[]"]\<close>)
  next
    case (dropped p r)
    show ?thesis unfolding dropped settle_eq
      by (rule settle_same[OF inv]) (use kn_invalidate_ok[OF f(1)] in \<open>auto simp: round_drop_def intro: exI[of _ "[]"]\<close>)
  }
qed


lemma sys_init_inv:
  "revisions_ok cont V \<Longrightarrow> tl_last t \<le> U64_MAX \<Longrightarrow> sys_inv cd cont [] (sys_init t V)"
  by (simp add: sys_inv_def sys_init_def moment_def store_ok_def cs_new_def)

lemma sys_reach_inv:
  assumes "sys_reach cd cont False t V y" "revisions_ok cont V" "tl_last t \<le> U64_MAX"
  shows "\<exists>own. sys_inv cd cont own y"
  using assms(1)
proof induction
  case reach_init
  then show ?case using sys_init_inv[OF assms(2,3)] by blast
next
  case (reach_step y y')
  then show ?case using sys_step_inv by blast
qed

lemma sys_steps_inv:
  "(sys_step cd cont False)\<^sup>*\<^sup>* y y' \<Longrightarrow> sys_inv cd cont own y \<Longrightarrow> \<exists>own'. sys_inv cd cont own' y'"
  by (induction arbitrary: own rule: converse_rtranclp_induct) (use sys_step_inv in blast)+

lemma sys_step_history: "sys_step cd cont lenient y y' \<Longrightarrow> \<exists>m. sy_history y' = sy_history y @ [m]"
  by (induction rule: sys_step.induct) (auto simp: moment_def begin_op_def settle_def answer_def)

lemma sys_steps_history:
  "(sys_step cd cont lenient)\<^sup>*\<^sup>* y y' \<Longrightarrow> \<exists>ms. sy_history y' = sy_history y @ ms"
  by (induction rule: rtranclp_induct) (use sys_step_history in fastforce)+

text \<open>The contents of a state in the history are those that the observation's value stands for.\<close>

definition shows_state :: "'v codec \<Rightarrow> store_view \<Rightarrow> 'v observation \<Rightarrow> bool" where
  "shows_state cd W ob \<longleftrightarrow>
     (case (W (ok_encoded (ob_key ob)), ob_value ob) of
        (None, None) \<Rightarrow> ob_revision ob = None
      | (Some r, Some v) \<Rightarrow>
          ob_revision ob = Some (rr_revision r)
          \<and> (\<exists>path. object_path_display path = ok_encoded (ob_key ob)
               \<and> (cd_decode cd path (rr_contents r) = Inr v \<or> cd_encode cd path v = Inr (rr_contents r)))
      | _ \<Rightarrow> False)"

lemma obs_ok_shows_state:
  assumes "obs_ok cd cont own ob" "revisions_ok cont W" "state_at W (ok_encoded (ob_key ob)) = ob_revision ob"
  shows "shows_state cd W ob"
proof -
  have v: "holds_value cd cont (ok_encoded (ob_key ob)) (ob_value ob) (ob_revision ob)"
    using assms(1) by (simp add: obs_ok_def)
  show ?thesis
    using v assms(2,3) unfolding shows_state_def state_at_def holds_value_def revisions_ok_def
    by (cases "W (ok_encoded (ob_key ob))"; cases "ob_value ob") (auto split: option.splits)
qed

lemma observed_moment:
  assumes inv: "sys_inv cd cont own y" and ob: "ob \<in> sy_observed y"
  shows "\<exists>(n, W) \<in> set (sy_history y). sp_raw (ev_get (sy_store y) (ob_evidence ob)) \<le> n \<and> shows_state cd W ob"
proof -
  note f = sys_inv_facts[OF inv]
  have ok: "obs_ok cd cont own ob" by (rule f(2)[OF ob])
  then have "was_current (sy_history y) (ok_encoded (ob_key ob)) (ob_revision ob) (ev_get (sy_store y) (ob_evidence ob))"
    by (intro ev_get_current[OF f(1)]) (simp add: obs_ok_def)
  then obtain n W where m: "(n, W) \<in> set (sy_history y)" "sp_raw (ev_get (sy_store y) (ob_evidence ob)) \<le> n"
    "state_at W (ok_encoded (ob_key ob)) = ob_revision ob" by (auto simp: was_current_def)
  have "revisions_ok cont W" using inv m(1) by (auto simp: sys_inv_def)
  from obs_ok_shows_state[OF ok this m(3)] show ?thesis using m by blast
qed

section \<open>Properties\<close>

text \<open>C5: an observation that reaches a currentness barrier shows the state that the backend held at
  some moment after the barrier was captured, whatever operations and peers run in between. The store
  separates contents by revision, reports a delete as successful only when it found the expected
  revision, and the sequence points are not exhausted.\<close>

theorem observation_current_after_barrier:
  assumes reach: "sys_reach cd cont False t V y0" and init: "revisions_ok cont V" "tl_last t \<le> U64_MAX"
    and room: "sy_now y0 < U64_MAX"
    and barrier: "currentness_barrier_of elapsed (cs_timeline (sy_store y0)) = (b, tl1)"
    and steps: "(sys_step cd cont False)\<^sup>*\<^sup>* (begin_op {} ((sy_store y0)\<lparr>cs_timeline := tl1\<rparr>) {} y0) y1"
    and ob: "ob \<in> sy_observed y1" "is_current_after (sy_store y1) ob b"
  shows "\<exists>(n, W) \<in> set (drop (length (sy_history y0)) (sy_history y1)). shows_state cd W ob"
proof -
  let ?y = "begin_op {} ((sy_store y0)\<lparr>cs_timeline := tl1\<rparr>) {} y0"
  obtain p where ni: "next_invocation elapsed (sy_store y0) = (p, (sy_store y0)\<lparr>cs_timeline := tl1\<rparr>)" "b = CurrentnessBarrier p"
    using barrier by (auto simp: next_invocation_def currentness_barrier_of_def map_prod_def split: prod.splits)
  obtain own where inv: "sys_inv cd cont own y0" using sys_reach_inv[OF reach init] by blast
  have "sys_step cd cont False y0 ?y" by (rule tick[OF ni(1)])
  then obtain own' where inv': "sys_inv cd cont own' y1"
    using sys_step_inv[OF inv] sys_steps_inv[OF steps] by blast
  obtain ms where hist: "sy_history y1 = sy_history y0 @ ms"
    using sys_step_history[OF \<open>sys_step cd cont False y0 ?y\<close>] sys_steps_history[OF steps] by auto
  have b: "sy_now y0 < sp_raw p" using next_invocation_facts(3,5)[OF ni(1)] room by simp
  obtain n W where m: "(n, W) \<in> set (sy_history y1)" "sp_raw (ev_get (sy_store y1) (ob_evidence ob)) \<le> n" "shows_state cd W ob"
    using observed_moment[OF inv' ob(1)] by blast
  have "sp_raw p \<le> n"
    using ob(2) m(2) ni(2) by (simp add: is_current_after_def is_reached_by_def less_eq_sequence_point_def)
  then have "(n, W) \<notin> set (sy_history y0)" using inv b by (auto simp: sys_inv_def)
  then show ?thesis using m(1,3) hist by auto
qed

text \<open>C6: a receipt that confirms an observation after a barrier proves that the observed state was the
  backend's at a moment at which the barrier had been captured.\<close>

theorem receipt_confirms_state:
  assumes "sys_reach cd cont False t V y" "revisions_ok cont V" "tl_last t \<le> U64_MAX"
    and "c \<in> sy_receipts y" "confirms_expected c ob b"
  shows "\<exists>(n, W) \<in> set (sy_history y). sp_raw (cb_point b) \<le> n
     \<and> map_option rr_revision (W (ok_encoded (ob_key ob))) = ob_revision ob"
proof -
  obtain own where inv: "sys_inv cd cont own y" using sys_reach_inv assms(1-3) by blast
  have "was_current (sy_history y) (ok_encoded (ob_key ob)) (ob_revision ob) (cr_invoked c)"
    using sys_inv_facts(4)[OF inv assms(4)] assms(5) by (simp add: receipt_ok_def confirms_expected_def)
  then have "was_current (sy_history y) (ok_encoded (ob_key ob)) (ob_revision ob) (cb_point b)"
    using assms(5) was_current_le by (auto simp: confirms_expected_def is_reached_by_def)
  then show ?thesis by (simp add: was_current_def state_at_def)
qed


section \<open>A run\<close>

text \<open>One object, read and then replaced by the same contents.\<close>

definition run_codec :: "unit codec" where
  "run_codec = \<lparr>cd_decode = \<lambda>_ _. Inr (), cd_encode = \<lambda>_ _. Inr [], cd_size = \<lambda>_. 0, cd_accepts = \<lambda>_. True,
     cd_name = ''unit''\<rparr>"

definition run_key :: object_key where
  "run_key = object_key_of (DatabaseMetadata (DbPrefix ''db''))"

definition run_view :: store_view where
  "run_view = [ok_encoded run_key \<mapsto> \<lparr>rr_contents = [], rr_revision = Revision ''a''\<rparr>]"

definition run_ob :: "unit observation" where
  "run_ob = \<lparr>ob_key = run_key, ob_value = Some (), ob_revision = Some (Revision ''a''), ob_evidence = Evidence 0\<rparr>"

definition run_start :: "unit system" where
  "run_start = sys_init \<lparr>tl_base = 0, tl_last = 0\<rparr> run_view"

definition run_barrier :: "unit system" where
  "run_barrier = begin_op {} ((sy_store run_start)\<lparr>cs_timeline := \<lparr>tl_base = 0, tl_last = 1\<rparr>\<rparr>) {} run_start"

definition run_round :: "unit read_round" where
  "run_round = \<lparr>rd_key = run_key, rd_seed = None, rd_invoked = SequencePoint 2\<rparr>"

definition run_reply :: "(BackendError, read_reply) result" where
  "run_reply = Inr \<lparr>rr_contents = [], rr_revision = Revision ''a''\<rparr>"

definition run_store :: "unit cached_store" where
  "run_store = \<lparr>cs_timeline = \<lparr>tl_base = 0, tl_last = 2\<rparr>, cs_cells = [SequencePoint 2],
     cs_cache = [ok_encoded run_key \<mapsto> EntryPresent () 0 (Revision ''a'') (Evidence 0)]\<rparr>"

definition run_read :: "unit system" where
  "run_read = (let y = begin_op {PendingRead run_round} ((sy_store run_barrier)\<lparr>cs_timeline := \<lparr>tl_base = 0, tl_last = 2\<rparr>\<rparr>) {} run_barrier;
     y = answer (PendingRead run_round) (ReadReply run_round run_reply) run_view y
   in settle (ReadReply run_round run_reply) {} run_store {run_ob} y)"

lemmas run_defs = run_codec_def run_view_def run_ob_def run_start_def run_barrier_def run_round_def run_reply_def
  run_store_def sys_init_def moment_def begin_op_def answer_def settle_def cs_new_def

lemma run_timeline:
  "timeline_now 0 \<lparr>tl_base = 0, tl_last = n\<rparr> = (SequencePoint (min U64_MAX (Suc n)), \<lparr>tl_base = 0, tl_last = min U64_MAX (Suc n)\<rparr>)"
  by (simp add: timeline_now_eq saturating_add_def duration_to_nanos_def Let_def)

lemma run_key_ok: "key_ok run_key"
  by (simp add: key_ok_def run_key_def object_key_of_def)

lemma run_reads: "(sys_step run_codec (\<lambda>_ _. []) lenient)\<^sup>*\<^sup>* run_barrier run_read"
proof -
  let ?y1 = "begin_op {PendingRead run_round} ((sy_store run_barrier)\<lparr>cs_timeline := \<lparr>tl_base = 0, tl_last = 2\<rparr>\<rparr>) {} run_barrier"
  let ?y2 = "answer (PendingRead run_round) (ReadReply run_round run_reply) run_view ?y1"
  have beg: "fetch_begin run_codec 0 run_key ANY None (sy_store run_barrier)
      = (ReadLead run_round, (sy_store run_barrier)\<lparr>cs_timeline := \<lparr>tl_base = 0, tl_last = 2\<rparr>\<rparr>)"
    by (simp add: fetch_begin_def kn_peek_def kn_present_seed_def next_invocation_def run_timeline run_defs U64_MAX_def)
  have 1: "sys_step run_codec (\<lambda>_ _. []) lenient run_barrier ?y1"
    by (rule fetch_lead[OF run_key_ok _ beg]) simp
  have 2: "sys_step run_codec (\<lambda>_ _. []) lenient ?y1 ?y2"
  proof -
    have "read_answer (sy_view ?y1) (ok_encoded (rd_key run_round)) (map_option ps_revision (rd_seed run_round)) run_reply"
      unfolding run_reply_def by (rule read_plain) (simp_all add: run_defs)
    moreover have "PendingRead run_round \<in> sy_pending ?y1" "sy_view ?y1 = run_view" by (simp_all add: run_defs)
    ultimately show ?thesis using read_call[of run_round ?y1 run_reply] by simp
  qed
  have 3: "sys_step run_codec (\<lambda>_ _. []) lenient ?y2 run_read"
  proof -
    have "do_fetch run_codec run_round run_reply (sy_store ?y2)
        = (Inr \<lparr>fr_value = Some (), fr_revision = Some (Revision ''a''), fr_evidence = Evidence 0\<rparr>, run_store)"
      by (simp add: do_fetch_def publish_present_def kn_install_fetched_def kn_install_present_def ev_new_def run_defs)
    moreover have "ReadReply run_round run_reply \<in> sy_pending ?y2" by (simp add: run_defs)
    ultimately have "sys_step run_codec (\<lambda>_ _. []) lenient ?y2 (settle (ReadReply run_round run_reply) {} run_store
        {kn_to_observation (rd_key run_round) \<lparr>fr_value = Some (), fr_revision = Some (Revision ''a''), fr_evidence = Evidence 0\<rparr>} ?y2)"
      by (intro read_done)
    then show ?thesis by (simp add: run_read_def Let_def kn_to_observation_def run_ob_def run_round_def)
  qed
  show ?thesis using 1 2 3 by (meson rtranclp.rtrancl_refl rtranclp.rtrancl_into_rtrancl)
qed


theorem observation_current_after_barrier_witness:
  "\<exists>(n, W) \<in> set (drop (length (sy_history run_start)) (sy_history run_read)). shows_state run_codec W run_ob"
proof (rule observation_current_after_barrier[where t = "\<lparr>tl_base = 0, tl_last = 0\<rparr>" and V = run_view and elapsed = 0
      and b = "CurrentnessBarrier (SequencePoint 1)" and cont = "\<lambda>_ _. []"])
  show "sys_reach run_codec (\<lambda>_ _. []) False \<lparr>tl_base = 0, tl_last = 0\<rparr> run_view run_start"
    unfolding run_start_def by (rule reach_init)
  show "(sys_step run_codec (\<lambda>_ _. []) False)\<^sup>*\<^sup>*
     (begin_op {} ((sy_store run_start)\<lparr>cs_timeline := \<lparr>tl_base = 0, tl_last = 1\<rparr>\<rparr>) {} run_start) run_read"
    using run_reads by (simp add: run_barrier_def)
  show "currentness_barrier_of 0 (cs_timeline (sy_store run_start))
      = (CurrentnessBarrier (SequencePoint 1), \<lparr>tl_base = 0, tl_last = 1\<rparr>)"
    by (simp add: currentness_barrier_of_def run_timeline run_defs U64_MAX_def)
qed (auto simp: revisions_ok_def run_read_def Let_def run_defs U64_MAX_def is_current_after_def is_reached_by_def
    less_eq_sequence_point_def ev_get_def split: if_splits)


definition run_mutation :: "unit mutation \<Rightarrow> unit mutation_round" where
  "run_mutation mu = \<lparr>mr_key = run_key, mr_mutation = mu,
     mr_expected = \<lparr>ex_predicate = ExpPresent (Revision ''a''), ex_observation = Some (Evidence 0), ex_cached = None\<rparr>,
     mr_invoked = SequencePoint 3\<rparr>"

abbreviation run_invoked :: "unit cached_store" where
  "run_invoked \<equiv> run_store\<lparr>cs_timeline := \<lparr>tl_base = 0, tl_last = 3\<rparr>\<rparr>"

lemma run_begins:
  "replace_begin run_codec 0 run_ob () run_store
     = Inr (run_mutation (MutReplace () 0 [] (Revision ''a'')), run_invoked)"
  "delete_begin run_codec 0 run_ob run_store = Inr (run_mutation (MutDelete (Revision ''a'')), run_invoked)"
  by (simp_all add: replace_begin_def delete_begin_def check_path_def round_new_def next_invocation_def run_timeline
      kn_expected_present_def kn_capture_expected_def expected_capture_cached_def run_mutation_def run_defs U64_MAX_def)

lemma run_read_facts:
  "sy_store run_read = run_store" "run_ob \<in> sy_observed run_read" "sy_view run_read = run_view" "sy_receipts run_read = {}"
  by (simp_all add: run_read_def Let_def run_defs)

lemma run_reach: "sys_reach run_codec (\<lambda>_ _. []) lenient \<lparr>tl_base = 0, tl_last = 0\<rparr> run_view run_read"
proof -
  have "next_invocation 0 (sy_store run_start)
      = (SequencePoint 1, (sy_store run_start)\<lparr>cs_timeline := \<lparr>tl_base = 0, tl_last = 1\<rparr>\<rparr>)"
    by (simp add: next_invocation_def run_timeline run_defs U64_MAX_def)
  from tick[OF this] have "sys_step run_codec (\<lambda>_ _. []) lenient run_start run_barrier" by (simp add: run_barrier_def)
  moreover have "sys_reach run_codec (\<lambda>_ _. []) lenient \<lparr>tl_base = 0, tl_last = 0\<rparr> run_view run_start"
    unfolding run_start_def by (rule reach_init)
  ultimately have "sys_reach run_codec (\<lambda>_ _. []) lenient \<lparr>tl_base = 0, tl_last = 0\<rparr> run_view run_barrier"
    by (rule reach_step[rotated])
  with run_reads[of lenient] show ?thesis
    by (induction rule: rtranclp_induct) (auto intro: reach_step)
qed

definition run_receipt :: "unit cas_receipt" where
  "run_receipt = \<lparr>cr_expected_revision = Some (Revision ''a''), cr_installed = run_ob, cr_invoked = SequencePoint 3\<rparr>"

lemma run_replaces:
  "\<exists>y. sys_reach run_codec (\<lambda>_ _. []) lenient \<lparr>tl_base = 0, tl_last = 0\<rparr> run_view y \<and> run_receipt \<in> sy_receipts y"
proof -
  let ?r = "run_mutation (MutReplace () 0 [] (Revision ''a''))"
  let ?y1 = "begin_op {PendingMutation ?r} run_invoked {} run_read"
  let ?y2 = "answer (PendingMutation ?r) (ReplaceReply ?r (Inr (Revision ''a''))) run_view ?y1"
  obtain st where fin: "replace_finish ?r (Inr (Revision ''a'')) (sy_store ?y2) = (Inr (CasApplied run_receipt), st)"
    by (simp add: replace_finish_def round_finish_def kn_install_mutation_def kn_install_present_def ev_new_def Let_def
        run_mutation_def run_receipt_def run_defs)
  have "sys_step run_codec (\<lambda>_ _. []) lenient run_read ?y1"
    by (rule replace_start[where ob = run_ob and elapsed = 0 and v = "()"]) (simp_all add: run_read_facts run_begins)
  moreover have "sys_step run_codec (\<lambda>_ _. []) lenient ?y1 ?y2"
  proof (rule replace_call)
    have "write_answer (\<lambda>_ _. []) run_view (ok_encoded (mr_key ?r)) [] (Revision ''a'') (Inr (Revision ''a''))
        (run_view(ok_encoded (mr_key ?r) \<mapsto> \<lparr>rr_contents = [], rr_revision = Revision ''a''\<rparr>))"
      by (rule write_applied[where r = "\<lparr>rr_contents = [], rr_revision = Revision ''a''\<rparr>"])
        (simp_all add: run_view_def run_mutation_def)
    then show "write_answer (\<lambda>_ _. []) (sy_view ?y1) (ok_encoded (mr_key ?r)) [] (Revision ''a'') (Inr (Revision ''a'')) run_view"
      by (simp add: run_read_facts run_mutation_def run_view_def begin_op_def moment_def)
  qed (simp_all add: run_mutation_def begin_op_def moment_def)
  moreover define y3 where "y3 = (settle (ReplaceReply ?r (Inr (Revision ''a''))) {} st {} ?y2)
        \<lparr>sy_receipts := sy_receipts ?y2 \<union> receipts_of (Inr (CasApplied run_receipt))\<rparr>"
  moreover have "sys_step run_codec (\<lambda>_ _. []) lenient ?y2 y3"
    unfolding y3_def by (rule replace_done[OF _ fin]) (simp add: answer_def moment_def)
  ultimately have "sys_reach run_codec (\<lambda>_ _. []) lenient \<lparr>tl_base = 0, tl_last = 0\<rparr> run_view y3"
    using run_reach[of lenient] by (blast intro: reach_step)
  moreover have "run_receipt \<in> sy_receipts y3" by (simp add: y3_def receipts_of_def)
  ultimately show ?thesis by blast
qed

theorem receipt_confirms_state_witness:
  "\<exists>y. \<exists>(n, W) \<in> set (sy_history (y :: unit system)). 1 \<le> n
     \<and> map_option rr_revision (W (ok_encoded run_key)) = Some (Revision ''a'')"
proof -
  obtain y where y: "sys_reach run_codec (\<lambda>_ _. []) False \<lparr>tl_base = 0, tl_last = 0\<rparr> run_view y" "run_receipt \<in> sy_receipts y"
    using run_replaces[of False] by blast
  have "revisions_ok (\<lambda>_ _. []) run_view" by (simp add: revisions_ok_def run_view_def)
  moreover have "confirms_expected run_receipt run_ob (CurrentnessBarrier (SequencePoint 1))"
    by (simp add: confirms_expected_def run_receipt_def is_reached_by_def less_eq_sequence_point_def run_ob_def)
  ultimately have "\<exists>(n, W) \<in> set (sy_history y). sp_raw (cb_point (CurrentnessBarrier (SequencePoint 1))) \<le> n
      \<and> map_option rr_revision (W (ok_encoded (ob_key run_ob))) = ob_revision run_ob"
    by (intro receipt_confirms_state[OF y(1) _ _ y(2)]) (simp_all add: U64_MAX_def)
  then show ?thesis by (intro exI[of _ y]) (simp add: run_ob_def)
qed


text \<open>C32: with a store that reports success for deleting a missing object, as the contract allows,
  a delete can advance the watermark of a state past the moment the state was last current: the
  observation then reaches a barrier although the backend never held its state after it.\<close>

theorem lenient_delete_unsound:
  "\<exists>(y :: unit system) ob b. sys_reach run_codec (\<lambda>_ _. []) True \<lparr>tl_base = 0, tl_last = 0\<rparr> run_view y
     \<and> ob \<in> sy_observed y \<and> is_current_after (sy_store y) ob b
     \<and> \<not> (\<exists>(n, W) \<in> set (sy_history y). sp_raw (cb_point b) \<le> n \<and> shows_state run_codec W ob)"
proof -
  let ?R = "sys_reach run_codec (\<lambda>_ _. []) True \<lparr>tl_base = 0, tl_last = 0\<rparr> run_view"
  let ?S = "sys_step run_codec (\<lambda>_ _. []) True"
  let ?r = "run_mutation (MutDelete (Revision ''a''))"
  let ?y1 = "moment (run_read\<lparr>sy_view := Map.empty\<rparr>)"
  let ?y2 = "begin_op {PendingMutation ?r} run_invoked {} ?y1"
  let ?y3 = "answer (PendingMutation ?r) (DeleteReply ?r (Inr ())) Map.empty ?y2"
  define fin where "fin = delete_finish ?r (Inr ()) (sy_store ?y3)"
  define y4 where "y4 = settle (DeleteReply ?r (Inr ())) {} (snd fin) {ob. fst fin = Inr ob} ?y3"
  have "?S run_read ?y1" by (rule peer) (simp add: revisions_ok_def)
  moreover have "?S ?y1 ?y2"
    by (rule delete_start[where ob = run_ob and elapsed = 0]) (simp_all add: run_read_facts run_begins moment_def)
  moreover have "?S ?y2 ?y3"
    by (rule delete_call[where rv = "Revision ''a''"])
      (auto simp: run_mutation_def begin_op_def moment_def intro: delete_missing_ok)
  moreover have "?S ?y3 y4"
    unfolding y4_def by (rule delete_done[where res' = "fst fin"]) (simp_all add: fin_def answer_def moment_def)
  ultimately have reach: "?R y4" using run_reach[of True] by (blast intro: reach_step)
  have cell: "cs_cells (snd fin) ! 0 = SequencePoint 3"
    by (simp add: fin_def delete_finish_def round_finish_def kn_install_absent_observation_def kn_install_absent_def ev_new_def
        kn_advance_expected_def advance_option_def ev_advance_def ev_get_def Let_def run_mutation_def run_defs
        max_def less_eq_sequence_point_def)
  have hist: "sy_history y4 = sy_history run_read @ [(2, Map.empty), (3, Map.empty), (3, Map.empty),
      (tl_last (cs_timeline (snd fin)), Map.empty)]"
    by (simp add: y4_def settle_def moment_def answer_def begin_op_def run_read_facts run_store_def)
  have old: "\<forall>(n, W) \<in> set (sy_history run_read). n \<le> 2" by (simp add: run_read_def Let_def run_defs)
  have "\<not> shows_state run_codec Map.empty run_ob" by (simp add: shows_state_def run_ob_def)
  then have "\<not> (\<exists>(n, W) \<in> set (sy_history y4). 3 \<le> n \<and> shows_state run_codec W run_ob)"
    using old unfolding hist by fastforce
  moreover have "run_ob \<in> sy_observed y4"
    by (simp add: y4_def settle_def moment_def answer_def begin_op_def run_read_facts)
  moreover have "is_current_after (sy_store y4) run_ob (CurrentnessBarrier (SequencePoint 3))"
    using cell by (simp add: is_current_after_def is_reached_by_def y4_def settle_def moment_def ev_get_def run_ob_def)
  ultimately show ?thesis
    using reach by (intro exI[of _ y4] exI[of _ run_ob] exI[of _ "CurrentnessBarrier (SequencePoint 3)"]) simp
qed

end
