(* ===== verification/Locks.thy ===== *)
theory Locks
  imports Errors
begin

text \<open>
  The lock states of \<^verbatim>\<open>glassdb-storage/src/lock.rs\<close>: holder sets, the shared
  representation \<^verbatim>\<open>LockState\<close>, and the three lock kinds built on it (key locks,
  the shared/exclusive membership lock and the exclusive structural gate), with
  their wire form. Methods on \<^verbatim>\<open>&mut self\<close> return the updated value; a method that
  also reports whether it changed anything returns the pair.

  The locales \<open>exclusive_lock\<close> and \<open>shared_lock\<close> are the contract the rest of the
  program relies on; each is interpreted on every lock kind that has it.
\<close>

section \<open>Wire form\<close>

datatype LockType = LtUnknown | LtNone | LtRead | LtWrite | LtCreate

datatype LockStateError = DuplicateHolder | InvalidHolder | InvalidShape

text \<open>\<^verbatim>\<open>pb::NodeLock\<close>, with the enumeration as the \<^verbatim>\<open>i32\<close> it has on the wire.\<close>

record pb_node_lock =
  pb_lock_type :: int
  pb_locked_by :: "bytes list"

definition lock_type_to_proto :: "LockType \<Rightarrow> int" where
  "lock_type_to_proto typ = (case typ of LtNone \<Rightarrow> 1 | LtRead \<Rightarrow> 2 | LtWrite \<Rightarrow> 3 | LtCreate \<Rightarrow> 4 | LtUnknown \<Rightarrow> 0)"

definition lock_type_from_proto :: "int \<Rightarrow> LockType" where
  "lock_type_from_proto typ =
     (if typ = 1 then LtNone else if typ = 2 then LtRead else if typ = 3 then LtWrite
      else if typ = 4 then LtCreate else LtUnknown)"

section \<open>Holder sets\<close>

text \<open>A sorted vector without duplicates. \<^verbatim>\<open>binary_search\<close> on it finds a holder exactly when
  it is an element.\<close>

type_synonym holder_set = "tx_id list"

fun has_equal_neighbours :: "'a list \<Rightarrow> bool" where
  "has_equal_neighbours (x # y # ys) \<longleftrightarrow> x = y \<or> has_equal_neighbours (y # ys)"
| "has_equal_neighbours _ \<longleftrightarrow> False"

definition hs_from_holders :: "tx_id list \<Rightarrow> (LockStateError, holder_set) result" where
  "hs_from_holders holders =
     (let hs = sort holders
      in if has_equal_neighbours hs then Inl DuplicateHolder else Inr hs)"

definition hs_from_wire :: "bytes list \<Rightarrow> (LockStateError, holder_set) result" where
  "hs_from_wire locked_by =
     (case traverse_r tx_id_try_from locked_by of
        Inl _ \<Rightarrow> Inl InvalidHolder
      | Inr holders \<Rightarrow> hs_from_holders holders)"

definition hs_contains :: "holder_set \<Rightarrow> tx_id \<Rightarrow> bool" where
  [simp]: "hs_contains hs i \<longleftrightarrow> i \<in> set hs"

definition hs_insert :: "tx_id \<Rightarrow> holder_set \<Rightarrow> holder_set" where
  [simp]: "hs_insert i hs = insert_sorted i hs"

definition hs_replace :: "tx_id \<Rightarrow> holder_set \<Rightarrow> holder_set" where
  [simp]: "hs_replace i hs = [i]"

definition hs_remove :: "tx_id \<Rightarrow> holder_set \<Rightarrow> bool \<times> holder_set" where
  [simp]: "hs_remove i hs = (if i \<in> set hs then (True, remove_sorted i hs) else (False, hs))"

definition hs_to_wire :: "holder_set \<Rightarrow> bytes list" where
  "hs_to_wire hs = map tx_bytes hs"

section \<open>Lock states\<close>

record lock_state =
  ls_typ :: LockType
  ls_holders :: holder_set

definition ls_default :: lock_state where
  "ls_default = \<lparr>ls_typ = LtNone, ls_holders = []\<rparr>"

definition ls_from_parts :: "LockType \<Rightarrow> holder_set \<Rightarrow> (LockStateError, lock_state) result" where
  "ls_from_parts typ0 holders =
     (let typ = (if typ0 = LtUnknown \<and> holders = [] then LtNone else typ0);
          ok = Inr \<lparr>ls_typ = typ, ls_holders = holders\<rparr>
      in case (typ, holders) of
           (LtNone, []) \<Rightarrow> ok
         | (LtRead, _ # _) \<Rightarrow> ok
         | (LtWrite, [_]) \<Rightarrow> ok
         | (LtCreate, [_]) \<Rightarrow> ok
         | _ \<Rightarrow> Inl InvalidShape)"

definition ls_from_wire :: "int \<Rightarrow> bytes list \<Rightarrow> (LockStateError, lock_state) result" where
  "ls_from_wire lock_type locked_by =
     (let typ = lock_type_from_proto lock_type
      in bind_r (hs_from_wire locked_by) (ls_from_parts typ))"

definition ls_contains :: "lock_state \<Rightarrow> tx_id \<Rightarrow> bool" where
  [simp]: "ls_contains s i = hs_contains (ls_holders s) i"

definition ls_add_reader :: "tx_id \<Rightarrow> lock_state \<Rightarrow> lock_state" where
  "ls_add_reader i s = s\<lparr>ls_holders := hs_insert i (ls_holders s), ls_typ := LtRead\<rparr>"

definition ls_set_writer :: "tx_id \<Rightarrow> lock_state \<Rightarrow> lock_state" where
  "ls_set_writer i s = s\<lparr>ls_holders := hs_replace i (ls_holders s), ls_typ := LtWrite\<rparr>"

definition ls_set_creator :: "tx_id \<Rightarrow> lock_state \<Rightarrow> lock_state" where
  "ls_set_creator i s = s\<lparr>ls_holders := hs_replace i (ls_holders s), ls_typ := LtCreate\<rparr>"

definition ls_remove :: "tx_id \<Rightarrow> lock_state \<Rightarrow> bool \<times> lock_state" where
  "ls_remove i s =
     (let (removed, hs) = hs_remove i (ls_holders s)
      in (removed, \<lparr>ls_typ = (if hs = [] then LtNone else ls_typ s), ls_holders = hs\<rparr>))"

definition ls_clear :: "lock_state \<Rightarrow> lock_state" where
  "ls_clear s = s\<lparr>ls_typ := LtNone, ls_holders := []\<rparr>"

definition ls_is_empty :: "lock_state \<Rightarrow> bool" where
  "ls_is_empty s \<longleftrightarrow> ls_typ s = LtNone \<and> ls_holders s = []"

definition ls_to_wire :: "lock_state \<Rightarrow> int \<times> bytes list" where
  "ls_to_wire s = (lock_type_to_proto (ls_typ s), hs_to_wire (ls_holders s))"

definition lock_state_from_pb :: "pb_node_lock option \<Rightarrow> (LockStateError, lock_state) result" where
  "lock_state_from_pb raw =
     (case raw of None \<Rightarrow> Inr ls_default
      | Some r \<Rightarrow> ls_from_wire (pb_lock_type r) (pb_locked_by r))"

definition lock_state_to_pb :: "lock_state \<Rightarrow> pb_node_lock" where
  "lock_state_to_pb s =
     (let (lock_type, locked_by) = ls_to_wire s
      in \<lparr>pb_lock_type = lock_type, pb_locked_by = locked_by\<rparr>)"

section \<open>Lock kinds\<close>

datatype key_lock_state = KeyLockState (kl_state: lock_state)
datatype shared_exclusive_lock = SharedExclusiveLock (sx_state: lock_state)
datatype exclusive_gate = ExclusiveGate (eg_state: lock_state)

definition kl_default :: key_lock_state where
  "kl_default = KeyLockState ls_default"

definition kl_lock_type :: "key_lock_state \<Rightarrow> LockType" where
  "kl_lock_type l = ls_typ (kl_state l)"

definition kl_holders :: "key_lock_state \<Rightarrow> tx_id list" where
  "kl_holders l = ls_holders (kl_state l)"

definition kl_contains :: "key_lock_state \<Rightarrow> tx_id \<Rightarrow> bool" where
  "kl_contains l i = ls_contains (kl_state l) i"

definition kl_is_unlocked :: "key_lock_state \<Rightarrow> bool" where
  "kl_is_unlocked l = ls_is_empty (kl_state l)"

definition kl_acquire_read :: "tx_id \<Rightarrow> key_lock_state \<Rightarrow> key_lock_state" where
  "kl_acquire_read i l = KeyLockState (ls_add_reader i (kl_state l))"

definition kl_replace_write :: "tx_id \<Rightarrow> key_lock_state \<Rightarrow> key_lock_state" where
  "kl_replace_write i l = KeyLockState (ls_set_writer i (kl_state l))"

definition kl_replace_create :: "tx_id \<Rightarrow> key_lock_state \<Rightarrow> key_lock_state" where
  "kl_replace_create i l = KeyLockState (ls_set_creator i (kl_state l))"

definition kl_release :: "tx_id \<Rightarrow> key_lock_state \<Rightarrow> bool \<times> key_lock_state" where
  "kl_release i l = map_prod id KeyLockState (ls_remove i (kl_state l))"

definition kl_read :: "tx_id \<Rightarrow> key_lock_state" where
  "kl_read i = kl_acquire_read i kl_default"

definition kl_write :: "tx_id \<Rightarrow> key_lock_state" where
  "kl_write i = kl_replace_write i kl_default"

definition kl_create :: "tx_id \<Rightarrow> key_lock_state" where
  "kl_create i = kl_replace_create i kl_default"

definition kl_from_wire :: "int \<Rightarrow> bytes list \<Rightarrow> (LockStateError, key_lock_state) result" where
  "kl_from_wire lock_type locked_by = map_r KeyLockState (ls_from_wire lock_type locked_by)"

definition kl_to_wire :: "key_lock_state \<Rightarrow> int \<times> bytes list" where
  "kl_to_wire l = ls_to_wire (kl_state l)"

definition sx_default :: shared_exclusive_lock where
  "sx_default = SharedExclusiveLock ls_default"

definition sx_lock_type :: "shared_exclusive_lock \<Rightarrow> LockType" where
  "sx_lock_type l = ls_typ (sx_state l)"

definition sx_holders :: "shared_exclusive_lock \<Rightarrow> tx_id list" where
  "sx_holders l = ls_holders (sx_state l)"

definition sx_contains :: "shared_exclusive_lock \<Rightarrow> tx_id \<Rightarrow> bool" where
  "sx_contains l i = ls_contains (sx_state l) i"

definition sx_add_reader :: "tx_id \<Rightarrow> shared_exclusive_lock \<Rightarrow> shared_exclusive_lock" where
  "sx_add_reader i l = SharedExclusiveLock (ls_add_reader i (sx_state l))"

definition sx_set_writer :: "tx_id \<Rightarrow> shared_exclusive_lock \<Rightarrow> shared_exclusive_lock" where
  "sx_set_writer i l = SharedExclusiveLock (ls_set_writer i (sx_state l))"

definition sx_remove :: "tx_id \<Rightarrow> shared_exclusive_lock \<Rightarrow> bool \<times> shared_exclusive_lock" where
  "sx_remove i l = map_prod id SharedExclusiveLock (ls_remove i (sx_state l))"

definition sx_to_pb :: "shared_exclusive_lock \<Rightarrow> pb_node_lock" where
  "sx_to_pb l = lock_state_to_pb (sx_state l)"

definition sx_from_pb :: "pb_node_lock option \<Rightarrow> (LockStateError, shared_exclusive_lock) result" where
  "sx_from_pb raw =
     bind_r (lock_state_from_pb raw) (\<lambda>state.
       if ls_typ state \<notin> {LtNone, LtRead, LtWrite} then Inl InvalidShape
       else Inr (SharedExclusiveLock state))"

definition sx_is_empty :: "shared_exclusive_lock \<Rightarrow> bool" where
  "sx_is_empty l = ls_is_empty (sx_state l)"

definition sx_clear :: "shared_exclusive_lock \<Rightarrow> shared_exclusive_lock" where
  "sx_clear l = SharedExclusiveLock (ls_clear (sx_state l))"

definition eg_default :: exclusive_gate where
  "eg_default = ExclusiveGate ls_default"

definition eg_lock_type :: "exclusive_gate \<Rightarrow> LockType" where
  "eg_lock_type l = ls_typ (eg_state l)"

definition eg_holders :: "exclusive_gate \<Rightarrow> tx_id list" where
  "eg_holders l = ls_holders (eg_state l)"

definition eg_holder :: "exclusive_gate \<Rightarrow> tx_id option" where
  "eg_holder l = (case ls_holders (eg_state l) of [] \<Rightarrow> None | h # _ \<Rightarrow> Some h)"

definition eg_contains :: "exclusive_gate \<Rightarrow> tx_id \<Rightarrow> bool" where
  "eg_contains l i = ls_contains (eg_state l) i"

definition eg_set_writer :: "tx_id \<Rightarrow> exclusive_gate \<Rightarrow> exclusive_gate" where
  "eg_set_writer i l = ExclusiveGate (ls_set_writer i (eg_state l))"

definition eg_remove :: "tx_id \<Rightarrow> exclusive_gate \<Rightarrow> bool \<times> exclusive_gate" where
  "eg_remove i l = map_prod id ExclusiveGate (ls_remove i (eg_state l))"

definition eg_to_pb :: "exclusive_gate \<Rightarrow> pb_node_lock" where
  "eg_to_pb l = lock_state_to_pb (eg_state l)"

definition eg_from_pb :: "pb_node_lock option \<Rightarrow> (LockStateError, exclusive_gate) result" where
  "eg_from_pb raw =
     bind_r (lock_state_from_pb raw) (\<lambda>state.
       if ls_typ state \<notin> {LtNone, LtWrite} then Inl InvalidShape
       else Inr (ExclusiveGate state))"

definition eg_is_empty :: "exclusive_gate \<Rightarrow> bool" where
  "eg_is_empty l = ls_is_empty (eg_state l)"

definition eg_clear :: "exclusive_gate \<Rightarrow> exclusive_gate" where
  "eg_clear l = ExclusiveGate (ls_clear (eg_state l))"

section \<open>Well-formedness\<close>

text \<open>The states \<open>ls_from_parts\<close> admits: sorted holders of identifier width, and the number of
  holders the type asks for.\<close>

definition shape_ok :: "LockType \<Rightarrow> 'a list \<Rightarrow> bool" where
  "shape_ok typ hs = (case typ of LtNone \<Rightarrow> hs = [] | LtRead \<Rightarrow> hs \<noteq> []
     | LtWrite \<Rightarrow> length hs = 1 | LtCreate \<Rightarrow> length hs = 1 | LtUnknown \<Rightarrow> False)"

definition ls_wf :: "lock_state \<Rightarrow> bool" where
  "ls_wf s \<longleftrightarrow> ascending (ls_holders s) \<and> (\<forall>h \<in> set (ls_holders s). id_ok (tx_bytes h))
     \<and> shape_ok (ls_typ s) (ls_holders s)"

abbreviation tx_ok :: "tx_id \<Rightarrow> bool" where
  "tx_ok i \<equiv> id_ok (tx_bytes i)"

definition kl_wf :: "key_lock_state \<Rightarrow> bool" where
  "kl_wf l \<longleftrightarrow> ls_wf (kl_state l)"

definition sx_wf :: "shared_exclusive_lock \<Rightarrow> bool" where
  "sx_wf l \<longleftrightarrow> ls_wf (sx_state l) \<and> sx_lock_type l \<noteq> LtCreate"

definition eg_wf :: "exclusive_gate \<Rightarrow> bool" where
  "eg_wf l \<longleftrightarrow> ls_wf (eg_state l) \<and> eg_lock_type l \<in> {LtNone, LtWrite}"

lemmas kl_defs = kl_default_def kl_lock_type_def kl_holders_def kl_contains_def kl_is_unlocked_def
  kl_acquire_read_def kl_replace_write_def kl_replace_create_def kl_release_def kl_read_def
  kl_write_def kl_create_def kl_wf_def

lemmas sx_defs = sx_default_def sx_lock_type_def sx_holders_def sx_contains_def sx_add_reader_def
  sx_set_writer_def sx_remove_def sx_is_empty_def sx_clear_def sx_wf_def

lemmas eg_defs = eg_default_def eg_lock_type_def eg_holders_def eg_holder_def eg_contains_def
  eg_set_writer_def eg_remove_def eg_is_empty_def eg_clear_def eg_wf_def

section \<open>Lock states: shape and wire round trip\<close>

lemma equal_neighbours_sorted: "sorted hs \<Longrightarrow> \<not> has_equal_neighbours hs \<longleftrightarrow> ascending hs"
proof (induction hs rule: has_equal_neighbours.induct)
  case (1 x y ys)
  then show ?case by (auto simp: order_less_le)
qed auto

lemma hs_from_holders_ok_iff:
  "hs_from_holders holders = Inr hs \<longleftrightarrow> hs = sort holders \<and> ascending hs"
  using equal_neighbours_sorted[of "sort holders"] by (auto simp: hs_from_holders_def Let_def)

lemma sort_ascending [simp]: "ascending (hs :: 'a::linorder list) \<Longrightarrow> sort hs = hs"
  by (simp add: sorted_sort_id strict_sorted_iff)

lemma traverse_tx_ids:
  "traverse_r tx_id_try_from bss = Inr hs \<longleftrightarrow> bss = map tx_bytes hs \<and> (\<forall>h \<in> set hs. tx_ok h)"
  by (rule traverse_r_iff_map) (rule tx_id_try_from_ok_iff)

lemma hs_from_wire_ok_iff:
  "hs_from_wire bss = Inr hs \<longleftrightarrow>
     (\<exists>hs0. bss = map tx_bytes hs0 \<and> (\<forall>h \<in> set hs0. tx_ok h) \<and> hs = sort hs0 \<and> ascending hs)"
proof (cases "traverse_r tx_id_try_from bss")
  case (Inl e)
  then have "\<not> (bss = map tx_bytes hs0 \<and> (\<forall>h \<in> set hs0. tx_ok h))" for hs0
    using traverse_tx_ids[of bss hs0] by auto
  then show ?thesis using Inl by (auto simp: hs_from_wire_def)
next
  case (Inr hs1)
  then have "bss = map tx_bytes hs1 \<and> (\<forall>h \<in> set hs1. tx_ok h)" using traverse_tx_ids by auto
  then show ?thesis using Inr by (auto simp: hs_from_wire_def hs_from_holders_ok_iff inj_map_eq_map)
qed

lemma ls_from_parts_ok_iff:
  "ls_from_parts typ hs = Inr s \<longleftrightarrow>
     s = \<lparr>ls_typ = (if typ = LtUnknown \<and> hs = [] then LtNone else typ), ls_holders = hs\<rparr>
     \<and> shape_ok (ls_typ s) hs"
  by (cases "typ"; cases hs; cases "tl hs") (auto simp: ls_from_parts_def shape_ok_def)

lemma lock_type_roundtrip [wire_simps]: "lock_type_from_proto (lock_type_to_proto typ) = typ"
  by (cases "typ") (auto simp: lock_type_from_proto_def lock_type_to_proto_def)

lemma ls_from_wire_wf: "ls_from_wire typ bss = Inr s \<Longrightarrow> ls_wf s"
  by (auto simp: ls_from_wire_def bind_r_ok_iff hs_from_wire_ok_iff ls_from_parts_ok_iff ls_wf_def)

lemma ls_wire_roundtrip [wire_simps]:
  assumes "ls_wf s"
  shows "ls_from_wire (lock_type_to_proto (ls_typ s)) (hs_to_wire (ls_holders s)) = Inr s"
proof -
  have "hs_from_wire (hs_to_wire (ls_holders s)) = Inr (ls_holders s)"
    using assms unfolding hs_from_wire_ok_iff
    by (intro exI[of _ "ls_holders s"]) (auto simp: hs_to_wire_def ls_wf_def)
  then show ?thesis using assms
    by (auto simp: ls_from_wire_def ls_from_parts_ok_iff lock_type_roundtrip ls_wf_def shape_ok_def)
qed

lemma lock_state_pb_roundtrip [wire_simps]:
  "ls_wf s \<Longrightarrow> lock_state_from_pb (Some (lock_state_to_pb s)) = Inr s"
  by (simp add: lock_state_from_pb_def lock_state_to_pb_def ls_to_wire_def wire_simps)

lemma lock_state_from_pb_wf: "lock_state_from_pb raw = Inr s \<Longrightarrow> ls_wf s"
  by (auto simp: lock_state_from_pb_def ls_default_def ls_wf_def shape_ok_def
      split: option.splits dest: ls_from_wire_wf)

lemma ls_wf_default [simp, wf_intros]: "ls_wf ls_default"
  by (simp add: ls_default_def ls_wf_def shape_ok_def)

lemma ls_wf_add_reader [simp, wf_intros]: "ls_wf s \<Longrightarrow> tx_ok i \<Longrightarrow> ls_wf (ls_add_reader i s)"
  by (auto simp: ls_wf_def ls_add_reader_def shape_ok_def)

lemma ls_wf_set_writer [simp, wf_intros]: "tx_ok i \<Longrightarrow> ls_wf (ls_set_writer i s)"
  by (auto simp: ls_wf_def ls_set_writer_def shape_ok_def)

lemma ls_wf_set_creator [simp, wf_intros]: "tx_ok i \<Longrightarrow> ls_wf (ls_set_creator i s)"
  by (auto simp: ls_wf_def ls_set_creator_def shape_ok_def)

lemma ls_wf_clear [simp, wf_intros]: "ls_wf (ls_clear s)"
  by (auto simp: ls_wf_def ls_clear_def shape_ok_def)

lemma remove_sorted_singleton [simp]: "remove_sorted x [y] = (if x = y then [] else [y])"
  by (simp add: remove_sorted_def)

lemma ls_remove_result:
  "fst (ls_remove i s) \<longleftrightarrow> i \<in> set (ls_holders s)"
  "ls_holders (snd (ls_remove i s)) = remove_sorted i (ls_holders s)"
  "ls_typ (snd (ls_remove i s)) =
     (if remove_sorted i (ls_holders s) = [] then LtNone else ls_typ s)"
  by (auto simp: ls_remove_def Let_def)

lemma ls_wf_remove [simp, wf_intros]:
  assumes "ls_wf s"
  shows "ls_wf (snd (ls_remove i s))"
proof -
  have "shape_ok (ls_typ s) (remove_sorted i (ls_holders s))"
    if "remove_sorted i (ls_holders s) \<noteq> []"
    using assms that unfolding ls_wf_def shape_ok_def
    by (cases "ls_typ s"; cases "ls_holders s") (auto split: if_splits)
  then show ?thesis using assms
    by (auto simp: ls_wf_def ls_remove_result) (simp add: shape_ok_def)
qed

section \<open>The contract of a lock\<close>

text \<open>What a client of a lock relies on: a writer replaces every holder, a release removes
  exactly its holder and reports whether it was there, and a lock without holders has type
  \<^const>\<open>LtNone\<close>.\<close>

locale exclusive_lock =
  fixes kind :: "'l \<Rightarrow> LockType"
    and holders :: "'l \<Rightarrow> tx_id list"
    and write_lock :: "tx_id \<Rightarrow> 'l \<Rightarrow> 'l"
    and release :: "tx_id \<Rightarrow> 'l \<Rightarrow> bool \<times> 'l"
    and wf :: "'l \<Rightarrow> bool"
  assumes wf_shape: "wf l \<Longrightarrow> ascending (holders l) \<and> shape_ok (kind l) (holders l)"
    and wf_write: "wf l \<Longrightarrow> tx_ok i \<Longrightarrow> wf (write_lock i l)"
    and wf_release: "wf l \<Longrightarrow> wf (snd (release i l))"
    and write_holders: "holders (write_lock i l) = [i]"
    and write_kind: "kind (write_lock i l) = LtWrite"
    and release_holders: "holders (snd (release i l)) = remove_sorted i (holders l)"
    and release_reports: "fst (release i l) \<longleftrightarrow> i \<in> set (holders l)"
    and release_kind: "holders (snd (release i l)) \<noteq> [] \<Longrightarrow> kind (snd (release i l)) = kind l"
begin

lemma unheld_iff: "wf l \<Longrightarrow> kind l = LtNone \<longleftrightarrow> holders l = []"
  using wf_shape[of l] by (cases "kind l") (auto simp: shape_ok_def)

lemma exclusive_holder: "wf l \<Longrightarrow> kind l \<in> {LtWrite, LtCreate} \<Longrightarrow> \<exists>i. holders l = [i]"
  using wf_shape[of l] by (cases "kind l") (auto simp: shape_ok_def length_Suc_conv)

lemma release_writer:
  "wf l \<Longrightarrow> tx_ok i \<Longrightarrow> kind (snd (release i (write_lock i l))) = LtNone"
  using unheld_iff[OF wf_release[OF wf_write]] by (simp add: release_holders write_holders)

lemma wf_release_all: "wf l \<Longrightarrow> wf (fold (\<lambda>i l. snd (release i l)) is l)"
  by (induction "is" arbitrary: l) (auto simp: wf_release)

lemma holders_release_all:
  "set (holders (fold (\<lambda>i l. snd (release i l)) is l)) = set (holders l) - set is"
  by (induction "is" arbitrary: l) (auto simp: release_holders)

text \<open>Releasing every holder, in any order, leaves the lock free.\<close>

lemma release_all_unlocks:
  assumes "wf l" "set (holders l) \<subseteq> set is"
  shows "kind (fold (\<lambda>i l. snd (release i l)) is l) = LtNone"
proof -
  have "holders (fold (\<lambda>i l. snd (release i l)) is l) = []"
    using holders_release_all[of "is" l] assms(2) by (simp add: Diff_eq_empty_iff[THEN iffD2])
  then show ?thesis using unheld_iff[OF wf_release_all[OF assms(1)]] by blast
qed

end

text \<open>A lock that readers share: a reader joins the holders.\<close>

locale shared_lock = exclusive_lock +
  fixes read_lock :: "tx_id \<Rightarrow> 'a \<Rightarrow> 'a"
  assumes wf_read: "wf l \<Longrightarrow> tx_ok i \<Longrightarrow> wf (read_lock i l)"
    and read_holders: "holders (read_lock i l) = insert_sorted i (holders l)"
    and read_kind: "kind (read_lock i l) = LtRead"
begin

lemma wf_read_all: "wf l \<Longrightarrow> \<forall>i \<in> set is. tx_ok i \<Longrightarrow> wf (fold read_lock is l)"
  by (induction "is" arbitrary: l) (auto simp: wf_read)

lemma holders_read_all: "set (holders (fold read_lock is l)) = set is \<union> set (holders l)"
  by (induction "is" arbitrary: l) (auto simp: read_holders)

lemma kind_read_all: "is \<noteq> [] \<Longrightarrow> kind (fold read_lock is l) = LtRead"
proof (induction "is" arbitrary: l)
  case (Cons i "is")
  then show ?case by (cases "is") (auto simp: read_kind)
qed simp

text \<open>A reader that joins and leaves does not disturb the other readers.\<close>

lemma release_reader_keeps:
  assumes "wf l" "i \<notin> set (holders l)" "tx_ok i"
  shows "holders (snd (release i (read_lock i l))) = holders l"
proof (rule ascending_set_eq)
  show "ascending (holders (snd (release i (read_lock i l))))"
    using wf_shape[OF wf_release[OF wf_read[OF assms(1,3)]]] by simp
  show "ascending (holders l)" using wf_shape[OF assms(1)] by simp
qed (use assms in \<open>auto simp: release_holders read_holders\<close>)

end

lemma ls_remove_typ:
  "ls_holders (snd (ls_remove i s)) \<noteq> [] \<Longrightarrow> ls_typ (snd (ls_remove i s)) = ls_typ s"
  by (simp add: ls_remove_result)

interpretation lock_state: shared_lock ls_typ ls_holders ls_set_writer ls_remove ls_wf ls_add_reader
proof unfold_locales
  show "ls_wf l \<Longrightarrow> ascending (ls_holders l) \<and> shape_ok (ls_typ l) (ls_holders l)" for l
    by (simp add: ls_wf_def)
qed (simp_all add: ls_remove_typ, simp_all add: ls_set_writer_def ls_add_reader_def ls_remove_result)

interpretation key_lock: shared_lock kl_lock_type kl_holders kl_replace_write kl_release kl_wf
    kl_acquire_read
  by unfold_locales
    (auto simp: kl_defs lock_state.wf_shape lock_state.release_holders lock_state.release_reports
      lock_state.write_holders lock_state.write_kind lock_state.read_holders lock_state.read_kind
      lock_state.release_kind)

lemma ls_remove_typ_keeps:
  "ls_typ s \<noteq> LtCreate \<Longrightarrow> ls_typ (snd (ls_remove i s)) \<noteq> LtCreate"
  "ls_typ s = LtNone \<or> ls_typ s = LtWrite \<Longrightarrow>
     ls_typ (snd (ls_remove i s)) = LtNone \<or> ls_typ (snd (ls_remove i s)) = LtWrite"
  by (auto simp: ls_remove_result)

interpretation membership_lock: shared_lock sx_lock_type sx_holders sx_set_writer sx_remove sx_wf
    sx_add_reader
  by unfold_locales
    (auto simp: ls_remove_typ_keeps sx_defs lock_state.wf_shape lock_state.release_holders lock_state.release_reports
      lock_state.write_holders lock_state.write_kind lock_state.read_holders lock_state.read_kind
      lock_state.release_kind)

interpretation gate: exclusive_lock eg_lock_type eg_holders eg_set_writer eg_remove eg_wf
  using ls_remove_typ_keeps(2)
  by unfold_locales
    (auto simp: eg_defs lock_state.wf_shape lock_state.release_holders lock_state.release_reports
      lock_state.write_holders lock_state.write_kind lock_state.release_kind)

section \<open>Properties\<close>

text \<open>The states a lock takes: the default, whatever decodes, and what the mutations make of
  them for transaction identities of the right width.\<close>

inductive lock_reach :: "lock_state \<Rightarrow> bool" where
  reach_default: "lock_reach ls_default"
| reach_decoded: "ls_from_wire typ locked_by = Inr s \<Longrightarrow> lock_reach s"
| reach_reader: "lock_reach s \<Longrightarrow> tx_ok i \<Longrightarrow> lock_reach (ls_add_reader i s)"
| reach_writer: "lock_reach s \<Longrightarrow> tx_ok i \<Longrightarrow> lock_reach (ls_set_writer i s)"
| reach_creator: "lock_reach s \<Longrightarrow> tx_ok i \<Longrightarrow> lock_reach (ls_set_creator i s)"
| reach_remove: "lock_reach s \<Longrightarrow> lock_reach (snd (ls_remove i s))"
| reach_clear: "lock_reach s \<Longrightarrow> lock_reach (ls_clear s)"

lemma lock_reach_wf: "lock_reach s \<Longrightarrow> ls_wf s"
  by (induction rule: lock_reach.induct) (auto intro: wf_intros ls_from_wire_wf)

text \<open>C19: every lock state that any sequence of mutations reaches has the number of holders its
  type asks for (none, at least one reader, exactly one writer or creator), in strictly
  increasing order, and its wire form decodes to the same state.\<close>

theorem lock_reach_sound:
  assumes "lock_reach s"
  shows "shape_ok (ls_typ s) (ls_holders s) \<and> ascending (ls_holders s)
    \<and> (case ls_to_wire s of (typ, locked_by) \<Rightarrow> ls_from_wire typ locked_by = Inr s)"
  using lock_reach_wf[OF assms] by (simp add: ls_to_wire_def wire_simps) (simp add: ls_wf_def)

theorem lock_reach_sound_witness:
  "shape_ok (ls_typ (ls_add_reader (TxId (replicate 16 1)) ls_default))
     (ls_holders (ls_add_reader (TxId (replicate 16 1)) ls_default))"
  using lock_reach_sound[OF reach_reader[OF reach_default, of "TxId (replicate 16 1)"]]
  by (simp add: id_ok_def)

text \<open>C20: a message is accepted exactly when it is well shaped, so that a lock state survives the
  wire unchanged if and only if it is well-formed, and decoding never yields any other state.\<close>

theorem lock_wire_roundtrip_iff:
  "ls_from_wire (fst (ls_to_wire s)) (snd (ls_to_wire s)) = Inr s \<longleftrightarrow> ls_wf s"
  using ls_from_wire_wf ls_wire_roundtrip by (auto simp: ls_to_wire_def)

end
