(* ===== verification/TxRecord.thy ===== *)
theory TxRecord
  imports Paths Locks "HOL-Library.Char_ord"
begin

text \<open>
  Transaction records: the lifecycle of a record
  (\<^verbatim>\<open>glassdb-storage/src/transaction/model.rs\<close>), its canonical protobuf form
  (\<^verbatim>\<open>transaction/codec.rs\<close>) and the body facade (\<^verbatim>\<open>txrecord.rs\<close>).

  The prost encoding of the message \<open>pb_transaction_record\<close> to bytes is third-party
  code: \<open>encode_to_vec\<close> and \<open>pb_decode\<close> are arguments of the operations that use them.
  Instants are integers, in nanoseconds since the Unix epoch.
\<close>

section \<open>The order of collection addresses\<close>

text \<open>The derived order of \<^verbatim>\<open>CollectionAddress\<close>: database prefix, then identifier.\<close>

instantiation collection_address :: linorder
begin

definition less_eq_collection_address :: "collection_address \<Rightarrow> collection_address \<Rightarrow> bool" where
  "less_eq_collection_address a b \<longleftrightarrow> (db_str (ca_db_prefix a), ca_id a) \<le> (db_str (ca_db_prefix b), ca_id b)"

definition less_collection_address :: "collection_address \<Rightarrow> collection_address \<Rightarrow> bool" where
  "less_collection_address a b \<longleftrightarrow> (db_str (ca_db_prefix a), ca_id a) < (db_str (ca_db_prefix b), ca_id b)"

instance
proof
  fix x y z :: collection_address
  show "(x < y) = (x \<le> y \<and> \<not> y \<le> x)"
    by (auto simp: less_eq_collection_address_def less_collection_address_def)
  show "x \<le> x" by (simp add: less_eq_collection_address_def)
  show "x \<le> y \<Longrightarrow> y \<le> z \<Longrightarrow> x \<le> z" by (auto simp: less_eq_collection_address_def)
  show "x \<le> y \<Longrightarrow> y \<le> x \<Longrightarrow> x = y"
    by (auto simp: less_eq_collection_address_def collection_address.expand db_prefix.expand)
  show "x \<le> y \<or> y \<le> x" by (auto simp: less_eq_collection_address_def)
qed

end

section \<open>Statuses and the lifecycle graph\<close>

datatype TxCommitStatus = TcUnknown | TcCommitted | TcAborted | TcPending | TcWounded

definition is_final :: "TxCommitStatus \<Rightarrow> bool" where
  "is_final s \<longleftrightarrow> s \<in> {TcCommitted, TcAborted, TcWounded}"

definition is_immutable :: "TxCommitStatus \<Rightarrow> bool" where
  "is_immutable s \<longleftrightarrow> s \<in> {TcCommitted, TcAborted}"

datatype TxRecordState = TsMissing | TsPending | TsWounded | TsCommitted | TsAborted

datatype TxLifecycleRelation = LrSame | LrCanAdvance | LrBlocks

definition try_from_status :: "TxCommitStatus option \<Rightarrow> (StorageError, TxRecordState) result" where
  "try_from_status status =
     (case status of
        None \<Rightarrow> Inr TsMissing
      | Some TcPending \<Rightarrow> Inr TsPending
      | Some TcWounded \<Rightarrow> Inr TsWounded
      | Some TcCommitted \<Rightarrow> Inr TsCommitted
      | Some TcAborted \<Rightarrow> Inr TsAborted
      | Some TcUnknown \<Rightarrow> Inl (OtherError ''unknown is not a persisted transaction status''))"

definition relation_to :: "TxRecordState \<Rightarrow> TxRecordState \<Rightarrow> TxLifecycleRelation" where
  "relation_to current desired =
     (if current = desired then LrSame
      else case (current, desired) of
        (TsMissing, TsPending) \<Rightarrow> LrCanAdvance
      | (TsMissing, TsWounded) \<Rightarrow> LrCanAdvance
      | (TsMissing, TsCommitted) \<Rightarrow> LrCanAdvance
      | (TsMissing, TsAborted) \<Rightarrow> LrCanAdvance
      | (TsPending, TsWounded) \<Rightarrow> LrCanAdvance
      | (TsPending, TsCommitted) \<Rightarrow> LrCanAdvance
      | (TsPending, TsAborted) \<Rightarrow> LrCanAdvance
      | (TsWounded, TsAborted) \<Rightarrow> LrCanAdvance
      | (TsCommitted, TsMissing) \<Rightarrow> LrCanAdvance
      | (TsAborted, TsMissing) \<Rightarrow> LrCanAdvance
      | _ \<Rightarrow> LrBlocks)"

definition validate_lifecycle_transition ::
    "TxCommitStatus option \<Rightarrow> TxCommitStatus option \<Rightarrow> (StorageError, unit) result" where
  "validate_lifecycle_transition current next =
     bind_r (try_from_status current) (\<lambda>current.
     bind_r (try_from_status next) (\<lambda>next.
       if current = TsMissing \<and> next = TsMissing
       then Inl (OtherError ''transaction lifecycle transition has no source or destination'')
       else case relation_to current next of
         LrCanAdvance \<Rightarrow> Inr ()
       | LrSame \<Rightarrow> if current = TsPending \<and> next = TsPending then Inr () else Inl Precondition
       | LrBlocks \<Rightarrow> Inl Precondition))"

section \<open>Records\<close>

datatype TxCollectionOp = OpCreate | OpDrop

record tx_collection_change =
  tc_parent :: collection_address
  tc_name :: collection_name
  tc_collection :: collection_address
  tc_op :: TxCollectionOp

record tx_write =
  tw_key :: logical_key
  tw_value :: bytes
  tw_deleted :: bool

datatype TxLock =
    KeyTxLock logical_key LockType
  | MembershipTxLock leaf_ref LockType
  | DirectoryTxLock collection_address LockType
  | TopologyParticipant collection_address

fun tx_lock_typ :: "TxLock \<Rightarrow> LockType" where
  "tx_lock_typ (KeyTxLock _ t) = t"
| "tx_lock_typ (MembershipTxLock _ t) = t"
| "tx_lock_typ (DirectoryTxLock _ t) = t"
| "tx_lock_typ (TopologyParticipant _) = LtWrite"

record tx_record =
  tr_id :: tx_id
  tr_timestamp :: "int option"
  tr_status :: TxCommitStatus
  tr_writes :: "tx_write list"
  tr_locks :: "TxLock list"
  tr_collection_changes :: "tx_collection_change list"
  tr_prepared_collections :: "collection_address list"

definition tx_record_new :: "tx_id \<Rightarrow> TxCommitStatus \<Rightarrow> tx_record" where
  "tx_record_new i status =
     \<lparr>tr_id = i, tr_timestamp = None, tr_status = status, tr_writes = [], tr_locks = [],
      tr_collection_changes = [], tr_prepared_collections = []\<rparr>"

definition find_write :: "tx_record \<Rightarrow> logical_key \<Rightarrow> tx_write option" where
  "find_write r key = find (\<lambda>w. tw_key w = key) (tr_writes r)"

section \<open>Protobuf messages\<close>

datatype pb_val_delete = PbValue bytes | PbDeleted bool
datatype pb_target = PbRoot bool | PbNodeId bytes

record pb_write =
  pw_key :: bytes
  pw_val_delete :: "pb_val_delete option"

record pb_key_lock =
  pkl_key :: bytes
  pkl_lock_type :: int

record pb_membership_lock =
  pml_lock_type :: int
  pml_target :: "pb_target option"

record pb_collection_locks =
  pcl_key_locks :: "pb_key_lock list"
  pcl_membership_locks :: "pb_membership_lock list"
  pcl_directory_lock :: int
  pcl_topology_participant :: bool

record pb_collection_writes =
  pcw_collection_id :: bytes
  pcw_writes :: "pb_write list"
  pcw_locks :: "pb_collection_locks option"

record pb_collection_change =
  pcc_parent_collection_id :: bytes
  pcc_name :: bytes
  pcc_collection_id :: bytes
  pcc_operation :: int

record pb_timestamp =
  ts_seconds :: int
  ts_nanos :: int

record pb_transaction_record =
  ptr_timestamp :: "pb_timestamp option"
  ptr_status :: int
  ptr_writes :: "pb_collection_writes list"
  ptr_collection_changes :: "pb_collection_change list"
  ptr_prepared_collection_ids :: "bytes list"

text \<open>\<^verbatim>\<open>transaction_record::Status\<close> and \<^verbatim>\<open>collection_change::Operation\<close>; the accessors map an
  unknown number to the default.\<close>

datatype PbStatus = PbDefault | PbCommitted | PbAborted | PbPending | PbWounded

definition pb_status_number :: "PbStatus \<Rightarrow> int" where
  "pb_status_number s = (case s of PbDefault \<Rightarrow> 0 | PbCommitted \<Rightarrow> 1 | PbAborted \<Rightarrow> 2 | PbPending \<Rightarrow> 3 | PbWounded \<Rightarrow> 4)"

definition pb_status :: "int \<Rightarrow> PbStatus" where
  "pb_status n =
     (if n = 1 then PbCommitted else if n = 2 then PbAborted else if n = 3 then PbPending
      else if n = 4 then PbWounded else PbDefault)"

datatype PbOperation = PbOpUnknown | PbOpCreate | PbOpDrop

definition pb_operation_number :: "PbOperation \<Rightarrow> int" where
  "pb_operation_number p = (case p of PbOpUnknown \<Rightarrow> 0 | PbOpCreate \<Rightarrow> 1 | PbOpDrop \<Rightarrow> 2)"

definition pb_operation :: "int \<Rightarrow> PbOperation" where
  "pb_operation n = (if n = 1 then PbOpCreate else if n = 2 then PbOpDrop else PbOpUnknown)"

section \<open>Encoding\<close>

definition NANOS_PER_SEC :: int where
  "NANOS_PER_SEC = 1000000000"

text \<open>\<^verbatim>\<open>duration_since\<close> splits the distance to the epoch into whole seconds and nanoseconds.\<close>

definition system_to_proto_ts :: "int \<Rightarrow> pb_timestamp" where
  "system_to_proto_ts timestamp =
     (if 0 \<le> timestamp
      then \<lparr>ts_seconds = timestamp div NANOS_PER_SEC, ts_nanos = timestamp mod NANOS_PER_SEC\<rparr>
      else \<lparr>ts_seconds = - ((- timestamp) div NANOS_PER_SEC), ts_nanos = - ((- timestamp) mod NANOS_PER_SEC)\<rparr>)"

definition proto_ts_to_system :: "pb_timestamp \<Rightarrow> int" where
  "proto_ts_to_system ts =
     (if 0 \<le> ts_seconds ts
      then ts_seconds ts * NANOS_PER_SEC + max (ts_nanos ts) 0
      else - ((- ts_seconds ts) * NANOS_PER_SEC + \<bar>ts_nanos ts\<bar>))"

definition encode_status :: "TxCommitStatus \<Rightarrow> (StorageError, PbStatus) result" where
  "encode_status status =
     (case status of
        TcCommitted \<Rightarrow> Inr PbCommitted
      | TcAborted \<Rightarrow> Inr PbAborted
      | TcPending \<Rightarrow> Inr PbPending
      | TcWounded \<Rightarrow> Inr PbWounded
      | TcUnknown \<Rightarrow> Inl (OtherError ''unsupported commit status''))"

definition collection_locks_default :: pb_collection_locks where
  "collection_locks_default =
     \<lparr>pcl_key_locks = [], pcl_membership_locks = [], pcl_directory_lock = 0, pcl_topology_participant = False\<rparr>"

definition empty_group :: "collection_address \<Rightarrow> pb_collection_writes" where
  "empty_group c =
     \<lparr>pcw_collection_id = cid_bytes (ca_id c), pcw_writes = [], pcw_locks = Some collection_locks_default\<rparr>"

definition encode_write :: "tx_write \<Rightarrow> pb_write" where
  "encode_write w =
     \<lparr>pw_key = lk_key (tw_key w),
      pw_val_delete = Some (if tw_deleted w then PbDeleted True else PbValue (tw_value w))\<rparr>"

text \<open>\<^verbatim>\<open>entry(c).or_insert_with(empty group)\<close> followed by an update of the group.\<close>

definition add_write :: "tx_write \<Rightarrow> pb_collection_writes \<Rightarrow> pb_collection_writes" where
  "add_write w g = g\<lparr>pcw_writes := pcw_writes g @ [encode_write w]\<rparr>"

definition append_write ::
    "tx_write \<Rightarrow> (collection_address, pb_collection_writes) omap \<Rightarrow> (collection_address, pb_collection_writes) omap" where
  "append_write w = om_upsert empty_group (\<lambda>w. lk_collection (tw_key w)) add_write w"

fun tx_lock_collection :: "TxLock \<Rightarrow> collection_address" where
  "tx_lock_collection (KeyTxLock key _) = lk_collection key"
| "tx_lock_collection (MembershipTxLock leaf _) = leaf_ref_collection leaf"
| "tx_lock_collection (DirectoryTxLock c _) = c"
| "tx_lock_collection (TopologyParticipant c) = c"

definition encode_target :: "leaf_ref \<Rightarrow> pb_target" where
  "encode_target leaf = (case leaf_ref_node_id leaf of Some i \<Rightarrow> PbNodeId (nid_bytes i) | None \<Rightarrow> PbRoot True)"

fun add_to_locks :: "TxLock \<Rightarrow> pb_collection_locks \<Rightarrow> pb_collection_locks" where
  "add_to_locks (KeyTxLock key t) ls =
     ls\<lparr>pcl_key_locks := pcl_key_locks ls @ [\<lparr>pkl_key = lk_key key, pkl_lock_type = lock_type_to_proto t\<rparr>]\<rparr>"
| "add_to_locks (MembershipTxLock leaf t) ls =
     ls\<lparr>pcl_membership_locks :=
        pcl_membership_locks ls @ [\<lparr>pml_lock_type = lock_type_to_proto t, pml_target = Some (encode_target leaf)\<rparr>]\<rparr>"
| "add_to_locks (DirectoryTxLock c t) ls = ls\<lparr>pcl_directory_lock := lock_type_to_proto t\<rparr>"
| "add_to_locks (TopologyParticipant c) ls = ls\<lparr>pcl_topology_participant := True\<rparr>"

definition add_lock :: "TxLock \<Rightarrow> pb_collection_writes \<Rightarrow> pb_collection_writes" where
  "add_lock lock g =
     g\<lparr>pcw_locks := Some (add_to_locks lock (case pcw_locks g of None \<Rightarrow> collection_locks_default | Some l \<Rightarrow> l))\<rparr>"

definition append_lock ::
    "TxLock \<Rightarrow> (collection_address, pb_collection_writes) omap \<Rightarrow> (collection_address, pb_collection_writes) omap" where
  "append_lock lock = om_upsert empty_group tx_lock_collection add_lock lock"

text \<open>\<^verbatim>\<open>validate_database_membership\<close> visits the collections in this order.\<close>

definition record_collections :: "tx_record \<Rightarrow> collection_address list" where
  "record_collections r =
     map (\<lambda>w. lk_collection (tw_key w)) (tr_writes r) @ map tx_lock_collection (tr_locks r)
     @ concat (map (\<lambda>ch. [tc_parent ch, tc_collection ch]) (tr_collection_changes r))
     @ tr_prepared_collections r"

fun check_membership ::
    "db_prefix option \<Rightarrow> db_prefix option \<Rightarrow> collection_address list \<Rightarrow> (StorageError, unit) result" where
  "check_membership expected root [] = Inr ()"
| "check_membership expected root (c # cs) =
     (if (case expected of None \<Rightarrow> False | Some e \<Rightarrow> e \<noteq> ca_db_prefix c)
      then Inl (OtherError ''transaction-record path does not match its database prefix'')
      else case root of
        Some p \<Rightarrow>
          if p \<noteq> ca_db_prefix c
          then Inl (OtherError ''transaction record spans multiple database prefixes'')
          else check_membership expected root cs
      | None \<Rightarrow> check_membership expected (Some (ca_db_prefix c)) cs)"

definition validate_database_membership :: "tx_record \<Rightarrow> db_prefix option \<Rightarrow> (StorageError, unit) result" where
  "validate_database_membership r expected = check_membership expected None (record_collections r)"

definition encode_collection_change :: "tx_collection_change \<Rightarrow> pb_collection_change" where
  "encode_collection_change ch =
     \<lparr>pcc_parent_collection_id = cid_bytes (ca_id (tc_parent ch)),
      pcc_name = name_bytes (tc_name ch),
      pcc_collection_id = cid_bytes (ca_id (tc_collection ch)),
      pcc_operation = pb_operation_number (case tc_op ch of OpCreate \<Rightarrow> PbOpCreate | OpDrop \<Rightarrow> PbOpDrop)\<rparr>"

definition collection_writes_of :: "tx_record \<Rightarrow> (collection_address, pb_collection_writes) omap" where
  "collection_writes_of r = fold append_lock (tr_locks r) (fold append_write (tr_writes r) [])"

definition record_message :: "int \<Rightarrow> PbStatus \<Rightarrow> tx_record \<Rightarrow> pb_transaction_record" where
  "record_message timestamp status r =
     \<lparr>ptr_timestamp = Some (system_to_proto_ts timestamp),
      ptr_status = pb_status_number status,
      ptr_writes = map snd (collection_writes_of r),
      ptr_collection_changes = map encode_collection_change (tr_collection_changes r),
      ptr_prepared_collection_ids = map (\<lambda>c. cid_bytes (ca_id c)) (tr_prepared_collections r)\<rparr>"

definition encode_for_database ::
    "(pb_transaction_record \<Rightarrow> bytes) \<Rightarrow> tx_record \<Rightarrow> db_prefix option \<Rightarrow> (StorageError, bytes) result" where
  "encode_for_database encode_to_vec r expected =
     (case tr_timestamp r of
        None \<Rightarrow> Inl (OtherError ''transaction record has no persisted timestamp'')
      | Some timestamp \<Rightarrow>
          bind_r (validate_database_membership r expected) (\<lambda>_.
          bind_r (encode_status (tr_status r)) (\<lambda>status.
            Inr (encode_to_vec (record_message timestamp status r)))))"

section \<open>Decoding\<close>

definition decode_status :: "PbStatus \<Rightarrow> (StorageError, TxCommitStatus) result" where
  "decode_status status =
     (case status of
        PbCommitted \<Rightarrow> Inr TcCommitted
      | PbAborted \<Rightarrow> Inr TcAborted
      | PbPending \<Rightarrow> Inr TcPending
      | PbWounded \<Rightarrow> Inr TcWounded
      | PbDefault \<Rightarrow> Inl (OtherError ''unknown commit status''))"

definition decode_collection_id :: "db_prefix \<Rightarrow> bytes \<Rightarrow> (StorageError, collection_address) result" where
  "decode_collection_id db i =
     map_r (CollectionAddress db)
       (decode_id collection_id_try_from i ''transaction record has an invalid collection ID'')"

definition write_value :: "pb_write \<Rightarrow> bytes" where
  "write_value w = (case pw_val_delete w of Some (PbValue v) \<Rightarrow> v | _ \<Rightarrow> [])"

definition write_deleted :: "pb_write \<Rightarrow> bool" where
  "write_deleted w = (case pw_val_delete w of Some (PbDeleted True) \<Rightarrow> True | _ \<Rightarrow> False)"

definition decode_writes :: "collection_address \<Rightarrow> pb_write list \<Rightarrow> tx_write list" where
  "decode_writes c =
     map (\<lambda>w. \<lparr>tw_key = LogicalKey c (pw_key w), tw_value = write_value w, tw_deleted = write_deleted w\<rparr>)"

definition decode_key_locks :: "collection_address \<Rightarrow> pb_key_lock list \<Rightarrow> TxLock list" where
  "decode_key_locks c = map (\<lambda>l. KeyTxLock (LogicalKey c (pkl_key l)) (lock_type_from_proto (pkl_lock_type l)))"

definition decode_membership_lock :: "collection_address \<Rightarrow> pb_membership_lock \<Rightarrow> (StorageError, TxLock) result" where
  "decode_membership_lock c l =
     map_r (\<lambda>leaf. MembershipTxLock leaf (lock_type_from_proto (pml_lock_type l)))
       (case pml_target l of
          Some (PbRoot True) \<Rightarrow> Inr (LeafRoot c)
        | Some (PbNodeId i) \<Rightarrow>
            map_r (LeafNode c)
              (decode_id node_id_try_from i ''transaction record has an invalid membership-lock node ID'')
        | _ \<Rightarrow> Inl (OtherError ''transaction record has invalid membership lock''))"

definition decode_membership_locks :: "collection_address \<Rightarrow> pb_membership_lock list \<Rightarrow> (StorageError, TxLock list) result" where
  "decode_membership_locks c = traverse_r (decode_membership_lock c)"

text \<open>One iteration of the loop of \<^verbatim>\<open>decode_collection_writes\<close>: the writes and locks of a group.\<close>

definition decode_group :: "db_prefix \<Rightarrow> pb_collection_writes \<Rightarrow> (StorageError, tx_write list \<times> TxLock list) result" where
  "decode_group db g =
     bind_r (decode_collection_id db (pcw_collection_id g)) (\<lambda>c.
       case pcw_locks g of
         None \<Rightarrow> Inr (decode_writes c (pcw_writes g), [])
       | Some ls \<Rightarrow>
           bind_r (decode_membership_locks c (pcl_membership_locks ls)) (\<lambda>membership.
             let t = lock_type_from_proto (pcl_directory_lock ls)
             in Inr (decode_writes c (pcw_writes g),
                     decode_key_locks c (pcl_key_locks ls) @ membership
                     @ (if t \<in> {LtNone, LtUnknown} then [] else [DirectoryTxLock c t])
                     @ (if pcl_topology_participant ls then [TopologyParticipant c] else []))))"

definition decode_collection_writes ::
    "db_prefix \<Rightarrow> pb_collection_writes list \<Rightarrow> (StorageError, tx_write list \<times> TxLock list) result" where
  "decode_collection_writes db encoded =
     map_r (\<lambda>gs. (concat (map fst gs), concat (map snd gs))) (traverse_r (decode_group db) encoded)"

definition decode_collection_change :: "db_prefix \<Rightarrow> pb_collection_change \<Rightarrow> (StorageError, tx_collection_change) result" where
  "decode_collection_change db ch =
     bind_r (map_err (\<lambda>_. OtherError ''transaction record has an invalid collection name'')
       (collection_name_new (pcc_name ch))) (\<lambda>name.
     bind_r (decode_collection_id db (pcc_parent_collection_id ch)) (\<lambda>parent.
     bind_r (decode_collection_id db (pcc_collection_id ch)) (\<lambda>collection.
       if is_root (ca_id collection)
       then Inl (OtherError ''transaction record changes the permanent root collection'')
       else case pb_operation (pcc_operation ch) of
         PbOpCreate \<Rightarrow> Inr \<lparr>tc_parent = parent, tc_name = name, tc_collection = collection, tc_op = OpCreate\<rparr>
       | PbOpDrop \<Rightarrow> Inr \<lparr>tc_parent = parent, tc_name = name, tc_collection = collection, tc_op = OpDrop\<rparr>
       | PbOpUnknown \<Rightarrow> Inl (OtherError ''transaction record has an unknown collection operation''))))"

definition decode_prepared_collection :: "db_prefix \<Rightarrow> bytes \<Rightarrow> (StorageError, collection_address) result" where
  "decode_prepared_collection db i =
     bind_r (decode_collection_id db i) (\<lambda>c.
       if is_root (ca_id c)
       then Inl (OtherError ''transaction record prepares the permanent root collection'')
       else Inr c)"

definition parse_record :: "(bytes \<Rightarrow> ('e, 'm) result) \<Rightarrow> bytes \<Rightarrow> (StorageError, 'm) result" where
  "parse_record pb_decode buf = map_err (\<lambda>_. OtherError ''unmarshalling transaction record'') (pb_decode buf)"

definition decode_record ::
    "(bytes \<Rightarrow> ('e, pb_transaction_record) result) \<Rightarrow> db_prefix \<Rightarrow> tx_id \<Rightarrow> bytes \<Rightarrow> (StorageError, tx_record) result" where
  "decode_record pb_decode db i buf =
     bind_r (parse_record pb_decode buf) (\<lambda>encoded.
     bind_r (decode_status (pb_status (ptr_status encoded))) (\<lambda>status.
     bind_r (decode_collection_writes db (ptr_writes encoded)) (\<lambda>(writes, locks).
     bind_r (traverse_r (decode_collection_change db) (ptr_collection_changes encoded)) (\<lambda>changes.
     bind_r (traverse_r (decode_prepared_collection db) (ptr_prepared_collection_ids encoded)) (\<lambda>prepared.
       Inr \<lparr>tr_id = i, tr_timestamp = map_option proto_ts_to_system (ptr_timestamp encoded), tr_status = status,
            tr_writes = writes, tr_locks = locks, tr_collection_changes = changes,
            tr_prepared_collections = prepared\<rparr>)))))"

definition record_status ::
    "(bytes \<Rightarrow> ('e, pb_transaction_record) result) \<Rightarrow> bytes \<Rightarrow> (StorageError, TxCommitStatus) result" where
  "record_status pb_decode buf =
     bind_r (parse_record pb_decode buf) (\<lambda>encoded. decode_status (pb_status (ptr_status encoded)))"

text \<open>The \<^verbatim>\<open>Codec\<close> the cached store uses: the path names the database and the transaction.\<close>

definition tx_codec_decode ::
    "(bytes \<Rightarrow> ('e, pb_transaction_record) result) \<Rightarrow> object_path \<Rightarrow> bytes \<Rightarrow> (StorageError, tx_record) result" where
  "tx_codec_decode pb_decode path body =
     (case path of
        Transaction db i \<Rightarrow> decode_record pb_decode db i body
      | _ \<Rightarrow> Inl (OtherError ''transaction record has a non-transaction path''))"

definition tx_codec_encode ::
    "(pb_transaction_record \<Rightarrow> bytes) \<Rightarrow> object_path \<Rightarrow> tx_record \<Rightarrow> (StorageError, bytes) result" where
  "tx_codec_encode encode_to_vec path r =
     (case path of
        Transaction db i \<Rightarrow>
          if i \<noteq> tr_id r then Inl (OtherError ''transaction-record path does not match its ID'')
          else encode_for_database encode_to_vec r (Some db)
      | _ \<Rightarrow> Inl (OtherError ''transaction record has a non-transaction path''))"

text \<open>\<^verbatim>\<open>encode\<close> of \<^verbatim>\<open>txrecord.rs\<close>, with no database expected.\<close>

definition record_encode :: "(pb_transaction_record \<Rightarrow> bytes) \<Rightarrow> tx_record \<Rightarrow> (StorageError, bytes) result" where
  "record_encode encode_to_vec r =
     (case tr_timestamp r of
        None \<Rightarrow> Inl (OtherError ''transaction record has no timestamp/lease'')
      | Some _ \<Rightarrow> encode_for_database encode_to_vec r None)"

section \<open>Well-formed records\<close>

text \<open>The instants that the timestamp codec carries (see \<open>timestamp_roundtrip\<close>).\<close>

definition timestamp_ok :: "int \<Rightarrow> bool" where
  "timestamp_ok t \<longleftrightarrow> 0 \<le> t \<or> t \<le> - NANOS_PER_SEC"

fun tx_lock_ok :: "TxLock \<Rightarrow> bool" where
  "tx_lock_ok (MembershipTxLock (LeafNode c i) t) \<longleftrightarrow> id_ok (nid_bytes i)"
| "tx_lock_ok (DirectoryTxLock c t) \<longleftrightarrow> t \<noteq> LtNone \<and> t \<noteq> LtUnknown"
| "tx_lock_ok l \<longleftrightarrow> True"

text \<open>One type per locked directory: the message has a single field for it.\<close>

definition directories_ok :: "TxLock list \<Rightarrow> bool" where
  "directories_ok ls \<longleftrightarrow>
     (\<forall>c t u. DirectoryTxLock c t \<in> set ls \<longrightarrow> DirectoryTxLock c u \<in> set ls \<longrightarrow> t = u)"

definition tx_record_ok :: "db_prefix \<Rightarrow> tx_record \<Rightarrow> bool" where
  "tx_record_ok db r \<longleftrightarrow>
     tr_status r \<noteq> TcUnknown
     \<and> (\<forall>c \<in> set (record_collections r). ca_db_prefix c = db \<and> id_ok (cid_bytes (ca_id c)))
     \<and> (\<forall>l \<in> set (tr_locks r). tx_lock_ok l) \<and> directories_ok (tr_locks r)
     \<and> (\<forall>ch \<in> set (tr_collection_changes r).
          \<not> is_root (ca_id (tc_collection ch)) \<and> collection_name_new (name_bytes (tc_name ch)) = Inr (tc_name ch))
     \<and> (\<forall>c \<in> set (tr_prepared_collections r). \<not> is_root (ca_id c))"

text \<open>A deleted write keeps no value.\<close>

definition normal_write :: "tx_write \<Rightarrow> tx_write" where
  "normal_write w = (if tw_deleted w then w\<lparr>tw_value := []\<rparr> else w)"

section \<open>Lemmas\<close>

lemma pb_status_number_roundtrip [wire_simps]: "pb_status (pb_status_number s) = s"
  by (cases s) (simp_all add: pb_status_def pb_status_number_def)

lemma pb_operation_number_roundtrip [wire_simps]: "pb_operation (pb_operation_number p) = p"
  by (cases p) (simp_all add: pb_operation_def pb_operation_number_def)

lemma encode_decode_status: "encode_status s = Inr p \<Longrightarrow> decode_status p = Inr s"
  by (cases s) (auto simp: encode_status_def decode_status_def)

lemma encode_status_ok: "s \<noteq> TcUnknown \<Longrightarrow> \<exists>p. encode_status s = Inr p"
  by (cases s) (auto simp: encode_status_def)

lemma fold_add_write: "fold add_write ws g = g\<lparr>pcw_writes := pcw_writes g @ map encode_write ws\<rparr>"
  by (induction ws arbitrary: g) (simp_all add: add_write_def)

lemma fold_add_lock:
  "pcw_locks g = Some l \<Longrightarrow> fold add_lock ls g = g\<lparr>pcw_locks := Some (fold add_to_locks ls l)\<rparr>"
  by (induction ls arbitrary: g l) (simp_all add: add_lock_def)

text \<open>The group of a collection holds its writes and locks in the order of the record.\<close>

definition group_of :: "collection_address \<Rightarrow> tx_write list \<Rightarrow> TxLock list \<Rightarrow> pb_collection_writes" where
  "group_of c ws ls =
     \<lparr>pcw_collection_id = cid_bytes (ca_id c), pcw_writes = map encode_write ws,
      pcw_locks = Some (fold add_to_locks ls collection_locks_default)\<rparr>"

definition writes_in :: "tx_record \<Rightarrow> collection_address \<Rightarrow> tx_write list" where
  "writes_in r c = filter (\<lambda>w. lk_collection (tw_key w) = c) (tr_writes r)"

definition locks_in :: "tx_record \<Rightarrow> collection_address \<Rightarrow> TxLock list" where
  "locks_in r c = filter (\<lambda>l. tx_lock_collection l = c) (tr_locks r)"

lemma append_upsert:
  "append_write = om_upsert empty_group (\<lambda>w. lk_collection (tw_key w)) add_write"
  "append_lock = om_upsert empty_group tx_lock_collection add_lock"
  by (rule ext, simp add: append_write_def append_lock_def)+

lemma collection_writes_keys:
  "set (om_keys (collection_writes_of r))
   = (\<lambda>w. lk_collection (tw_key w)) ` set (tr_writes r) \<union> tx_lock_collection ` set (tr_locks r)"
  unfolding collection_writes_of_def append_upsert om_keys_fold_upsert by auto

lemma collection_writes_wf: "om_wf (collection_writes_of r)"
  unfolding collection_writes_of_def append_upsert by simp

lemma collection_writes_lookup:
  assumes "c \<in> set (om_keys (collection_writes_of r))"
  shows "map_of (collection_writes_of r) c = Some (group_of c (writes_in r c) (locks_in r c))"
proof -
  let ?M = "fold append_write (tr_writes r) []"
  let ?g = "fold add_write (writes_in r c) (empty_group c)"
  have M: "map_of ?M c = (if \<exists>w \<in> set (tr_writes r). lk_collection (tw_key w) = c then Some ?g else None)"
    unfolding append_upsert writes_in_def by (subst map_of_fold_upsert) auto
  have g: "(case map_of ?M c of None \<Rightarrow> empty_group c | Some v \<Rightarrow> v) = ?g"
    by (auto simp: M writes_in_def filter_empty_conv)
  have wf: "om_wf ?M" unfolding append_upsert by simp
  have "map_of (collection_writes_of r) c = Some (fold add_lock (locks_in r c) ?g)"
  proof (cases "\<exists>l \<in> set (tr_locks r). tx_lock_collection l = c")
    case True
    then show ?thesis
      unfolding collection_writes_of_def append_upsert(2) locks_in_def
      by (subst map_of_fold_upsert[OF wf]) (simp add: g)
  next
    case False
    then have "locks_in r c = []" "\<exists>w \<in> set (tr_writes r). lk_collection (tw_key w) = c"
      using assms unfolding collection_writes_keys by (auto simp: locks_in_def filter_empty_conv)
    then show ?thesis
      using False M unfolding collection_writes_of_def append_upsert(2)
      by (subst map_of_fold_upsert[OF wf]) auto
  qed
  then show ?thesis
    by (simp add: fold_add_write fold_add_lock empty_group_def group_of_def)
qed

section \<open>Decoding what was encoded\<close>

lemma decode_collection_id_ok:
  "ca_db_prefix c = db \<Longrightarrow> id_ok (cid_bytes (ca_id c)) \<Longrightarrow> decode_collection_id db (cid_bytes (ca_id c)) = Inr c"
  by (cases c) (auto simp: decode_collection_id_def map_r_ok_iff decode_id_ok_iff try_from_ok_iff)

lemma decode_writes_encode:
  assumes "\<And>w. w \<in> set ws \<Longrightarrow> lk_collection (tw_key w) = c"
  shows "decode_writes c (map encode_write ws) = map normal_write ws"
  using assms
proof (induction ws)
  case (Cons w ws)
  have "lk_collection (tw_key w) = c" using Cons.prems[of w] by simp
  then have "LogicalKey c (lk_key (tw_key w)) = tw_key w" by (cases "tw_key w") auto
  then show ?case
    using Cons
    by (auto simp: decode_writes_def encode_write_def write_value_def write_deleted_def normal_write_def)
qed (simp add: decode_writes_def)

lemma traverse_r_append:
  "traverse_r f xs = Inr ys \<Longrightarrow> f x = Inr y \<Longrightarrow> traverse_r f (xs @ [x]) = Inr (ys @ [y])"
  by (simp add: traverse_r_iff_all2 list_all2_appendI)

lemma decode_membership_lock_encode:
  assumes "tx_lock_ok (MembershipTxLock leaf t)" "leaf_ref_collection leaf = c"
  shows "decode_membership_lock c \<lparr>pml_lock_type = lock_type_to_proto t, pml_target = Some (encode_target leaf)\<rparr>
         = Inr (MembershipTxLock leaf t)"
  using assms
  by (cases leaf)
    (auto simp: decode_membership_lock_def encode_target_def lock_type_roundtrip map_r_ok_iff decode_id_ok_iff
      try_from_ok_iff)

text \<open>The four parts of the locks of a group.\<close>

lemma fold_add_to_locks_parts:
  assumes "\<forall>l \<in> set ls. tx_lock_collection l = c \<and> tx_lock_ok l" "directories_ok ls"
  defines "p \<equiv> fold add_to_locks ls collection_locks_default"
  shows "set (decode_key_locks c (pcl_key_locks p)) = {l \<in> set ls. \<exists>k t. l = KeyTxLock k t}"
    and "\<exists>ms. decode_membership_locks c (pcl_membership_locks p) = Inr ms
           \<and> set ms = {l \<in> set ls. \<exists>k t. l = MembershipTxLock k t}"
    and "pcl_directory_lock p = 0 \<and> (\<forall>t. DirectoryTxLock c t \<notin> set ls)
         \<or> (\<exists>t. pcl_directory_lock p = lock_type_to_proto t \<and> DirectoryTxLock c t \<in> set ls)"
    and "pcl_topology_participant p \<longleftrightarrow> TopologyParticipant c \<in> set ls"
proof -
  have snoc: "fold add_to_locks (ls @ [l]) d = add_to_locks l (fold add_to_locks ls d)" for ls l d
    by simp
  note [simp] = collection_locks_default_def decode_key_locks_def decode_membership_locks_def
  show "set (decode_key_locks c (pcl_key_locks p)) = {l \<in> set ls. \<exists>k t. l = KeyTxLock k t}"
    using assms(1) unfolding p_def
  proof (induction ls rule: rev_induct)
    case (snoc l ls)
    then show ?case
    proof (cases l)
      case (KeyTxLock k t)
      then have "LogicalKey c (lk_key k) = k" using snoc by (cases k) auto
      then show ?thesis using snoc KeyTxLock by (auto simp: lock_type_roundtrip)
    qed auto
  qed simp
  show "\<exists>ms. decode_membership_locks c (pcl_membership_locks p) = Inr ms
           \<and> set ms = {l \<in> set ls. \<exists>k t. l = MembershipTxLock k t}"
    using assms(1) unfolding p_def
  proof (induction ls rule: rev_induct)
    case (snoc l ls)
    then obtain ms where ms:
      "decode_membership_locks c (pcl_membership_locks (fold add_to_locks ls collection_locks_default)) = Inr ms"
      "set ms = {l \<in> set ls. \<exists>k t. l = MembershipTxLock k t}" by auto
    show ?case
    proof (cases l)
      case (MembershipTxLock k t)
      then have "decode_membership_lock c \<lparr>pml_lock_type = lock_type_to_proto t, pml_target = Some (encode_target k)\<rparr> = Inr l"
        using snoc.prems decode_membership_lock_encode[of k t c] by simp
      from traverse_r_append[where f = "decode_membership_lock c", OF _ this] show ?thesis
        using ms MembershipTxLock by (intro exI[of _ "ms @ [l]"]) auto
    qed (use ms in auto)
  qed simp
  show "pcl_directory_lock p = 0 \<and> (\<forall>t. DirectoryTxLock c t \<notin> set ls)
         \<or> (\<exists>t. pcl_directory_lock p = lock_type_to_proto t \<and> DirectoryTxLock c t \<in> set ls)"
    using assms(1) unfolding p_def
  proof (induction ls rule: rev_induct)
    case (snoc l ls)
    then show ?case by (cases l) auto
  qed simp
  show "pcl_topology_participant p \<longleftrightarrow> TopologyParticipant c \<in> set ls"
    using assms(1) unfolding p_def
  proof (induction ls rule: rev_induct)
    case (snoc l ls)
    then show ?case by (cases l) auto
  qed simp
qed

lemma decode_group_encode:
  assumes "ca_db_prefix c = db" "id_ok (cid_bytes (ca_id c))"
    and ws: "\<forall>w \<in> set ws. lk_collection (tw_key w) = c"
    and ls: "\<forall>l \<in> set ls. tx_lock_collection l = c \<and> tx_lock_ok l" "directories_ok ls"
  shows "\<exists>L. decode_group db (group_of c ws ls) = Inr (map normal_write ws, L) \<and> set L = set ls"
proof -
  note parts = fold_add_to_locks_parts[OF ls]
  let ?p = "fold add_to_locks ls collection_locks_default"
  let ?t = "lock_type_from_proto (pcl_directory_lock ?p)"
  let ?D = "if ?t \<in> {LtNone, LtUnknown} then [] else [DirectoryTxLock c ?t]"
  have mine: "DirectoryTxLock d u \<in> set ls \<Longrightarrow> d = c \<and> u \<noteq> LtNone \<and> u \<noteq> LtUnknown" for d u
    using ls(1) by force
  have D: "set ?D = {l \<in> set ls. \<exists>d t. l = DirectoryTxLock d t}"
  proof (cases "\<exists>u. DirectoryTxLock c u \<in> set ls")
    case True
    then obtain u where u: "DirectoryTxLock c u \<in> set ls" "pcl_directory_lock ?p = lock_type_to_proto u"
      using parts(3) by blast
    then have "DirectoryTxLock d v \<in> set ls \<longleftrightarrow> d = c \<and> v = u" for d v
      using ls(2) mine unfolding directories_ok_def by blast
    then show ?thesis using mine[OF u(1)] u by (auto simp: lock_type_roundtrip)
  next
    case False
    then have "pcl_directory_lock ?p = 0" using parts(3) by blast
    then show ?thesis using False mine by (auto simp: lock_type_from_proto_def)
  qed
  obtain ms where ms: "decode_membership_locks c (pcl_membership_locks ?p) = Inr ms"
    "set ms = {l \<in> set ls. \<exists>k t. l = MembershipTxLock k t}" using parts(2) by auto
  let ?L = "decode_key_locks c (pcl_key_locks ?p) @ ms @ ?D
      @ (if pcl_topology_participant ?p then [TopologyParticipant c] else [])"
  have "decode_group db (group_of c ws ls) = Inr (map normal_write ws, ?L)"
    using ms(1) ws decode_writes_encode[of ws c]
    by (simp add: decode_group_def group_of_def decode_collection_id_ok assms(1,2) Let_def)
  moreover have "set ?L = set ls"
  proof -
    have "TopologyParticipant d \<in> set ls \<Longrightarrow> tx_lock_collection (TopologyParticipant d) = c" for d
      using ls by blast
    then have topo: "TopologyParticipant d \<in> set ls \<Longrightarrow> d = c" for d
      unfolding tx_lock_collection.simps by blast
    have "l \<in> set ?L \<longleftrightarrow> l \<in> set ls" for l
      unfolding set_append parts(1) ms(2) D by (cases l) (auto simp: parts(4) dest: topo)
    then show ?thesis by blast
  qed
  ultimately show ?thesis by blast
qed

lemma filter_concat_group:
  assumes "distinct ks" "\<And>k x. k \<in> set ks \<Longrightarrow> x \<in> set (W k) \<Longrightarrow> key x = k"
  shows "filter (\<lambda>x. key x = c) (concat (map W ks)) = (if c \<in> set ks then W c else [])"
  using assms
proof (induction ks)
  case (Cons k ks)
  have "filter (\<lambda>x. key x = c) (W k) = (if c = k then W k else [])"
    using Cons.prems(2)[of k] by (auto simp: filter_id_conv filter_empty_conv)
  then show ?case using Cons by auto
qed simp

text \<open>All groups of a record decode, each to the writes and locks of its collection.\<close>

lemma decode_collection_writes_encode:
  assumes "tx_record_ok db r"
  obtains ws ls where "decode_collection_writes db (map snd (collection_writes_of r)) = Inr (ws, ls)"
    and "\<And>c. filter (\<lambda>w. lk_collection (tw_key w) = c) ws = map normal_write (writes_in r c)"
    and "set ls = set (tr_locks r)"
proof -
  let ?M = "collection_writes_of r" and ?K = "om_keys (collection_writes_of r)"
  let ?group = "\<lambda>c. group_of c (writes_in r c) (locks_in r c)"
  have "\<exists>L. decode_group db (?group c) = Inr (map normal_write (writes_in r c), L) \<and> set L = set (locks_in r c)"
    if "c \<in> set ?K" for c
  proof (rule decode_group_encode)
    have "c \<in> set (record_collections r)"
      using that unfolding collection_writes_keys record_collections_def by auto
    then show "ca_db_prefix c = db" "id_ok (cid_bytes (ca_id c))" using assms by (auto simp: tx_record_ok_def)
    show "directories_ok (locks_in r c)"
      using assms unfolding tx_record_ok_def directories_ok_def locks_in_def set_filter mem_Collect_eq by blast
    show "\<forall>l \<in> set (locks_in r c). tx_lock_collection l = c \<and> tx_lock_ok l"
      using assms by (simp add: tx_record_ok_def locks_in_def)
  qed (simp add: writes_in_def)
  then have "\<forall>c \<in> set ?K. \<exists>L. decode_group db (?group c) = Inr (map normal_write (writes_in r c), L)
      \<and> set L = set (locks_in r c)" by blast
  from bchoice[OF this] obtain L where L: "\<And>c. c \<in> set ?K \<Longrightarrow>
      decode_group db (?group c) = Inr (map normal_write (writes_in r c), L c) \<and> set (L c) = set (locks_in r c)"
    by blast
  have M: "?M = map (\<lambda>c. (c, ?group c)) ?K"
  proof (rule nth_equalityI)
    fix i assume i: "i < length ?M"
    have "?M ! i \<in> set ?M" using i by simp
    then have "map_of ?M (fst (?M ! i)) = Some (snd (?M ! i))"
      using om_wf_distinct[OF collection_writes_wf[of r]] by simp
    moreover have "fst (?M ! i) \<in> set ?K" using i by simp
    ultimately show "?M ! i = map (\<lambda>c. (c, ?group c)) ?K ! i"
      using collection_writes_lookup[of "fst (?M ! i)" r] i by (simp add: prod_eq_iff)
  qed simp
  have "traverse_r (decode_group db) (map ?group ?K) = Inr (map (\<lambda>c. (map normal_write (writes_in r c), L c)) ?K)"
    unfolding traverse_r_iff_all2 using L by (auto simp: list_all2_conv_all_nth)
  then have dec: "decode_collection_writes db (map snd ?M)
      = Inr (concat (map (\<lambda>c. map normal_write (writes_in r c)) ?K), concat (map L ?K))"
    by (subst M) (simp add: decode_collection_writes_def comp_def)
  moreover have "filter (\<lambda>w. lk_collection (tw_key w) = c) (concat (map (\<lambda>c. map normal_write (writes_in r c)) ?K))
      = map normal_write (writes_in r c)" for c
  proof -
    have "c \<notin> set ?K \<Longrightarrow> writes_in r c = []"
      unfolding collection_writes_keys by (auto simp: writes_in_def filter_empty_conv)
    then show ?thesis
      using om_wf_distinct[OF collection_writes_wf[of r]]
      by (subst filter_concat_group) (auto simp: writes_in_def normal_write_def split: if_splits)
  qed
  moreover have "set (concat (map L ?K)) = set (tr_locks r)"
  proof -
    have "set (concat (map L ?K)) = (\<Union>c \<in> set ?K. set (L c))" by simp
    also have "\<dots> = (\<Union>c \<in> set ?K. set (locks_in r c))" using L by (intro SUP_cong) blast+
    also have "\<dots> = set (tr_locks r)"
      unfolding collection_writes_keys locks_in_def set_filter by blast
    finally show ?thesis .
  qed
  ultimately show ?thesis by (rule that)
qed

lemma find_in_collection:
  "find_write r key = find (\<lambda>w. tw_key w = key) (filter (\<lambda>w. lk_collection (tw_key w) = lk_collection key) (tr_writes r))"
proof -
  have "find (\<lambda>w. tw_key w = key) (filter (\<lambda>w. lk_collection (tw_key w) = lk_collection key) ws)
      = find (\<lambda>w. tw_key w = key) ws" for ws :: "tx_write list"
    by (induction ws) auto
  then show ?thesis by (simp add: find_write_def)
qed

lemma find_normal_write:
  "find (\<lambda>w. tw_key w = key) (map normal_write ws) = map_option normal_write (find (\<lambda>w. tw_key w = key) ws)"
  by (induction ws) (auto simp: normal_write_def)

lemma check_membership_ok:
  "(\<forall>c \<in> set cs. ca_db_prefix c = db) \<Longrightarrow> root \<in> {None, Some db} \<Longrightarrow> check_membership (Some db) root cs = Inr ()"
  by (induction cs arbitrary: root) auto

section \<open>Properties\<close>

lemma timestamp_roundtrip_eq:
  "proto_ts_to_system (system_to_proto_ts t) = (if - NANOS_PER_SEC < t \<and> t < 0 then 0 else t)"
proof (cases "0 \<le> t")
  case True
  then show ?thesis
    by (simp add: proto_ts_to_system_def system_to_proto_ts_def NANOS_PER_SEC_def pos_imp_zdiv_nonneg_iff)
next
  case False
  define q m where "q = (- t) div NANOS_PER_SEC" and "m = (- t) mod NANOS_PER_SEC"
  have t: "t = - (q * NANOS_PER_SEC + m)" and m: "0 \<le> m" "m < NANOS_PER_SEC" and q: "0 \<le> q"
    using False by (simp_all add: q_def m_def NANOS_PER_SEC_def pos_imp_zdiv_nonneg_iff)
  have "system_to_proto_ts t = \<lparr>ts_seconds = - q, ts_nanos = - m\<rparr>"
    using False by (simp add: system_to_proto_ts_def q_def m_def)
  moreover have "- NANOS_PER_SEC < t \<longleftrightarrow> q = 0"
    using t m q by (auto simp: NANOS_PER_SEC_def)
  moreover have "proto_ts_to_system \<lparr>ts_seconds = - q, ts_nanos = - m\<rparr> = (if q = 0 then 0 else - (q * NANOS_PER_SEC + m))"
    using m q by (simp add: proto_ts_to_system_def)
  ultimately show ?thesis using False t by simp
qed

text \<open>C38: the timestamp codec returns the instant it was given exactly when the instant is not less
  than one second before the epoch.\<close>

theorem timestamp_roundtrip:
  "proto_ts_to_system (system_to_proto_ts t) = t \<longleftrightarrow> timestamp_ok t"
  unfolding timestamp_roundtrip_eq timestamp_ok_def by auto

lemma decode_changes_encode:
  assumes "tx_record_ok db r"
  shows "traverse_r (decode_collection_change db) (map encode_collection_change (tr_collection_changes r))
           = Inr (tr_collection_changes r)"
    and "traverse_r (decode_prepared_collection db) (map (\<lambda>c. cid_bytes (ca_id c)) (tr_prepared_collections r))
           = Inr (tr_prepared_collections r)"
proof -
  have ids: "decode_collection_id db (cid_bytes (ca_id c)) = Inr c" if "c \<in> set (record_collections r)" for c
    using assms that by (intro decode_collection_id_ok) (auto simp: tx_record_ok_def)
  have "decode_collection_change db (encode_collection_change ch) = Inr ch"
    if ch: "ch \<in> set (tr_collection_changes r)" for ch
  proof -
    have p: "tc_parent ch \<in> set (record_collections r)" and c: "tc_collection ch \<in> set (record_collections r)"
      using ch by (auto simp: record_collections_def)
    have n: "collection_name_new (name_bytes (tc_name ch)) = Inr (tc_name ch)" "\<not> is_root (ca_id (tc_collection ch))"
      using assms ch by (auto simp: tx_record_ok_def)
    show ?thesis
      by (cases "tc_op ch")
        (simp_all add: decode_collection_change_def encode_collection_change_def ids[OF p] ids[OF c] n
          pb_operation_number_roundtrip)
  qed
  then show "traverse_r (decode_collection_change db) (map encode_collection_change (tr_collection_changes r))
           = Inr (tr_collection_changes r)" by simp
  have "decode_prepared_collection db (cid_bytes (ca_id c)) = Inr c" if "c \<in> set (tr_prepared_collections r)" for c
  proof -
    have "c \<in> set (record_collections r)" "\<not> is_root (ca_id c)"
      using that assms by (auto simp: record_collections_def tx_record_ok_def)
    then show ?thesis by (simp add: decode_prepared_collection_def ids)
  qed
  then show "traverse_r (decode_prepared_collection db) (map (\<lambda>c. cid_bytes (ca_id c)) (tr_prepared_collections r))
           = Inr (tr_prepared_collections r)" by simp
qed


text \<open>C26: encoding a well-formed record and decoding it under the path of its database and transaction
  gives back the identity, status, timestamp, collection changes and prepared collections; the writes of
  each collection in their order, deleted ones without a value, so that every key finds the same write;
  and the same locks. The message codec is any that returns the message it encoded.\<close>

theorem record_roundtrip:
  assumes ok: "tx_record_ok db r" and ts: "tr_timestamp r = Some t" "timestamp_ok t"
    and codec: "\<And>status. encode_status (tr_status r) = Inr status \<Longrightarrow>
      pb_decode (encode_to_vec (record_message t status r)) = Inr (record_message t status r)"
  shows "\<exists>buf r'. tx_codec_encode encode_to_vec (Transaction db (tr_id r)) r = Inr buf
    \<and> tx_codec_decode pb_decode (Transaction db (tr_id r)) buf = Inr r'
    \<and> tr_id r' = tr_id r \<and> tr_status r' = tr_status r \<and> tr_timestamp r' = tr_timestamp r
    \<and> tr_collection_changes r' = tr_collection_changes r \<and> tr_prepared_collections r' = tr_prepared_collections r
    \<and> (\<forall>c. writes_in r' c = map normal_write (writes_in r c))
    \<and> (\<forall>key. find_write r' key = map_option normal_write (find_write r key))
    \<and> set (tr_locks r') = set (tr_locks r)"
proof -
  obtain status where status: "encode_status (tr_status r) = Inr status"
    using ok encode_status_ok unfolding tx_record_ok_def by blast
  obtain ws ls where dec: "decode_collection_writes db (map snd (collection_writes_of r)) = Inr (ws, ls)"
    and ws: "\<And>c. filter (\<lambda>w. lk_collection (tw_key w) = c) ws = map normal_write (writes_in r c)"
    and ls: "set ls = set (tr_locks r)"
    using decode_collection_writes_encode[OF ok] by blast
  have ts': "proto_ts_to_system (system_to_proto_ts t) = t"
    using timestamp_roundtrip_eq ts(2) by (auto simp: timestamp_ok_def)
  have enc: "tx_codec_encode encode_to_vec (Transaction db (tr_id r)) r = Inr (encode_to_vec (record_message t status r))"
    using ok ts status
    by (simp add: tx_codec_encode_def encode_for_database_def validate_database_membership_def
        check_membership_ok tx_record_ok_def)
  let ?r = "\<lparr>tr_id = tr_id r, tr_timestamp = Some t, tr_status = tr_status r, tr_writes = ws, tr_locks = ls,
      tr_collection_changes = tr_collection_changes r, tr_prepared_collections = tr_prepared_collections r\<rparr>"
  have "tx_codec_decode pb_decode (Transaction db (tr_id r)) (encode_to_vec (record_message t status r)) = Inr ?r"
    using dec decode_changes_encode[OF ok] encode_decode_status[OF status]
    by (simp add: tx_codec_decode_def decode_record_def parse_record_def codec[OF status])
      (simp add: record_message_def pb_status_number_roundtrip ts')
  moreover have "writes_in ?r c = map normal_write (writes_in r c)" for c
    using ws by (simp add: writes_in_def)
  moreover have "find_write ?r key = map_option normal_write (find_write r key)" for key
    unfolding find_in_collection by (simp add: ws find_normal_write flip: writes_in_def)
  ultimately show ?thesis using enc ts(1) ls
    by (intro exI[of _ "encode_to_vec (record_message t status r)"] exI[of _ ?r]) simp
qed

definition sample_collection :: collection_address where
  "sample_collection = CollectionAddress (DbPrefix ''db'') (CollectionId (replicate 16 1))"

definition sample_record :: tx_record where
  "sample_record =
     (tx_record_new (TxId (replicate 16 7)) TcPending)
       \<lparr>tr_timestamp := Some 5,
        tr_writes := [\<lparr>tw_key = LogicalKey sample_collection [1], tw_value = [2], tw_deleted = False\<rparr>],
        tr_locks := [KeyTxLock (LogicalKey sample_collection [1]) LtWrite]\<rparr>"

theorem record_roundtrip_witness:
  "\<exists>buf r'. tx_codec_encode (\<lambda>_. []) (Transaction (DbPrefix ''db'') (tr_id sample_record)) sample_record = Inr buf
      \<and> tx_codec_decode (\<lambda>_. Inr (record_message 5 PbPending sample_record) :: (nat, pb_transaction_record) result)
          (Transaction (DbPrefix ''db'') (tr_id sample_record)) buf = Inr r'
      \<and> find_write r' (LogicalKey sample_collection [1])
          = Some \<lparr>tw_key = LogicalKey sample_collection [1], tw_value = [2], tw_deleted = False\<rparr>"
proof -
  have "tx_record_ok (DbPrefix ''db'') sample_record"
    by (simp add: tx_record_ok_def sample_record_def tx_record_new_def record_collections_def directories_ok_def
        sample_collection_def id_ok_def)
  moreover have "tr_timestamp sample_record = Some 5" "timestamp_ok 5" "encode_status (tr_status sample_record) = Inr PbPending"
    "map_option normal_write (find_write sample_record (LogicalKey sample_collection [1]))
      = Some \<lparr>tw_key = LogicalKey sample_collection [1], tw_value = [2], tw_deleted = False\<rparr>"
    by (simp_all add: sample_record_def tx_record_new_def timestamp_ok_def encode_status_def find_write_def normal_write_def)
  ultimately show ?thesis
    using record_roundtrip[of "DbPrefix ''db''" sample_record 5
        "\<lambda>_. Inr (record_message 5 PbPending sample_record) :: (nat, pb_transaction_record) result" "\<lambda>_. []"]
    by fastforce
qed

end
