(* ===== verification/TxStore.thy ===== *)
theory TxStore
  imports CachedStore_Sound TxRecord "HOL-Library.Countable"
begin

text \<open>
  The transaction-record store of \<^verbatim>\<open>transaction/store.rs\<close>: transaction records kept in
  the cached store under the lifecycle graph. The operations are split where they
  call the backend, as the ones of the cached store they are built from.

  A cluster is any number of database instances over one backend. Its steps are
  those of the instances, the late effects of mutations whose answer was lost, and
  changes of objects that are not transaction records. The properties say that the
  durable records follow the lifecycle graph in every interleaving.
\<close>

section \<open>Operations\<close>

fun tx_lock_size :: "TxLock \<Rightarrow> nat" where
  "tx_lock_size (KeyTxLock key _) = length (lk_key key)"
| "tx_lock_size (MembershipTxLock leaf _) = (case leaf_ref_node_id leaf of None \<Rightarrow> 0 | Some _ \<Rightarrow> ID_BYTES)"
| "tx_lock_size _ = 0"

definition tx_record_size :: "nat \<Rightarrow> tx_record \<Rightarrow> nat" where
  "tx_record_size struct_size r =
     sum_list (map (\<lambda>w. length (lk_key (tw_key w)) + length (tw_value w)) (tr_writes r))
     + sum_list (map tx_lock_size (tr_locks r))
     + sum_list (map (\<lambda>c. length (name_bytes (tc_name c)) + 32) (tr_collection_changes r))
     + length (tr_prepared_collections r) * 16 + struct_size"

definition tx_record_codec ::
    "(bytes \<Rightarrow> ('e, pb_transaction_record) result) \<Rightarrow> (pb_transaction_record \<Rightarrow> bytes) \<Rightarrow> nat \<Rightarrow> tx_record codec" where
  "tx_record_codec pb_decode encode_to_vec struct_size =
     \<lparr>cd_decode = tx_codec_decode pb_decode, cd_encode = tx_codec_encode encode_to_vec,
      cd_size = tx_record_size struct_size,
      cd_accepts = (\<lambda>path. case path of Transaction _ _ \<Rightarrow> True | _ \<Rightarrow> False),
      cd_name = ''transaction record''\<rparr>"

record tx_status =
  ts_status :: TxCommitStatus
  ts_last_update :: int
  ts_observation :: "tx_record observation"

definition tx_status_from_observation :: "tx_record observation \<Rightarrow> tx_status" where
  "tx_status_from_observation ob =
     (case ob_value ob of
        Some r \<Rightarrow>
          \<lparr>ts_status = tr_status r,
           ts_last_update = (case tr_timestamp r of None \<Rightarrow> 0 | Some t \<Rightarrow> t), ts_observation = ob\<rparr>
      | None \<Rightarrow> \<lparr>ts_status = TcUnknown, ts_last_update = 0, ts_observation = ob\<rparr>)"

abbreviation tx_key :: "db_prefix \<Rightarrow> tx_id \<Rightarrow> object_key" where
  "tx_key db i \<equiv> object_key_of (Transaction db i)"

definition cached_final :: "tx_record codec \<Rightarrow> object_key \<Rightarrow> tx_record cached_store \<Rightarrow> (StorageError, tx_record observation option) result" where
  "cached_final cd key s =
     bind_r (check_path cd key) (\<lambda>_.
       Inr (case kn_peek s key ANY of
              Some ob \<Rightarrow>
                (case ob_value ob of
                   Some r \<Rightarrow> if is_immutable (tr_status r) then Some ob else None
                 | None \<Rightarrow> None)
            | None \<Rightarrow> None))"

text \<open>A read of the cached store up to its backend call: a hit, what became known in the meantime, or
  the round to send.\<close>

definition read_begin ::
    "'v codec \<Rightarrow> nat \<Rightarrow> object_key \<Rightarrow> requirement \<Rightarrow> 'v cached_store \<Rightarrow>
     (StorageError, 'v read_admission \<times> 'v cached_store) result" where
  "read_begin cd elapsed key req s =
     bind_r (check_path cd key) (\<lambda>_.
       Inr (case kn_peek s key req of
              Some ob \<Rightarrow> (ReadDone (kn_result_from_observation ob), s)
            | None \<Rightarrow> fetch_begin cd elapsed key req None s))"

text \<open>\<^verbatim>\<open>commit_status_at\<close> and \<^verbatim>\<open>get_at\<close> up to the backend call, and what they make of the
  observation.\<close>

definition record_begin ::
    "tx_record codec \<Rightarrow> db_prefix \<Rightarrow> nat \<Rightarrow> tx_id \<Rightarrow> requirement \<Rightarrow> tx_record cached_store \<Rightarrow>
     (StorageError, tx_record read_admission \<times> tx_record cached_store) result" where
  "record_begin cd db elapsed i req s =
     bind_r (cached_final cd (tx_key db i) s) (\<lambda>final.
       case final of
         Some ob \<Rightarrow> Inr (ReadDone (kn_result_from_observation ob), s)
       | None \<Rightarrow> read_begin cd elapsed (tx_key db i) req s)"

definition get_finish :: "tx_record observation \<Rightarrow> (StorageError, tx_record observation) result" where
  "get_finish ob = (if ob_value ob = None then Inl NotFound else Inr ob)"

definition stamped :: "int \<Rightarrow> tx_record \<Rightarrow> tx_record" where
  "stamped system_now l = l\<lparr>tr_timestamp := Some (case tr_timestamp l of None \<Rightarrow> system_now | Some t \<Rightarrow> t)\<rparr>"

definition set_begin ::
    "tx_record codec \<Rightarrow> db_prefix \<Rightarrow> nat \<Rightarrow> int \<Rightarrow> tx_record \<Rightarrow> tx_record cached_store \<Rightarrow>
     (StorageError, tx_record mutation_round \<times> tx_record cached_store) result" where
  "set_begin cd db elapsed system_now l s =
     bind_r (validate_lifecycle_transition None (Some (tr_status l))) (\<lambda>_.
       create_begin cd elapsed (tx_key db (tr_id l)) None (stamped system_now l) s)"

definition set_if_begin ::
    "tx_record codec \<Rightarrow> nat \<Rightarrow> int \<Rightarrow> tx_record \<Rightarrow> tx_record observation \<Rightarrow> tx_record cached_store \<Rightarrow>
     (StorageError, tx_record mutation_round \<times> tx_record cached_store) result" where
  "set_if_begin cd elapsed system_now l expected s =
     (case ob_value expected of
        None \<Rightarrow> Inl (OtherError ''transaction record replace requires a present value'')
      | Some current \<Rightarrow>
          bind_r (validate_lifecycle_transition (Some (tr_status current)) (Some (tr_status l))) (\<lambda>_.
            replace_begin cd elapsed expected (stamped system_now l) s))"

definition set_finish :: "tx_record cas_result \<Rightarrow> (StorageError, tx_record observation) result" where
  "set_finish res = (case res of CasApplied receipt \<Rightarrow> Inr (cr_installed receipt) | CasRejected \<Rightarrow> Inl Precondition)"

definition record_delete_begin ::
    "tx_record codec \<Rightarrow> nat \<Rightarrow> tx_record observation \<Rightarrow> tx_record cached_store \<Rightarrow>
     (StorageError, tx_record mutation_round \<times> tx_record cached_store) result" where
  "record_delete_begin cd elapsed expected s =
     (case ob_value expected of
        None \<Rightarrow> Inl (OtherError ''transaction record deletion requires a present value'')
      | Some current \<Rightarrow>
          bind_r (validate_lifecycle_transition (Some (tr_status current)) None) (\<lambda>_.
            delete_begin cd elapsed expected s))"

section \<open>The cluster\<close>

text \<open>The effect a mutation has when the backend applies it.\<close>

definition applies :: "contents_of \<Rightarrow> 'v mutation_round \<Rightarrow> store_view \<Rightarrow> store_view \<Rightarrow> bool" where
  "applies cont r V V' =
     (case mr_mutation r of
        MutCreate v sz bytes \<Rightarrow> (\<exists>rv. create_answer cont V (ok_encoded (mr_key r)) bytes (Inr rv) V')
      | MutReplace v sz bytes expected \<Rightarrow>
          (\<exists>rv. write_answer cont V (ok_encoded (mr_key r)) bytes expected (Inr rv) V')
      | MutDelete expected \<Rightarrow> delete_answer False V (ok_encoded (mr_key r)) expected (Inr ()) V')"

definition rounds_of :: "'v system \<Rightarrow> 'v mutation_round set" where
  "rounds_of y = {r. PendingMutation r \<in> sy_pending y}"

text \<open>A step of one instance. Mutations begin through the record store; every other step of the cached
  store is free, but the instance changes the backend only by one of its mutations.\<close>

inductive tx_step ::
    "tx_record codec \<Rightarrow> db_prefix \<Rightarrow> contents_of \<Rightarrow> tx_record system \<Rightarrow> tx_record system \<Rightarrow> bool"
  for cd db cont y where
  step_set: "set_begin cd db elapsed system_now l (sy_store y) = Inr (r, st) \<Longrightarrow>
    tx_step cd db cont y (begin_op {PendingMutation r} st {} y)"
| step_set_if: "ob \<in> sy_observed y \<Longrightarrow> set_if_begin cd elapsed system_now l ob (sy_store y) = Inr (r, st) \<Longrightarrow>
    tx_step cd db cont y (begin_op {PendingMutation r} st {} y)"
| step_delete: "ob \<in> sy_observed y \<Longrightarrow> record_delete_begin cd elapsed ob (sy_store y) = Inr (r, st) \<Longrightarrow>
    tx_step cd db cont y (begin_op {PendingMutation r} st {} y)"
| step_cached: "sys_step cd cont False y y' \<Longrightarrow> rounds_of y' \<subseteq> rounds_of y \<Longrightarrow>
    sy_view y' = sy_view y \<or> (\<exists>r \<in> rounds_of y. applies cont r (sy_view y) (sy_view y')) \<Longrightarrow>
    tx_step cd db cont y y'"

record cluster =
  cl_nodes :: "nat \<Rightarrow> tx_record system"
  cl_view :: store_view
  cl_issued :: "tx_record mutation_round set"

definition told :: "store_view \<Rightarrow> 'v system \<Rightarrow> 'v system" where
  "told V y = moment (y\<lparr>sy_view := V\<rparr>)"

definition is_record_path :: "string \<Rightarrow> bool" where
  "is_record_path p \<longleftrightarrow> (\<exists>db i. p = object_path_display (Transaction db i))"

definition cluster_init :: "(nat \<Rightarrow> timeline) \<Rightarrow> store_view \<Rightarrow> cluster" where
  "cluster_init t V = \<lparr>cl_nodes = (\<lambda>n. sys_init (t n) V), cl_view = V, cl_issued = {}\<rparr>"

inductive cluster_step ::
    "tx_record codec \<Rightarrow> db_prefix \<Rightarrow> contents_of \<Rightarrow> cluster \<Rightarrow> cluster \<Rightarrow> bool"
  for cd db cont c where
  member: "tx_step cd db cont (cl_nodes c n) y \<Longrightarrow>
    cluster_step cd db cont c
      \<lparr>cl_nodes = (\<lambda>m. if m = n then y else told (sy_view y) (cl_nodes c m)), cl_view = sy_view y,
       cl_issued = cl_issued c \<union> rounds_of y\<rparr>"
| late: "r \<in> cl_issued c \<Longrightarrow> applies cont r (cl_view c) V \<Longrightarrow>
    cluster_step cd db cont c (c\<lparr>cl_nodes := (\<lambda>m. told V (cl_nodes c m)), cl_view := V\<rparr>)"
| elsewhere: "revisions_ok cont V \<Longrightarrow> \<forall>p. is_record_path p \<longrightarrow> V p = cl_view c p \<Longrightarrow>
    cluster_step cd db cont c (c\<lparr>cl_nodes := (\<lambda>m. told V (cl_nodes c m)), cl_view := V\<rparr>)"

section \<open>Statuses on the wire\<close>

text \<open>What the store asks of the message codec: the status field comes back.\<close>

definition keeps_status ::
    "(bytes \<Rightarrow> ('e, pb_transaction_record) result) \<Rightarrow> (pb_transaction_record \<Rightarrow> bytes) \<Rightarrow> bool" where
  "keeps_status pb_decode encode_to_vec \<longleftrightarrow>
     (\<forall>m. \<exists>m'. pb_decode (encode_to_vec m) = Inr m' \<and> ptr_status m' = ptr_status m)"

lemma encoded_status:
  assumes k: "keeps_status pb_decode encode_to_vec" and e: "tx_codec_encode encode_to_vec path v = Inr bytes"
  shows "record_status pb_decode bytes = Inr (tr_status v)"
proof -
  from e obtain t s where s: "encode_status (tr_status v) = Inr s" "bytes = encode_to_vec (record_message t s v)"
    by (auto simp: tx_codec_encode_def encode_for_database_def bind_r_ok_iff
        split: object_path.splits if_splits option.splits)
  obtain m where "pb_decode bytes = Inr m" "ptr_status m = pb_status_number s"
    using k s(2) unfolding keeps_status_def by (metis record_message_def pb_transaction_record.select_convs(2))
  then show ?thesis
    using encode_decode_status[OF s(1)]
    by (simp add: record_status_def parse_record_def pb_status_number_roundtrip)
qed

lemma decoded_status:
  "tx_codec_decode pb_decode path b = Inr v \<Longrightarrow> record_status pb_decode b = Inr (tr_status v)"
  by (auto simp: tx_codec_decode_def decode_record_def record_status_def bind_r_ok_iff
      split: object_path.splits prod.splits)

lemma held_status:
  assumes "keeps_status pb_decode encode_to_vec"
    and "holds_value (tx_record_codec pb_decode encode_to_vec sz) cont p (Some v) (Some rv)"
  shows "record_status pb_decode (cont p rv) = Inr (tr_status v)"
  using assms encoded_status decoded_status by (fastforce simp: holds_value_def tx_record_codec_def)

section \<open>Lawful mutations\<close>

definition state_status ::
    "(bytes \<Rightarrow> ('e, pb_transaction_record) result) \<Rightarrow> read_reply option \<Rightarrow> (StorageError, TxCommitStatus option) result" where
  "state_status pb_decode x =
     (case x of None \<Rightarrow> Inr None | Some r \<Rightarrow> map_r Some (record_status pb_decode (rr_contents r)))"

definition lifecycle_allows ::
    "(bytes \<Rightarrow> ('e, pb_transaction_record) result) \<Rightarrow> read_reply option \<Rightarrow> read_reply option \<Rightarrow> bool" where
  "lifecycle_allows pb_decode a b \<longleftrightarrow>
     (\<exists>s s'. state_status pb_decode a = Inr s \<and> state_status pb_decode b = Inr s'
        \<and> validate_lifecycle_transition s s' = Inr ())"

definition lawful ::
    "(bytes \<Rightarrow> ('e, pb_transaction_record) result) \<Rightarrow> contents_of \<Rightarrow> 'v mutation_round \<Rightarrow> bool" where
  "lawful pb_decode cont r =
     (case mr_mutation r of
        MutCreate v sz bytes \<Rightarrow>
          (\<exists>s. record_status pb_decode bytes = Inr s \<and> validate_lifecycle_transition None (Some s) = Inr ())
      | MutReplace v sz bytes rv \<Rightarrow>
          (\<exists>s s'. record_status pb_decode (cont (ok_encoded (mr_key r)) rv) = Inr s
             \<and> record_status pb_decode bytes = Inr s' \<and> validate_lifecycle_transition (Some s) (Some s') = Inr ())
      | MutDelete rv \<Rightarrow>
          (\<exists>s. record_status pb_decode (cont (ok_encoded (mr_key r)) rv) = Inr s
             \<and> validate_lifecycle_transition (Some s) None = Inr ()))"

lemma round_new_facts:
  "round_new elapsed key mu ex s = (r, st) \<Longrightarrow> mr_key r = key \<and> mr_mutation r = mu"
  by (auto simp: round_new_def Let_def split: prod.splits)

lemma tr_status_stamped [simp]: "tr_status (stamped now l) = tr_status l"
  by (simp add: stamped_def)

lemma set_begin_lawful:
  assumes k: "keeps_status pb_decode encode_to_vec" and cd: "cd = tx_record_codec pb_decode encode_to_vec sz"
    and b: "set_begin cd db elapsed now l s = Inr (r, st)"
  shows "lawful pb_decode cont r"
proof -
  from b cd obtain bytes where v: "validate_lifecycle_transition None (Some (tr_status l)) = Inr ()"
    and e: "tx_codec_encode encode_to_vec (ok_object (tx_key db (tr_id l))) (stamped now l) = Inr bytes"
    and r: "round_new elapsed (tx_key db (tr_id l)) (MutCreate (stamped now l) (tx_record_size sz (stamped now l)) bytes)
      (kn_expected_absent (None :: tx_record observation option)) s = (r, st)"
    by (auto simp: set_begin_def create_begin_def bind_r_ok_iff tx_record_codec_def split: if_splits)
  show ?thesis
    using v encoded_status[OF k e] round_new_facts[OF r] by (simp add: lawful_def)
qed

lemma set_if_begin_lawful:
  assumes k: "keeps_status pb_decode encode_to_vec" and cd: "cd = tx_record_codec pb_decode encode_to_vec sz"
    and ob: "obs_ok cd cont own ob" and b: "set_if_begin cd elapsed now l ob s = Inr (r, st)"
  shows "lawful pb_decode cont r"
proof -
  from b cd obtain v rv bytes where v: "ob_value ob = Some v" "ob_revision ob = Some rv"
      "validate_lifecycle_transition (Some (tr_status v)) (Some (tr_status l)) = Inr ()"
    and e: "tx_codec_encode encode_to_vec (ok_object (ob_key ob)) (stamped now l) = Inr bytes"
    and r: "round_new elapsed (ob_key ob) (MutReplace (stamped now l) (tx_record_size sz (stamped now l)) bytes rv)
      (kn_expected_present rv ob) s = (r, st)"
    by (auto simp: set_if_begin_def replace_begin_def bind_r_ok_iff tx_record_codec_def split: option.splits)
  have "record_status pb_decode (cont (ok_encoded (ob_key ob)) rv) = Inr (tr_status v)"
    using ob v held_status[OF k] unfolding obs_ok_def cd by metis
  then show ?thesis
    using v(3) encoded_status[OF k e] round_new_facts[OF r] by (simp add: lawful_def)
qed

lemma record_delete_begin_lawful:
  assumes k: "keeps_status pb_decode encode_to_vec" and cd: "cd = tx_record_codec pb_decode encode_to_vec sz"
    and ob: "obs_ok cd cont own ob" and b: "record_delete_begin cd elapsed ob s = Inr (r, st)"
  shows "lawful pb_decode cont r"
proof -
  from b obtain v rv where v: "ob_value ob = Some v" "ob_revision ob = Some rv"
      "validate_lifecycle_transition (Some (tr_status v)) None = Inr ()"
    and r: "round_new elapsed (ob_key ob) (MutDelete rv) (kn_expected_present rv ob) s = (r, st)"
    by (auto simp: record_delete_begin_def delete_begin_def bind_r_ok_iff split: option.splits if_splits)
  have "record_status pb_decode (cont (ok_encoded (ob_key ob)) rv) = Inr (tr_status v)"
    using ob v held_status[OF k] unfolding obs_ok_def cd by metis
  then show ?thesis
    using v(3) round_new_facts[OF r] by (simp add: lawful_def)
qed

lemma lawful_applies:
  assumes "lawful pb_decode cont r" "revisions_ok cont V" "applies cont r V V'"
  shows "V' p = V p \<or> lifecycle_allows pb_decode (V p) (V' p)"
proof (cases "p = ok_encoded (mr_key r)")
  case False
  then show ?thesis
    using assms(3) by (auto simp: applies_def elim!: create_answer.cases write_answer.cases delete_answer.cases
        split: mutation.splits)
next
  case True
  have c: "rr_contents q = cont p (rr_revision q)" if "V p = Some q" for q
    using assms(2) that by (simp add: revisions_ok_def)
  show ?thesis
  proof (cases "mr_mutation r")
    case (MutCreate v sz bytes)
    then show ?thesis using assms True
      by (auto simp: applies_def lawful_def lifecycle_allows_def state_status_def elim!: create_answer.cases)
  next
    case (MutReplace v sz bytes rv)
    then show ?thesis using assms True c
      by (auto simp: applies_def lawful_def lifecycle_allows_def state_status_def elim!: write_answer.cases)
  next
    case (MutDelete rv)
    then show ?thesis using assms True c
      by (auto simp: applies_def lawful_def lifecycle_allows_def state_status_def elim!: delete_answer.cases)
  qed
qed

section \<open>The invariant of the cluster\<close>

lemma tx_step_sys: "tx_step cd db cont y y' \<Longrightarrow> sys_step cd cont False y y'"
proof (induction rule: tx_step.induct)
  case (step_set elapsed now l r st)
  then have "create_begin cd elapsed (tx_key db (tr_id l)) None (stamped now l) (sy_store y) = Inr (r, st)"
    by (auto simp: set_begin_def bind_r_ok_iff)
  then show ?case by (intro create_start) (auto simp: key_ok_def object_key_of_def)
next
  case (step_set_if ob elapsed now l r st)
  then show ?case by (auto simp: set_if_begin_def bind_r_ok_iff intro: replace_start split: option.splits)
next
  case (step_delete ob elapsed r st)
  then show ?case by (auto simp: record_delete_begin_def bind_r_ok_iff intro: delete_start split: option.splits)
qed

definition cluster_ok ::
    "(bytes \<Rightarrow> ('e, pb_transaction_record) result) \<Rightarrow> tx_record codec \<Rightarrow> contents_of \<Rightarrow> cluster \<Rightarrow> bool" where
  "cluster_ok pb_decode cd cont c \<longleftrightarrow>
     (\<forall>n. (\<exists>own. sys_inv cd cont own (cl_nodes c n)) \<and> sy_view (cl_nodes c n) = cl_view c
        \<and> rounds_of (cl_nodes c n) \<subseteq> cl_issued c)
     \<and> (\<forall>r \<in> cl_issued c. lawful pb_decode cont r) \<and> revisions_ok cont (cl_view c)"

lemma tx_step_rounds:
  assumes k: "keeps_status pb_decode encode_to_vec" and cd: "cd = tx_record_codec pb_decode encode_to_vec sz"
    and inv: "sys_inv cd cont own y" and st: "tx_step cd db cont y y'"
    and r: "r \<in> rounds_of y'" "r \<notin> rounds_of y"
  shows "lawful pb_decode cont r"
  using st r
proof (induction rule: tx_step.induct)
  case (step_set elapsed now l r' st)
  then have "r = r'" by (auto simp: rounds_of_def begin_op_def moment_def)
  then show ?case using set_begin_lawful[OF k cd step_set(1)] by simp
next
  case (step_set_if ob elapsed now l r' st)
  then have "r = r'" by (auto simp: rounds_of_def begin_op_def moment_def)
  moreover have "obs_ok cd cont own ob" using inv step_set_if(1) by (simp add: sys_inv_def)
  ultimately show ?case using set_if_begin_lawful[OF k cd _ step_set_if(2)] by simp
next
  case (step_delete ob elapsed r' st)
  then have "r = r'" by (auto simp: rounds_of_def begin_op_def moment_def)
  moreover have "obs_ok cd cont own ob" using inv step_delete(1) by (simp add: sys_inv_def)
  ultimately show ?case using record_delete_begin_lawful[OF k cd _ step_delete(2)] by simp
qed auto

lemma sys_inv_view: "sys_inv cd cont own y \<Longrightarrow> revisions_ok cont (sy_view y)"
  unfolding sys_inv_def by (metis (no_types, lifting) case_prodD last_in_set)

lemma told_inv: "sys_inv cd cont own y \<Longrightarrow> revisions_ok cont V \<Longrightarrow> \<exists>own. sys_inv cd cont own (told V y)"
  unfolding told_def using sys_step_inv[OF _ peer] by blast

lemma told_simps [simp]: "sy_view (told V y) = V" "rounds_of (told V y) = rounds_of y"
  by (simp_all add: told_def moment_def rounds_of_def)

lemma applies_revisions_ok:
  assumes "applies cont r V V'" "revisions_ok cont V" shows "revisions_ok cont V'"
  using assms unfolding applies_def
  by (cases "mr_mutation r")
    (auto simp: revisions_ok_def elim!: create_answer.cases write_answer.cases delete_answer.cases split: if_splits)

lemma cluster_ok_tell:
  assumes ok: "cluster_ok pb_decode cd cont c" and V: "revisions_ok cont V"
  shows "cluster_ok pb_decode cd cont (c\<lparr>cl_nodes := (\<lambda>m. told V (cl_nodes c m)), cl_view := V\<rparr>)"
proof -
  have "\<exists>own. sys_inv cd cont own (told V (cl_nodes c n))" for n
    using ok told_inv[OF _ V] unfolding cluster_ok_def by blast
  then show ?thesis using ok V unfolding cluster_ok_def by simp
qed

lemma cluster_ok_member:
  assumes k: "keeps_status pb_decode encode_to_vec" and cd: "cd = tx_record_codec pb_decode encode_to_vec sz"
    and ok: "cluster_ok pb_decode cd cont c" and st: "tx_step cd db cont (cl_nodes c n) y"
  shows "cluster_ok pb_decode cd cont
    \<lparr>cl_nodes = (\<lambda>m. if m = n then y else told (sy_view y) (cl_nodes c m)), cl_view = sy_view y,
     cl_issued = cl_issued c \<union> rounds_of y\<rparr>"
proof -
  obtain own where inv: "sys_inv cd cont own (cl_nodes c n)" using ok unfolding cluster_ok_def by blast
  obtain own' where inv': "sys_inv cd cont own' y" using sys_step_inv[OF inv tx_step_sys[OF st]] by blast
  have law: "lawful pb_decode cont r" if "r \<in> rounds_of y" for r
    using that ok tx_step_rounds[OF k cd inv st] unfolding cluster_ok_def by blast
  have V: "revisions_ok cont (sy_view y)" by (rule sys_inv_view[OF inv'])
  have "\<exists>own. sys_inv cd cont own (told (sy_view y) (cl_nodes c m))" "rounds_of (cl_nodes c m) \<subseteq> cl_issued c" for m
    using ok told_inv[OF _ V] unfolding cluster_ok_def by blast+
  then show ?thesis
    using law V inv' ok unfolding cluster_ok_def by auto
qed

lemma cluster_step_ok:
  assumes k: "keeps_status pb_decode encode_to_vec" and cd: "cd = tx_record_codec pb_decode encode_to_vec sz"
    and st: "cluster_step cd db cont c c'" and ok: "cluster_ok pb_decode cd cont c"
  shows "cluster_ok pb_decode cd cont c'"
  using st
proof cases
  case (member n y)
  show ?thesis unfolding member(1) by (rule cluster_ok_member[OF k cd ok member(2)])
next
  case (late r V)
  have "revisions_ok cont V" using applies_revisions_ok[OF late(3)] ok by (simp add: cluster_ok_def)
  from cluster_ok_tell[OF ok this] show ?thesis using late(1) by simp
next
  case (elsewhere V)
  from cluster_ok_tell[OF ok elsewhere(2)] show ?thesis using elsewhere(1) by simp
qed

lemma cluster_init_ok:
  assumes "revisions_ok cont V" "\<And>n. tl_last (t n) \<le> U64_MAX"
  shows "cluster_ok pb_decode cd cont (cluster_init t V)"
proof -
  have "\<exists>own. sys_inv cd cont own (sys_init (t n) V)" for n
    using sys_reach_inv[OF reach_init] assms by blast
  moreover have "sy_view (sys_init (t n) V :: tx_record system) = V" "rounds_of (sys_init (t n) V :: tx_record system) = {}" for n
    by (simp_all add: rounds_of_def sys_init_def moment_def)
  ultimately show ?thesis using assms(1) by (simp add: cluster_ok_def cluster_init_def)
qed

lemma cluster_steps_ok:
  assumes "keeps_status pb_decode encode_to_vec" "cd = tx_record_codec pb_decode encode_to_vec sz"
    and "(cluster_step cd db cont)\<^sup>*\<^sup>* c c'" "cluster_ok pb_decode cd cont c"
  shows "cluster_ok pb_decode cd cont c'"
  using assms(3,4) by (induction rule: rtranclp_induct) (use cluster_step_ok[OF assms(1,2)] in blast)+

text \<open>Every change of a record is made by a mutation that some instance issued.\<close>

lemma tx_step_view:
  "tx_step cd db cont y y' \<Longrightarrow>
   sy_view y' = sy_view y \<or> (\<exists>r \<in> rounds_of y. applies cont r (sy_view y) (sy_view y'))"
  by (induction rule: tx_step.induct) (simp_all add: begin_op_def moment_def)

lemma cluster_step_record:
  assumes ok: "cluster_ok pb_decode cd cont c" and st: "cluster_step cd db cont c c'" and p: "is_record_path p"
  shows "cl_view c' p = cl_view c p \<or> (\<exists>r \<in> cl_issued c. applies cont r (cl_view c) (cl_view c'))"
  using st
proof cases
  case (member n y)
  have "rounds_of (cl_nodes c n) \<subseteq> cl_issued c" "sy_view (cl_nodes c n) = cl_view c"
    using ok by (auto simp: cluster_ok_def)
  then show ?thesis
    using tx_step_view[OF member(2)] unfolding member(1) by auto
next
  case (late r V)
  then show ?thesis by auto
next
  case (elsewhere V)
  then show ?thesis using p by simp
qed

lemma cluster_step_lifecycle:
  assumes "cluster_ok pb_decode cd cont c" "cluster_step cd db cont c c'" "is_record_path p"
  shows "cl_view c' p = cl_view c p \<or> lifecycle_allows pb_decode (cl_view c p) (cl_view c' p)"
proof (cases "cl_view c' p = cl_view c p")
  case False
  then obtain r where r: "r \<in> cl_issued c" "applies cont r (cl_view c) (cl_view c')"
    using cluster_step_record[OF assms] by blast
  have "lawful pb_decode cont r" "revisions_ok cont (cl_view c)"
    using assms(1) r(1) unfolding cluster_ok_def by blast+
  then show ?thesis using lawful_applies r(2) by blast
qed simp

lemma immutable_only_deleted: "validate_lifecycle_transition (Some s) (Some s') = Inr () \<Longrightarrow> \<not> is_immutable s"
  by (cases s; cases s')
    (simp_all add: is_immutable_def validate_lifecycle_transition_def try_from_status_def relation_to_def)

lemma immutable_blocks:
  assumes "lifecycle_allows pb_decode (Some r) b" "record_status pb_decode (rr_contents r) = Inr s" "is_immutable s"
  shows "b = None"
proof (cases b)
  case (Some r')
  then show ?thesis using assms immutable_only_deleted
    by (cases "record_status pb_decode (rr_contents r')") (auto simp: lifecycle_allows_def state_status_def)
qed simp

section \<open>Properties\<close>

text \<open>C7: whatever the instances of a cluster do, and whenever the mutations whose answer was lost take
  effect, a transaction record in the backend changes only along the lifecycle graph: it is created in
  a persisted state, a pending record may be refreshed, wounded, committed or aborted, a wounded record
  may only be aborted, and only a committed or aborted record may be deleted.\<close>

theorem record_lifecycle:
  assumes "keeps_status pb_decode encode_to_vec" "revisions_ok cont V" "\<And>n. tl_last (t n) \<le> U64_MAX"
    and "(cluster_step (tx_record_codec pb_decode encode_to_vec sz) db cont)\<^sup>*\<^sup>* (cluster_init t V) c"
    and "cluster_step (tx_record_codec pb_decode encode_to_vec sz) db cont c c'" and "is_record_path p"
  shows "cl_view c' p = cl_view c p \<or>
    (\<exists>s s'. state_status pb_decode (cl_view c p) = Inr s \<and> state_status pb_decode (cl_view c' p) = Inr s'
       \<and> validate_lifecycle_transition s s' = Inr ())"
  using cluster_step_lifecycle[OF cluster_steps_ok[OF assms(1) refl assms(4) cluster_init_ok[OF assms(2,3)]] assms(5,6)]
  by (simp add: lifecycle_allows_def)

text \<open>C8: a record that is committed or aborted stays exactly as it is, contents and revision, until it is
  deleted.\<close>

theorem immutable_until_deleted:
  assumes k: "keeps_status pb_decode encode_to_vec" "revisions_ok cont V" "\<And>n. tl_last (t n) \<le> U64_MAX"
    and c: "(cluster_step (tx_record_codec pb_decode encode_to_vec sz) db cont)\<^sup>*\<^sup>* (cluster_init t V) c"
    and p: "is_record_path p" "cl_view c p = Some r" "record_status pb_decode (rr_contents r) = Inr s" "is_immutable s"
    and steps: "(\<lambda>a b. cluster_step (tx_record_codec pb_decode encode_to_vec sz) db cont a b \<and> cl_view b p \<noteq> None)\<^sup>*\<^sup>* c c'"
  shows "cl_view c' p = Some r"
proof -
  let ?cd = "tx_record_codec pb_decode encode_to_vec sz"
  have ok: "cluster_ok pb_decode ?cd cont c"
    by (rule cluster_steps_ok[OF k(1) refl c cluster_init_ok[OF k(2,3)]])
  from steps have "cl_view c' p = Some r \<and> cluster_ok pb_decode ?cd cont c'"
  proof (induction rule: rtranclp_induct)
    case base
    then show ?case using p ok by simp
  next
    case (step a b)
    then have "cl_view b p = Some r \<or> lifecycle_allows pb_decode (Some r) (cl_view b p)"
      using cluster_step_lifecycle[of pb_decode ?cd cont a db b p] p(1) by auto
    moreover have "\<not> lifecycle_allows pb_decode (Some r) (cl_view b p)"
      using immutable_blocks[OF _ p(3,4)] conjunct2[OF step(2)] by (rule contrapos_nn[rotated])
    ultimately have "cl_view b p = Some r" by blast
    then show ?case using step cluster_step_ok[OF k(1) refl] by blast
  qed
  then show ?thesis by simp
qed

section \<open>A run\<close>

text \<open>A message codec that keeps only the status, an instance that creates a pending record, and a
  committed record that is left alone.\<close>

definition run_encode :: "pb_transaction_record \<Rightarrow> bytes" where
  "run_encode m = replicate (to_nat (ptr_status m)) 0"

definition run_decode :: "bytes \<Rightarrow> (unit, pb_transaction_record) result" where
  "run_decode b = Inr \<lparr>ptr_timestamp = None, ptr_status = from_nat (length b), ptr_writes = [],
     ptr_collection_changes = [], ptr_prepared_collection_ids = []\<rparr>"

definition run_id :: tx_id where
  "run_id = TxId (replicate 16 0)"

definition run_db :: db_prefix where
  "run_db = DbPrefix ''db''"

definition run_path :: string where
  "run_path = object_path_display (Transaction run_db run_id)"

definition run_bytes :: "PbStatus \<Rightarrow> bytes" where
  "run_bytes s = run_encode (record_message 0 s (stamped 0 (tx_record_new run_id TcPending)))"

definition run_object :: "PbStatus \<Rightarrow> read_reply" where
  "run_object s = \<lparr>rr_contents = run_bytes s, rr_revision = Revision ''1''\<rparr>"

abbreviation run_tx_codec :: "tx_record codec" where
  "run_tx_codec \<equiv> tx_record_codec run_decode run_encode 0"

abbreviation run_time :: "nat \<Rightarrow> timeline" where
  "run_time \<equiv> \<lambda>_. \<lparr>tl_base = 0, tl_last = 0\<rparr>"

lemma run_keeps_status: "keeps_status run_decode run_encode"
  by (simp add: keeps_status_def run_decode_def run_encode_def)

lemma run_is_record_path: "is_record_path run_path"
  unfolding is_record_path_def run_path_def by blast

lemma run_bytes_status: "record_status run_decode (run_bytes s) = decode_status s"
  by (simp add: record_status_def parse_record_def run_decode_def run_bytes_def run_encode_def record_message_def
      pb_status_number_roundtrip)

lemma run_set_begin:
  "\<exists>r st. set_begin run_tx_codec run_db 0 0 (tx_record_new run_id TcPending) s = Inr (r, st)
     \<and> ok_encoded (mr_key r) = run_path \<and> (\<exists>v sz. mr_mutation r = MutCreate v sz (run_bytes PbPending))"
proof -
  let ?l = "tx_record_new run_id TcPending"
  have "tx_codec_encode run_encode (Transaction run_db run_id) (stamped 0 ?l) = Inr (run_bytes PbPending)"
    by (simp add: tx_codec_encode_def stamped_def tx_record_new_def encode_for_database_def run_bytes_def
        validate_database_membership_def record_collections_def encode_status_def)
  then show ?thesis
    by (cases "round_new 0 (tx_key run_db run_id) (MutCreate (stamped 0 ?l) (tx_record_size 0 (stamped 0 ?l)) (run_bytes PbPending))
          (kn_expected_absent (None :: tx_record observation option)) s")
      (auto dest!: round_new_facts simp: set_begin_def create_begin_def check_path_def tx_record_codec_def object_key_of_def
         run_path_def tx_record_new_def validate_lifecycle_transition_def try_from_status_def relation_to_def)
qed

abbreviation run_contents :: "PbStatus \<Rightarrow> contents_of" where
  "run_contents s \<equiv> \<lambda>_ _. run_bytes s"

lemma run_creates:
  "\<exists>c c'. (cluster_step run_tx_codec run_db (run_contents PbPending))\<^sup>*\<^sup>* (cluster_init run_time Map.empty) c
     \<and> cluster_step run_tx_codec run_db (run_contents PbPending) c c'
     \<and> cl_view c run_path = None \<and> cl_view c' run_path = Some (run_object PbPending)"
proof -
  let ?step = "cluster_step run_tx_codec run_db (run_contents PbPending)"
  let ?y0 = "sys_init \<lparr>tl_base = 0, tl_last = 0\<rparr> Map.empty :: tx_record system"
  let ?c0 = "cluster_init run_time Map.empty"
  obtain r st v sz where b: "set_begin run_tx_codec run_db 0 0 (tx_record_new run_id TcPending) (sy_store ?y0) = Inr (r, st)"
    and r: "ok_encoded (mr_key r) = run_path" "mr_mutation r = MutCreate v sz (run_bytes PbPending)"
    using run_set_begin by blast
  let ?y1 = "begin_op {PendingMutation r} st {} ?y0"
  let ?c1 = "\<lparr>cl_nodes = (\<lambda>m. if m = 0 then ?y1 else told (sy_view ?y1) (cl_nodes ?c0 m)), cl_view = sy_view ?y1,
     cl_issued = cl_issued ?c0 \<union> rounds_of ?y1\<rparr>"
  have v: "sy_view ?y1 = Map.empty" by (simp add: begin_op_def moment_def sys_init_def)
  have "tx_step run_tx_codec run_db (run_contents PbPending) ?y0 ?y1" by (rule step_set[OF b])
  then have "?step ?c0 ?c1" by (intro member) (simp add: cluster_init_def)
  moreover have "applies (run_contents PbPending) r Map.empty [run_path \<mapsto> run_object PbPending]"
    using create_applied[of Map.empty run_path "run_contents PbPending" "Revision ''1''" "run_bytes PbPending"] r
    by (auto simp: applies_def run_object_def)
  then have "?step ?c1 (?c1\<lparr>cl_nodes := (\<lambda>m. told [run_path \<mapsto> run_object PbPending] (cl_nodes ?c1 m)),
       cl_view := [run_path \<mapsto> run_object PbPending]\<rparr>)"
    by (intro late[where r = r]) (auto simp: v rounds_of_def begin_op_def moment_def sys_init_def)
  ultimately show ?thesis
    by (intro exI[of _ ?c1] exI conjI r_into_rtranclp) (assumption | simp add: v)+
qed

theorem record_lifecycle_witness:
  "\<exists>c c'. cluster_step run_tx_codec run_db (run_contents PbPending) c c' \<and> cl_view c run_path = None
     \<and> (\<exists>s'. state_status run_decode (cl_view c' run_path) = Inr s' \<and> validate_lifecycle_transition None s' = Inr ())"
proof -
  obtain c c' where c: "(cluster_step run_tx_codec run_db (run_contents PbPending))\<^sup>*\<^sup>* (cluster_init run_time Map.empty) c"
    "cluster_step run_tx_codec run_db (run_contents PbPending) c c'" "cl_view c run_path = None"
    "cl_view c' run_path = Some (run_object PbPending)" using run_creates by blast
  have "revisions_ok (run_contents PbPending) Map.empty" by (simp add: revisions_ok_def)
  from record_lifecycle[OF run_keeps_status this _ c(1,2) run_is_record_path] c
  show ?thesis by (intro exI[of _ c] exI[of _ c']) (auto simp: U64_MAX_def state_status_def)
qed

theorem immutable_until_deleted_witness:
  "\<exists>c'. cluster_step run_tx_codec run_db (run_contents PbCommitted)
      (cluster_init run_time [run_path \<mapsto> run_object PbCommitted]) c'
    \<and> cl_view c' ''x'' \<noteq> None \<and> cl_view c' run_path = Some (run_object PbCommitted)"
proof -
  let ?V = "[run_path \<mapsto> run_object PbCommitted]" and ?W = "[run_path \<mapsto> run_object PbCommitted, ''x'' \<mapsto> run_object PbCommitted]"
  let ?c = "cluster_init run_time ?V"
  let ?c' = "?c\<lparr>cl_nodes := (\<lambda>m. told ?W (cl_nodes ?c m)), cl_view := ?W\<rparr>"
  have x: "\<not> is_record_path ''x''"
  proof
    assume "is_record_path ''x''"
    then obtain db i where "''x'' = object_path_display (Transaction db i)" by (auto simp: is_record_path_def)
    then have "1 = length (object_path_display (Transaction db i))" by (metis length_Cons list.size(3) One_nat_def)
    then show False by (simp add: write_transaction_def Let_def)
  qed
  have V: "revisions_ok (run_contents PbCommitted) ?V" "revisions_ok (run_contents PbCommitted) ?W"
    by (auto simp: revisions_ok_def run_object_def)
  have step: "cluster_step run_tx_codec run_db (run_contents PbCommitted) ?c ?c'"
    using V(2) x by (intro elsewhere) (auto simp: cluster_init_def)
  have ne: "run_path \<noteq> ''x''" using x run_is_record_path by auto
  have "cl_view ?c' run_path = Some (run_object PbCommitted)"
  proof (rule immutable_until_deleted[OF run_keeps_status V(1), of run_time 0 run_db ?c run_path "run_object PbCommitted" TcCommitted])
    show "(\<lambda>a b. cluster_step run_tx_codec run_db (run_contents PbCommitted) a b \<and> cl_view b run_path \<noteq> None)\<^sup>*\<^sup>* ?c ?c'"
      using step ne by (intro r_into_rtranclp) auto
  qed (use run_is_record_path run_bytes_status[of PbCommitted] in
      \<open>auto simp: U64_MAX_def cluster_init_def run_object_def decode_status_def is_immutable_def\<close>)
  then show ?thesis using step by (intro exI[of _ ?c']) simp
qed

end
