(* ===== verification/Leaf.thy ===== *)
theory Leaf
  imports Locks
begin

text \<open>
  Leaf bodies (\<^verbatim>\<open>glassdb-storage/src/leaf.rs\<close>): the current state of a key, the entry
  that holds it with its lock, the ordered map of entries, splitting, and the
  protobuf form. Message structs of \<^verbatim>\<open>glassdb-proto\<close> are records; the byte
  encoding of a message is third-party code and a parameter where it is used.
  The size arithmetic of \<^verbatim>\<open>wire_size.rs\<close> and the inline budgets of \<^verbatim>\<open>inline.rs\<close> are
  here too; the two field-size functions of the encoder library are the fields of
  \<open>prost_sizes\<close>.
\<close>

section \<open>Messages\<close>

datatype pb_state = PbExternal bool | PbInline bytes | PbTombstone bool

record pb_current_state =
  pb_writer :: bytes
  pb_state :: "pb_state option"

record pb_leaf_entry =
  pb_key :: bytes
  pb_entry_lock_type :: int
  pb_entry_locked_by :: "bytes list"
  pb_current :: "pb_current_state option"

record pb_leaf_body =
  pb_leaf_entries :: "pb_leaf_entry list"

section \<open>Current states\<close>

datatype CurrentState = Absent | External tx_id | Inline tx_id bytes | Tombstone tx_id

fun cs_writer :: "CurrentState \<Rightarrow> tx_id option" where
  "cs_writer Absent = None"
| "cs_writer (External w) = Some w"
| "cs_writer (Inline w v) = Some w"
| "cs_writer (Tombstone w) = Some w"

fun cs_inline :: "CurrentState \<Rightarrow> bytes option" where
  "cs_inline (Inline w v) = Some v"
| "cs_inline _ = None"

definition cs_inline_len :: "CurrentState \<Rightarrow> nat" where
  "cs_inline_len c = (case cs_inline c of None \<Rightarrow> 0 | Some v \<Rightarrow> length v)"

fun cs_is_tombstone :: "CurrentState \<Rightarrow> bool" where
  "cs_is_tombstone (Tombstone w) = True"
| "cs_is_tombstone _ = False"

fun cs_exists :: "CurrentState \<Rightarrow> bool" where
  "cs_exists (External w) = True"
| "cs_exists (Inline w v) = True"
| "cs_exists _ = False"

section \<open>Entries\<close>

record leaf_entry =
  le_key :: bytes
  le_current :: CurrentState
  le_lock :: key_lock_state

definition le_new :: "bytes \<Rightarrow> leaf_entry" where
  "le_new key = \<lparr>le_key = key, le_current = Absent, le_lock = kl_default\<rparr>"

definition le_with_current :: "CurrentState \<Rightarrow> leaf_entry \<Rightarrow> leaf_entry" where
  "le_with_current c e = e\<lparr>le_current := c\<rparr>"

definition le_lock_type :: "leaf_entry \<Rightarrow> LockType" where
  "le_lock_type e = kl_lock_type (le_lock e)"

definition le_lock_holders :: "leaf_entry \<Rightarrow> tx_id list" where
  "le_lock_holders e = kl_holders (le_lock e)"

definition le_is_locked_by :: "leaf_entry \<Rightarrow> tx_id \<Rightarrow> bool" where
  "le_is_locked_by e i = kl_contains (le_lock e) i"

definition le_replace_lock :: "key_lock_state \<Rightarrow> leaf_entry \<Rightarrow> leaf_entry" where
  "le_replace_lock l e = e\<lparr>le_lock := l\<rparr>"

definition le_acquire_read_lock :: "tx_id \<Rightarrow> leaf_entry \<Rightarrow> leaf_entry" where
  "le_acquire_read_lock i e = e\<lparr>le_lock := kl_acquire_read i (le_lock e)\<rparr>"

definition le_replace_write_lock :: "tx_id \<Rightarrow> leaf_entry \<Rightarrow> leaf_entry" where
  "le_replace_write_lock i e = le_replace_lock (kl_write i) e"

definition le_replace_create_lock :: "tx_id \<Rightarrow> leaf_entry \<Rightarrow> leaf_entry" where
  "le_replace_create_lock i e = le_replace_lock (kl_create i) e"

definition le_release_lock :: "tx_id \<Rightarrow> leaf_entry \<Rightarrow> bool \<times> leaf_entry" where
  "le_release_lock i e =
     (let (removed, l) = kl_release i (le_lock e) in (removed, e\<lparr>le_lock := l\<rparr>))"

definition le_exists :: "leaf_entry \<Rightarrow> bool" where
  "le_exists e = cs_exists (le_current e)"

definition le_is_vestigial :: "leaf_entry \<Rightarrow> bool" where
  "le_is_vestigial e \<longleftrightarrow> le_lock_holders e = [] \<and> le_current e = Absent"

section \<open>Encoded sizes\<close>

record prost_sizes =
  key_len :: "nat \<Rightarrow> nat"
  encoded_len_varint :: "nat \<Rightarrow> nat"

definition length_delimited_field :: "prost_sizes \<Rightarrow> nat \<Rightarrow> nat \<Rightarrow> nat" where
  "length_delimited_field P tag payload_len =
     key_len P tag + encoded_len_varint P payload_len + payload_len"

definition nonempty_length_delimited_field :: "prost_sizes \<Rightarrow> nat \<Rightarrow> nat \<Rightarrow> nat" where
  "nonempty_length_delimited_field P tag payload_len =
     (if payload_len = 0 then 0 else length_delimited_field P tag payload_len)"

definition present_varint_field :: "prost_sizes \<Rightarrow> nat \<Rightarrow> nat \<Rightarrow> nat" where
  "present_varint_field P tag value = key_len P tag + encoded_len_varint P value"

definition nonzero_varint_field :: "prost_sizes \<Rightarrow> nat \<Rightarrow> nat \<Rightarrow> nat" where
  "nonzero_varint_field P tag value = (if value = 0 then 0 else present_varint_field P tag value)"

definition current_state_field_len :: "prost_sizes \<Rightarrow> CurrentState \<Rightarrow> nat" where
  "current_state_field_len P current =
     (let len = (\<lambda>w state_len. length_delimited_field P 4
           (nonempty_length_delimited_field P 1 (length (tx_bytes w)) + state_len))
      in case current of
           Absent \<Rightarrow> 0
         | External w \<Rightarrow> len w (present_varint_field P 2 1)
         | Inline w v \<Rightarrow> len w (length_delimited_field P 3 (length v))
         | Tombstone w \<Rightarrow> len w (present_varint_field P 4 1))"

definition le_encoded_len :: "prost_sizes \<Rightarrow> leaf_entry \<Rightarrow> nat" where
  "le_encoded_len P e =
     nonempty_length_delimited_field P 1 (length (le_key e))
     + nonzero_varint_field P 2 (nat (lock_type_to_proto (le_lock_type e)))
     + (\<Sum>h \<leftarrow> le_lock_holders e. length_delimited_field P 3 (length (tx_bytes h)))
     + current_state_field_len P (le_current e)"

definition worst_case_encoded_len :: "prost_sizes \<Rightarrow> nat \<Rightarrow> nat" where
  "worst_case_encoded_len P klen =
     (let current_len = nonempty_length_delimited_field P 1 ID_BYTES + present_varint_field P 2 1
      in nonempty_length_delimited_field P 1 klen
         + nonzero_varint_field P 2 (nat (lock_type_to_proto LtWrite))
         + length_delimited_field P 3 ID_BYTES
         + length_delimited_field P 4 current_len)"

text \<open>\<^verbatim>\<open>InlinePolicy\<close>; natural subtraction is \<^verbatim>\<open>saturating_sub\<close>.\<close>

record inline_policy =
  max_value_bytes :: nat
  max_leaf_bytes :: nat

definition inline_policy_default :: inline_policy where
  "inline_policy_default = \<lparr>max_value_bytes = 1024, max_leaf_bytes = 16 * 1024\<rparr>"

definition admits_value :: "inline_policy \<Rightarrow> nat \<Rightarrow> bool" where
  "admits_value p value_len \<longleftrightarrow> max_value_bytes p \<noteq> 0 \<and> value_len \<le> max_value_bytes p
     \<and> value_len \<le> max_leaf_bytes p"

definition admits :: "inline_policy \<Rightarrow> nat \<Rightarrow> nat \<Rightarrow> bool" where
  "admits p others_len value_len \<longleftrightarrow> admits_value p value_len
     \<and> others_len \<le> max_leaf_bytes p - value_len"

section \<open>Leaf bodies\<close>

datatype leaf_body = LeafBody (lb_entries: "(bytes, leaf_entry) omap")

definition lb_new :: leaf_body where
  "lb_new = LeafBody []"

definition lb_from_entries :: "leaf_entry list \<Rightarrow> leaf_body" where
  "lb_from_entries es = LeafBody (om_of_list (map (\<lambda>e. (le_key e, e)) es))"

definition lb_lookup :: "leaf_body \<Rightarrow> bytes \<Rightarrow> leaf_entry option" where
  "lb_lookup b key = map_of (lb_entries b) key"

definition lb_exists :: "leaf_body \<Rightarrow> bytes \<Rightarrow> bool" where
  "lb_exists b key = (case lb_lookup b key of None \<Rightarrow> False | Some e \<Rightarrow> le_exists e)"

definition lb_values :: "leaf_body \<Rightarrow> leaf_entry list" where
  "lb_values b = map snd (lb_entries b)"

definition lb_len :: "leaf_body \<Rightarrow> nat" where
  "lb_len b = length (lb_entries b)"

definition lb_is_empty :: "leaf_body \<Rightarrow> bool" where
  "lb_is_empty b \<longleftrightarrow> lb_entries b = []"

text \<open>\<^verbatim>\<open>split_off_median\<close> on \<^verbatim>\<open>&mut self\<close>: the kept body, the upper body and the split key;
  \<^term>\<open>None\<close> where \<^verbatim>\<open>expect("median index is in range")\<close> panics.\<close>

definition lb_split_off_median :: "leaf_body \<Rightarrow> (leaf_body \<times> leaf_body \<times> bytes) option" where
  "lb_split_off_median b =
     (let mid = lb_len b div 2
      in if mid < lb_len b
         then (let split_key = om_keys (lb_entries b) ! mid
               in Some (LeafBody (om_below split_key (lb_entries b)),
                        LeafBody (om_from split_key (lb_entries b)), split_key))
         else None)"

definition lb_divides_at :: "leaf_body \<Rightarrow> bytes \<Rightarrow> bool" where
  "lb_divides_at b split_key \<longleftrightarrow>
     om_below split_key (lb_entries b) \<noteq> [] \<and> om_from split_key (lb_entries b) \<noteq> []"

definition lb_split_off_at :: "leaf_body \<Rightarrow> bytes \<Rightarrow> (leaf_body \<times> leaf_body) option" where
  "lb_split_off_at b split_key =
     (if \<not> lb_divides_at b split_key then None
      else Some (LeafBody (om_below split_key (lb_entries b)),
                 LeafBody (om_from split_key (lb_entries b))))"

definition lb_median_key :: "leaf_body \<Rightarrow> bytes option" where
  "lb_median_key b =
     (if lb_len b < 2 then None else Some (om_keys (lb_entries b) ! (lb_len b div 2)))"

section \<open>Protobuf form\<close>

definition current_to_proto :: "CurrentState \<Rightarrow> pb_current_state option" where
  "current_to_proto current =
     (case current of
        Absent \<Rightarrow> None
      | External w \<Rightarrow> Some \<lparr>pb_writer = tx_bytes w, pb_state = Some (PbExternal True)\<rparr>
      | Inline w v \<Rightarrow> Some \<lparr>pb_writer = tx_bytes w, pb_state = Some (PbInline v)\<rparr>
      | Tombstone w \<Rightarrow> Some \<lparr>pb_writer = tx_bytes w, pb_state = Some (PbTombstone True)\<rparr>)"

definition current_from_proto :: "pb_current_state option \<Rightarrow> (StorageError, CurrentState) result" where
  "current_from_proto raw =
     (case raw of
        None \<Rightarrow> Inr Absent
      | Some r \<Rightarrow>
          bind_r (decode_id tx_id_try_from (pb_writer r)
                    ''leaf entry current value has an invalid writer'')
            (\<lambda>w. case pb_state r of
                Some (PbExternal _) \<Rightarrow> Inr (External w)
              | Some (PbInline v) \<Rightarrow> Inr (Inline w v)
              | Some (PbTombstone _) \<Rightarrow> Inr (Tombstone w)
              | None \<Rightarrow> Inl (OtherError ''leaf entry current value has no state tag'')))"

definition entry_to_proto :: "leaf_entry \<Rightarrow> pb_leaf_entry" where
  "entry_to_proto e =
     (let (lock_type, locked_by) = kl_to_wire (le_lock e)
      in \<lparr>pb_key = le_key e, pb_entry_lock_type = lock_type, pb_entry_locked_by = locked_by,
          pb_current = current_to_proto (le_current e)\<rparr>)"

definition entry_from_proto :: "pb_leaf_entry \<Rightarrow> (StorageError, leaf_entry) result" where
  "entry_from_proto e =
     bind_r (map_err (\<lambda>_. OtherError ''leaf entry has an invalid lock'')
               (kl_from_wire (pb_entry_lock_type e) (pb_entry_locked_by e)))
       (\<lambda>lock. map_r (\<lambda>c. \<lparr>le_key = pb_key e, le_current = c, le_lock = lock\<rparr>)
                 (current_from_proto (pb_current e)))"

definition lb_to_pb :: "leaf_body \<Rightarrow> pb_leaf_body" where
  "lb_to_pb b = \<lparr>pb_leaf_entries = map entry_to_proto (lb_values b)\<rparr>"

text \<open>The loop of \<^verbatim>\<open>LeafBody::from_pb\<close>: stops at the first entry that does not decode or whose
  key the map already has.\<close>

fun lb_from_pb_loop ::
  "pb_leaf_entry list \<Rightarrow> (bytes, leaf_entry) omap \<Rightarrow> (StorageError, (bytes, leaf_entry) omap) result" where
  "lb_from_pb_loop [] entries = Inr entries"
| "lb_from_pb_loop (e # es) entries =
     (case entry_from_proto e of
        Inl err \<Rightarrow> Inl err
      | Inr entry \<Rightarrow>
          (case map_of entries (le_key entry) of
             Some _ \<Rightarrow> Inl (OtherError ''leaf contains duplicate entries for a key'')
           | None \<Rightarrow> lb_from_pb_loop es (om_insert (le_key entry) entry entries)))"

definition lb_from_pb :: "pb_leaf_body \<Rightarrow> (StorageError, leaf_body) result" where
  "lb_from_pb raw = map_r LeafBody (lb_from_pb_loop (pb_leaf_entries raw) [])"

section \<open>Well-formedness\<close>

definition cs_wf :: "CurrentState \<Rightarrow> bool" where
  "cs_wf c = (case cs_writer c of None \<Rightarrow> True | Some w \<Rightarrow> tx_ok w)"

definition le_wf :: "leaf_entry \<Rightarrow> bool" where
  "le_wf e \<longleftrightarrow> cs_wf (le_current e) \<and> kl_wf (le_lock e)"

text \<open>Entries stand under their own key and are well-formed.\<close>

definition entries_wf :: "(bytes, leaf_entry) omap \<Rightarrow> bool" where
  "entries_wf m \<longleftrightarrow> om_wf m \<and> (\<forall>(k, e) \<in> set m. le_key e = k \<and> le_wf e)"

definition lb_wf :: "leaf_body \<Rightarrow> bool" where
  "lb_wf b \<longleftrightarrow> entries_wf (lb_entries b)"

lemma entries_wf_om: "entries_wf m \<Longrightarrow> om_wf m"
  by (simp add: entries_wf_def)

lemma entries_wf_insert [wf_intros]:
  "entries_wf m \<Longrightarrow> le_wf e \<Longrightarrow> le_key e = k \<Longrightarrow> entries_wf (om_insert k e m)"
proof -
  assume m: "entries_wf m" and e: "le_wf e" "le_key e = k"
  have "set (om_insert k e m) \<subseteq> insert (k, e) (set m)"
    by (induction k e m rule: om_insert.induct) auto
  then show ?thesis using m e by (auto simp: entries_wf_def)
qed

lemma entries_wf_filter [wf_intros]: "entries_wf m \<Longrightarrow> entries_wf (filter P m)"
  by (auto simp: entries_wf_def)

lemma entries_wf_split [wf_intros]:
  "entries_wf m \<Longrightarrow> entries_wf (om_below k m)" "entries_wf m \<Longrightarrow> entries_wf (om_from k m)"
  by (auto simp: om_below_def om_from_def intro: wf_intros)

lemma entries_values: "entries_wf m \<Longrightarrow> map (\<lambda>e. (le_key e, e)) (map snd m) = m"
  by (induction m) (auto simp: entries_wf_def)

lemma lb_from_values [simp]: "lb_wf b \<Longrightarrow> lb_from_entries (lb_values b) = b"
  by (cases b) (simp only: lb_wf_def lb_from_entries_def lb_values_def entries_values leaf_body.sel
      om_of_list_id[OF entries_wf_om])

lemma lb_wf_from_entries [wf_intros]:
  "\<forall>e \<in> set es. le_wf e \<Longrightarrow> lb_wf (lb_from_entries es)"
proof -
  have "entries_wf m \<Longrightarrow> \<forall>e \<in> set es. le_wf e \<Longrightarrow>
      entries_wf (fold (\<lambda>(k, v). om_insert k v) (map (\<lambda>e. (le_key e, e)) es) m)" for m
    by (induction es arbitrary: m) (auto intro: wf_intros)
  from this[of "[]"] show "\<forall>e \<in> set es. le_wf e \<Longrightarrow> ?thesis"
    by (auto simp: lb_wf_def lb_from_entries_def om_of_list_def entries_wf_def[of "[]"])
qed

section \<open>Wire round trip of a leaf\<close>

lemma current_proto_roundtrip [wire_simps]:
  "cs_wf c \<Longrightarrow> current_from_proto (current_to_proto c) = Inr c"
  by (cases c) (auto simp: current_from_proto_def current_to_proto_def cs_wf_def bind_r_ok_iff
      wire_simps try_from_as_bytes)

lemma current_from_proto_wf: "current_from_proto raw = Inr c \<Longrightarrow> cs_wf c"
  by (auto simp: current_from_proto_def cs_wf_def bind_r_ok_iff wire_simps try_from_as_bytes
      split: option.splits pb_state.splits)

lemma entry_proto_roundtrip [wire_simps]:
  "le_wf e \<Longrightarrow> entry_from_proto (entry_to_proto e) = Inr e"
  by (cases "le_lock e") (auto simp: entry_from_proto_def entry_to_proto_def le_wf_def kl_wf_def
      kl_to_wire_def kl_from_wire_def ls_to_wire_def wire_simps)

lemma entry_from_proto_wf: "entry_from_proto raw = Inr e \<Longrightarrow> le_wf e"
  by (auto simp: entry_from_proto_def le_wf_def kl_wf_def kl_from_wire_def bind_r_ok_iff
      map_r_ok_iff dest: current_from_proto_wf ls_from_wire_wf)

lemma lb_from_pb_loop_wf:
  "lb_from_pb_loop es m = Inr m' \<Longrightarrow> entries_wf m \<Longrightarrow> entries_wf m'"
  by (induction es m rule: lb_from_pb_loop.induct)
    (auto split: sum.splits option.splits intro: wf_intros entry_from_proto_wf)

lemma lb_from_pb_wf: "lb_from_pb raw = Inr b \<Longrightarrow> lb_wf b"
  by (auto simp: lb_from_pb_def map_r_ok_iff lb_wf_def entries_wf_def[of "[]"]
      dest: lb_from_pb_loop_wf)

lemma lb_from_pb_loop_roundtrip:
  "entries_wf (m @ n) \<Longrightarrow> lb_from_pb_loop (map entry_to_proto (map snd n)) m = Inr (m @ n)"
proof (induction n arbitrary: m)
  case (Cons p n)
  obtain k e where p: "p = (k, e)" by (cases p)
  from Cons.prems have e: "le_wf e" "le_key e = k"
    and lt: "\<forall>a \<in> set (om_keys m). a < k"
    by (auto simp: entries_wf_def p sorted_wrt_append)
  have "map_of m k = None" using lt by (auto simp: map_of_eq_None_iff)
  moreover have "entries_wf ((m @ [(k, e)]) @ n)" using Cons.prems by (simp add: p)
  ultimately show ?case
    using Cons.IH e by (simp add: p wire_simps om_insert_last[OF lt])
qed simp

lemma lb_pb_roundtrip [wire_simps]: "lb_wf b \<Longrightarrow> lb_from_pb (lb_to_pb b) = Inr b"
  using lb_from_pb_loop_roundtrip[of "[]" "lb_entries b"]
  by (cases b) (simp add: lb_from_pb_def lb_to_pb_def lb_values_def lb_wf_def)

section \<open>Splitting a leaf\<close>

lemma lb_split_off_median_parts:
  assumes "lb_wf b" "lb_split_off_median b = Some (l, u, k)"
  shows "lb_entries l = take (lb_len b div 2) (lb_entries b)"
    and "lb_entries u = drop (lb_len b div 2) (lb_entries b)"
    and "l = LeafBody (om_below k (lb_entries b))" "u = LeafBody (om_from k (lb_entries b))"
    and "k \<in> set (om_keys (lb_entries b))"
  using assms om_split_nth[of "lb_entries b" "lb_len b div 2"]
  by (auto simp: lb_split_off_median_def lb_wf_def Let_def lb_len_def entries_wf_om
      split: if_splits)

lemma lb_split_off_median_total: "lb_len b \<noteq> 0 \<Longrightarrow> \<exists>l u k. lb_split_off_median b = Some (l, u, k)"
  by (auto simp: lb_split_off_median_def Let_def)

lemma lb_split_median_divides:
  assumes "lb_wf b" "2 \<le> lb_len b" "lb_split_off_median b = Some (l, u, k)"
  shows "lb_divides_at b k" "lb_median_key b = Some k"
  using lb_split_off_median_parts[OF assms(1,3)] assms
  by (auto simp: lb_divides_at_def lb_len_def lb_median_key_def lb_split_off_median_def Let_def
      split: if_splits)

lemma lb_lookup_split:
  "lb_lookup (LeafBody (om_below k (lb_entries b))) x = (if x < k then lb_lookup b x else None)"
  "lb_lookup (LeafBody (om_from k (lb_entries b))) x = (if k \<le> x then lb_lookup b x else None)"
  by (simp_all add: lb_lookup_def map_of_om_below map_of_om_from)

lemma lb_wf_split [wf_intros]:
  "lb_wf b \<Longrightarrow> lb_wf (LeafBody (om_below k (lb_entries b)))"
  "lb_wf b \<Longrightarrow> lb_wf (LeafBody (om_from k (lb_entries b)))"
  by (auto simp: lb_wf_def intro: wf_intros)

lemma lb_lookup_from_entries:
  "lb_lookup (lb_from_entries es) k = map_of (rev (map (\<lambda>e. (le_key e, e)) es)) k"
  by (simp add: lb_lookup_def lb_from_entries_def map_of_om_of_list)

section \<open>Lock transitions of an entry\<close>

lemma le_wf_new [simp, wf_intros]: "le_wf (le_new k)"
  by (simp add: le_new_def le_wf_def cs_wf_def kl_defs)

lemma le_wf_release [wf_intros]: "le_wf e \<Longrightarrow> le_wf (snd (le_release_lock i e))"
  by (auto simp: le_release_lock_def le_wf_def split: prod.splits)
    (metis key_lock.wf_release snd_conv)

lemma le_release_lock_result:
  "le_key (snd (le_release_lock i e)) = le_key e"
  "le_current (snd (le_release_lock i e)) = le_current e"
  "le_lock_holders (snd (le_release_lock i e)) = remove_sorted i (le_lock_holders e)"
  using key_lock.release_holders[of i "le_lock e"]
  by (auto simp: le_release_lock_def le_lock_holders_def split: prod.splits)

lemma le_is_locked_by_iff: "le_is_locked_by e i \<longleftrightarrow> i \<in> set (le_lock_holders e)"
  by (simp add: le_is_locked_by_def le_lock_holders_def kl_defs)

section \<open>Properties\<close>

text \<open>C17: decoding the message of a well-formed leaf gives the leaf back; and whatever decodes is a
  well-formed leaf, whose keys are strictly increasing, whose entries stand under their own keys and
  whose locks are well shaped.\<close>

theorem leaf_pb_roundtrip:
  "(lb_wf b \<longrightarrow> lb_from_pb (lb_to_pb b) = Inr b) \<and> (lb_from_pb raw = Inr b' \<longrightarrow> lb_wf b')"
  using lb_pb_roundtrip lb_from_pb_wf by blast

theorem leaf_pb_roundtrip_witness:
  "lb_from_pb (lb_to_pb (lb_from_entries [le_new [2], le_new [1]]))
     = Inr (lb_from_entries [le_new [2], le_new [1]])"
proof -
  have "lb_wf (lb_from_entries [le_new [2], le_new [1]])" by (rule lb_wf_from_entries) simp
  then show ?thesis
    using leaf_pb_roundtrip[of "lb_from_entries [le_new [2], le_new [1]]"] by blast
qed

text \<open>C18: the size reserved for a key bounds the encoding of any entry of that key with at most one
  holder and no inline value, for an encoder whose tags up to 15 and varints below 128 take one byte.\<close>

theorem worst_case_encoded_len_bound:
  assumes tags: "\<forall>tag. 1 \<le> tag \<and> tag \<le> 15 \<longrightarrow> key_len P tag = 1"
    and varints: "\<forall>v < 128. encoded_len_varint P v = 1"
    and wf: "le_wf e" and holders: "length (le_lock_holders e) \<le> 1"
    and external: "cs_inline (le_current e) = None"
  shows "le_encoded_len P e \<le> worst_case_encoded_len P (length (le_key e))"
proof -
  note sizes = length_delimited_field_def nonempty_length_delimited_field_def
    present_varint_field_def nonzero_varint_field_def
  have ids: "\<forall>h \<in> set (le_lock_holders e). length (tx_bytes h) = 16"
    "\<forall>w. cs_writer (le_current e) = Some w \<longrightarrow> length (tx_bytes w) = 16"
    using wf by (auto simp: le_wf_def cs_wf_def kl_defs ls_wf_def id_ok_def le_lock_holders_def)
  have "nonzero_varint_field P 2 (nat (lock_type_to_proto (le_lock_type e))) \<le> 2"
    using tags varints by (cases "le_lock_type e") (auto simp: sizes lock_type_to_proto_def)
  moreover have "(\<Sum>h \<leftarrow> le_lock_holders e. length_delimited_field P 3 (length (tx_bytes h))) \<le> 18"
    using holders ids(1) tags varints by (cases "le_lock_holders e") (auto simp: sizes)
  moreover have "current_state_field_len P (le_current e) \<le> 22"
    using external ids(2) tags varints
    by (cases "le_current e") (auto simp: sizes current_state_field_len_def)
  ultimately show ?thesis using tags varints
    by (simp add: le_encoded_len_def worst_case_encoded_len_def Let_def sizes
        lock_type_to_proto_def)
qed

theorem worst_case_encoded_len_bound_witness:
  "le_encoded_len \<lparr>key_len = (\<lambda>_. 1), encoded_len_varint = (\<lambda>v. if v < 128 then 1 else 2)\<rparr> (le_new [7])
     \<le> worst_case_encoded_len \<lparr>key_len = (\<lambda>_. 1), encoded_len_varint = (\<lambda>v. if v < 128 then 1 else 2)\<rparr> 1"
  using worst_case_encoded_len_bound[of
      "\<lparr>key_len = (\<lambda>_. 1), encoded_len_varint = (\<lambda>v. if v < 128 then 1 else 2)\<rparr>" "le_new [7]"]
  by (simp add: le_lock_holders_def le_new_def kl_defs ls_default_def le_wf_def cs_wf_def ls_wf_def
      shape_ok_def)

end
