(* ===== verification/Node.thy ===== *)
theory Node
  imports Leaf
begin

text \<open>
  B-link tree nodes (\<^verbatim>\<open>glassdb-storage/src/node.rs\<close>): index bodies and their routing,
  the size policy, the node locks with the membership generation (a \<^verbatim>\<open>u64\<close> that
  wraps), and the node with its split, drain, absorb, abandon and wire operations.

  The lemmas show that a split or a merge moves every entry to exactly one node
  whose range covers it, that abandoning a merge undoes it, that the generation
  fences every change of the structural holders, and that nodes survive the wire.
\<close>

section \<open>Index bodies\<close>

datatype index_node = IndexNode (in_children: "(bytes, node_id) omap")

definition in_from_children :: "(bytes \<times> node_id) list \<Rightarrow> index_node" where
  "in_from_children cs = IndexNode (om_of_list cs)"

definition first_child :: "(bytes, node_id) omap \<Rightarrow> node_id option" where
  "first_child m = (case m of [] \<Rightarrow> None | (_, c) # _ \<Rightarrow> Some c)"

definition last_child :: "(bytes, node_id) omap \<Rightarrow> node_id option" where
  "last_child m = (if m = [] then None else Some (snd (last m)))"

definition child_for :: "index_node \<Rightarrow> bytes \<Rightarrow> node_id option" where
  "child_for n key =
     (case last_child (filter (\<lambda>p. fst p \<le> key) (in_children n)) of
        Some c \<Rightarrow> Some c
      | None \<Rightarrow> first_child (in_children n))"

definition child_before :: "index_node \<Rightarrow> bytes \<Rightarrow> node_id option" where
  "child_before n key =
     (case last_child (filter (\<lambda>p. fst p < key) (in_children n)) of
        Some c \<Rightarrow> Some c
      | None \<Rightarrow> first_child (in_children n))"

definition in_insert_child :: "bytes \<Rightarrow> node_id \<Rightarrow> index_node \<Rightarrow> index_node" where
  "in_insert_child separator child n = IndexNode (om_insert separator child (in_children n))"

definition in_split_off_median :: "index_node \<Rightarrow> (index_node \<times> index_node \<times> bytes) option" where
  "in_split_off_median n =
     (let mid = length (in_children n) div 2
      in if mid < length (in_children n)
         then (let separator = om_keys (in_children n) ! mid
               in Some (IndexNode (om_below separator (in_children n)),
                        IndexNode (om_from separator (in_children n)), separator))
         else None)"

record pb_index_entry =
  pb_separator_key :: bytes
  pb_child :: bytes

record pb_index_node =
  pb_index_entries :: "pb_index_entry list"

definition in_to_pb :: "index_node \<Rightarrow> pb_index_node" where
  "in_to_pb n = \<lparr>pb_index_entries =
     map (\<lambda>(s, c). \<lparr>pb_separator_key = s, pb_child = nid_bytes c\<rparr>) (in_children n)\<rparr>"

definition in_entry_from_pb :: "pb_index_entry \<Rightarrow> (StorageError, bytes \<times> node_id) result" where
  "in_entry_from_pb e =
     map_r (\<lambda>c. (pb_separator_key e, c))
       (decode_id node_id_try_from (pb_child e) ''index node has an invalid child ID'')"

definition in_from_pb :: "pb_index_node \<Rightarrow> (StorageError, index_node) result" where
  "in_from_pb raw = map_r in_from_children (traverse_r in_entry_from_pb (pb_index_entries raw))"

section \<open>Size policy\<close>

record node_size_policy =
  leaf_max_entries :: nat
  node_soft_max_bytes :: nat
  index_max_children :: nat
  leaf_min_entries :: nat
  index_min_children :: nat
  node_max_bytes :: nat
  split_headroom_bytes :: nat

text \<open>The error carries the two limits that conflict.\<close>

datatype InvalidNodeSizePolicy = InvalidNodeSizePolicy nat nat

text \<open>The builder has the fields of the policy; \<^verbatim>\<open>build\<close> checks them.\<close>

definition policy_builder_default :: node_size_policy where
  "policy_builder_default =
     \<lparr>leaf_max_entries = 48, node_soft_max_bytes = 256 * 1024, index_max_children = 256,
      leaf_min_entries = 12, index_min_children = 64, node_max_bytes = 1024 * 1024,
      split_headroom_bytes = 64 * 1024\<rparr>"

definition policy_build :: "node_size_policy \<Rightarrow> (InvalidNodeSizePolicy, node_size_policy) result" where
  "policy_build b =
     (if split_headroom_bytes b > node_max_bytes b
      then Inl (InvalidNodeSizePolicy (node_max_bytes b) (split_headroom_bytes b))
      else Inr b)"

definition content_limit :: "node_size_policy \<Rightarrow> nat" where
  "content_limit p = node_max_bytes p - split_headroom_bytes p"

definition leaf_entry_content_encoded_len :: "prost_sizes \<Rightarrow> leaf_entry \<Rightarrow> nat" where
  "leaf_entry_content_encoded_len P e =
     length_delimited_field P 3 (length_delimited_field P 1 (le_encoded_len P e))"

definition worst_case_leaf_entry_len :: "prost_sizes \<Rightarrow> nat \<Rightarrow> nat" where
  "worst_case_leaf_entry_len P klen =
     length_delimited_field P 3 (length_delimited_field P 1 (worst_case_encoded_len P klen))"

definition worst_case_parent_separator_len :: "prost_sizes \<Rightarrow> nat \<Rightarrow> nat" where
  "worst_case_parent_separator_len P klen =
     (let child_len = length_delimited_field P 2 ID_BYTES;
          entry_len = (\<lambda>separator_len. nonempty_length_delimited_field P 1 separator_len + child_len);
          candidate_len = length_delimited_field P 1 (entry_len klen);
          index_len = (if klen = 0 then candidate_len
                       else length_delimited_field P 1 (entry_len 0) + candidate_len)
      in length_delimited_field P 4 index_len)"

definition entry_fits_split_budget :: "prost_sizes \<Rightarrow> node_size_policy \<Rightarrow> leaf_entry \<Rightarrow> bool" where
  "entry_fits_split_budget P p e \<longleftrightarrow> leaf_entry_content_encoded_len P e \<le> content_limit p div 2"

definition parent_separator_fits :: "prost_sizes \<Rightarrow> node_size_policy \<Rightarrow> bytes \<Rightarrow> bool" where
  "parent_separator_fits P p key \<longleftrightarrow> worst_case_parent_separator_len P (length key) \<le> content_limit p"

definition key_fits :: "prost_sizes \<Rightarrow> node_size_policy \<Rightarrow> bytes \<Rightarrow> bool" where
  "key_fits P p key \<longleftrightarrow> worst_case_leaf_entry_len P (length key) \<le> content_limit p div 2
     \<and> parent_separator_fits P p key"

section \<open>Node locks\<close>

record node_locks =
  nl_structure :: exclusive_gate
  nl_membership :: shared_exclusive_lock
  nl_generation :: "64 word"
  nl_drop_intent :: "tx_id option"
  nl_merge_reservation :: "structural_intent_id option"

definition nl_default :: node_locks where
  "nl_default = \<lparr>nl_structure = eg_default, nl_membership = sx_default, nl_generation = 0,
     nl_drop_intent = None, nl_merge_reservation = None\<rparr>"

definition advance_membership_generation :: "node_locks \<Rightarrow> node_locks" where
  "advance_membership_generation l = l\<lparr>nl_generation := nl_generation l + 1\<rparr>"

definition nl_set_drop_intent :: "tx_id \<Rightarrow> node_locks \<Rightarrow> node_locks" where
  "nl_set_drop_intent i l = l\<lparr>nl_drop_intent := Some i\<rparr>"

definition nl_remove_drop_intent :: "tx_id \<Rightarrow> node_locks \<Rightarrow> bool \<times> node_locks" where
  "nl_remove_drop_intent i l =
     (if nl_drop_intent l \<noteq> Some i then (False, l) else (True, l\<lparr>nl_drop_intent := None\<rparr>))"

definition nl_set_structural_gate :: "tx_id \<Rightarrow> node_locks \<Rightarrow> node_locks" where
  "nl_set_structural_gate i l =
     (if eg_holders (nl_structure l) = [i] then l
      else advance_membership_generation (l\<lparr>nl_structure := eg_set_writer i (nl_structure l)\<rparr>))"

definition nl_remove_structural_gate :: "tx_id \<Rightarrow> node_locks \<Rightarrow> bool \<times> node_locks" where
  "nl_remove_structural_gate i l =
     (let (removed, g) = eg_remove i (nl_structure l) in (removed, l\<lparr>nl_structure := g\<rparr>))"

definition nl_set_merge_reservation :: "structural_intent_id \<Rightarrow> node_locks \<Rightarrow> node_locks" where
  "nl_set_merge_reservation intent l =
     (if nl_merge_reservation l = Some intent then l
      else advance_membership_generation (l\<lparr>nl_merge_reservation := Some intent\<rparr>))"

definition nl_remove_merge_reservation :: "structural_intent_id \<Rightarrow> node_locks \<Rightarrow> bool \<times> node_locks" where
  "nl_remove_merge_reservation intent l =
     (if nl_merge_reservation l \<noteq> Some intent then (False, l)
      else (True, l\<lparr>nl_merge_reservation := None\<rparr>))"

definition nl_add_membership_reader :: "tx_id \<Rightarrow> node_locks \<Rightarrow> node_locks" where
  "nl_add_membership_reader i l = l\<lparr>nl_membership := sx_add_reader i (nl_membership l)\<rparr>"

definition nl_set_membership_writer :: "tx_id \<Rightarrow> node_locks \<Rightarrow> node_locks" where
  "nl_set_membership_writer i l =
     (if sx_lock_type (nl_membership l) = LtWrite \<and> sx_holders (nl_membership l) = [i] then l
      else l\<lparr>nl_membership := sx_set_writer i (nl_membership l),
             nl_generation := nl_generation l + 1\<rparr>)"

definition nl_remove_membership_holder :: "tx_id \<Rightarrow> node_locks \<Rightarrow> bool \<times> node_locks" where
  "nl_remove_membership_holder i l =
     (let was_writer = (sx_lock_type (nl_membership l) = LtWrite \<and> sx_contains (nl_membership l) i);
          (removed, m) = sx_remove i (nl_membership l);
          l' = l\<lparr>nl_membership := m\<rparr>
      in (removed,
          if removed \<and> was_writer then l'\<lparr>nl_generation := nl_generation l + 1\<rparr> else l'))"

definition nl_release_membership :: "tx_id \<Rightarrow> node_locks \<Rightarrow> bool \<times> node_locks" where
  "nl_release_membership i l = nl_remove_membership_holder i l"

definition nl_clear_holders :: "node_locks \<Rightarrow> node_locks" where
  "nl_clear_holders l = l\<lparr>nl_structure := eg_clear (nl_structure l),
     nl_membership := sx_clear (nl_membership l), nl_merge_reservation := None\<rparr>"

section \<open>Nodes\<close>

datatype NodeBody = Leaf leaf_body | Index index_node

record node =
  nd_low_key :: bytes
  nd_high_key :: "bytes option"
  nd_right_sibling :: "node_id option"
  nd_body :: NodeBody
  nd_locks :: node_locks
  nd_drained :: bool

definition node_leaf :: "leaf_body \<Rightarrow> node" where
  "node_leaf b = \<lparr>nd_low_key = [], nd_high_key = None, nd_right_sibling = None, nd_body = Leaf b,
     nd_locks = nl_default, nd_drained = False\<rparr>"

definition node_index :: "index_node \<Rightarrow> node" where
  "node_index n = \<lparr>nd_low_key = [], nd_high_key = None, nd_right_sibling = None, nd_body = Index n,
     nd_locks = nl_default, nd_drained = False\<rparr>"

definition is_below_range :: "node \<Rightarrow> bytes \<Rightarrow> bool" where
  "is_below_range n key \<longleftrightarrow> key < nd_low_key n"

definition as_leaf :: "node \<Rightarrow> leaf_body option" where
  "as_leaf n = (case nd_body n of Leaf b \<Rightarrow> Some b | Index _ \<Rightarrow> None)"

definition as_index :: "node \<Rightarrow> index_node option" where
  "as_index n = (case nd_body n of Index i \<Rightarrow> Some i | Leaf _ \<Rightarrow> None)"

definition covers :: "node \<Rightarrow> bytes \<Rightarrow> bool" where
  "covers n key =
     (if nd_drained n then False
      else case nd_high_key n of None \<Rightarrow> True | Some hk \<Rightarrow> key < hk)"

definition drain :: "node_id \<Rightarrow> node \<Rightarrow> node" where
  "drain target n = n\<lparr>
     nd_body := (case nd_body n of Leaf _ \<Rightarrow> Leaf lb_new | Index _ \<Rightarrow> Index (IndexNode [])),
     nd_right_sibling := Some target,
     nd_locks := nl_clear_holders (nd_locks n),
     nd_drained := True\<rparr>"

definition absorb_body :: "NodeBody \<Rightarrow> NodeBody \<Rightarrow> (StorageError, NodeBody) result" where
  "absorb_body right left =
     (case (right, left) of
        (Leaf r, Leaf l) \<Rightarrow> Inr (Leaf (lb_from_entries (lb_values l @ lb_values r)))
      | (Index r, Index l) \<Rightarrow> Inr (Index (IndexNode (om_of_list (in_children l @ in_children r))))
      | _ \<Rightarrow> Inl (OtherError ''merge nodes are at different levels''))"

definition absorb :: "node \<Rightarrow> node \<Rightarrow> structural_intent_id \<Rightarrow> (StorageError, node) result" where
  "absorb right left intent =
     bind_r (absorb_body (nd_body right) (nd_body left)) (\<lambda>body.
       let locks = nl_set_merge_reservation intent (nd_locks right)
       in Inr (right\<lparr>nd_body := body, nd_low_key := nd_low_key left,
            nd_locks := locks\<lparr>nl_generation :=
              max (nl_generation locks) (nl_generation (nd_locks left))\<rparr>\<rparr>))"

definition abandon_merge :: "structural_intent_id \<Rightarrow> bytes \<Rightarrow> node \<Rightarrow> bool \<times> node" where
  "abandon_merge intent boundary n =
     (let (removed, locks) = nl_remove_merge_reservation intent (nd_locks n)
      in if \<not> removed then (False, n)
         else (True, n\<lparr>nd_locks := locks,
           nd_body := (case nd_body n of
               Leaf b \<Rightarrow> Leaf (lb_from_entries (filter (\<lambda>e. boundary \<le> le_key e) (lb_values b)))
             | Index i \<Rightarrow> Index (IndexNode (filter (\<lambda>p. boundary \<le> fst p) (in_children i)))),
           nd_low_key := boundary\<rparr>))"

definition set_leaf :: "leaf_body \<Rightarrow> node \<Rightarrow> (StorageError, node) result" where
  "set_leaf b n = (case nd_body n of Leaf _ \<Rightarrow> Inr (n\<lparr>nd_body := Leaf b\<rparr>)
     | Index _ \<Rightarrow> Inl (OtherError ''node is not a leaf''))"

definition set_index :: "index_node \<Rightarrow> node \<Rightarrow> (StorageError, node) result" where
  "set_index i n = (case nd_body n of Index _ \<Rightarrow> Inr (n\<lparr>nd_body := Index i\<rparr>)
     | Leaf _ \<Rightarrow> Inl (OtherError ''node is not an index''))"

text \<open>\<^verbatim>\<open>link_right_sibling\<close> on \<^verbatim>\<open>&mut self\<close>: the bounded left node, then the new right node and
  the split key. The body of the left node is already the lower half.\<close>

definition link_right_sibling :: "node_id \<Rightarrow> NodeBody \<Rightarrow> bytes \<Rightarrow> node \<Rightarrow> node \<times> node \<times> bytes" where
  "link_right_sibling right_id right_body split_key n =
     (n\<lparr>nd_high_key := Some split_key, nd_right_sibling := Some right_id\<rparr>,
      \<lparr>nd_low_key = split_key, nd_high_key = nd_high_key n, nd_right_sibling = nd_right_sibling n,
       nd_body = right_body, nd_locks = nl_clear_holders (nd_locks n), nd_drained = False\<rparr>,
      split_key)"

definition split :: "node_id \<Rightarrow> node \<Rightarrow> (node \<times> node \<times> bytes) option" where
  "split right_id n =
     (case nd_body n of
        Leaf b \<Rightarrow>
          if lb_len b < 2 then None
          else (case lb_split_off_median b of None \<Rightarrow> None
            | Some (lower, upper, split_key) \<Rightarrow>
                Some (link_right_sibling right_id (Leaf upper) split_key (n\<lparr>nd_body := Leaf lower\<rparr>)))
      | Index i \<Rightarrow>
          if length (in_children i) < 2 then None
          else (case in_split_off_median i of None \<Rightarrow> None
            | Some (lower, upper, separator) \<Rightarrow>
                Some (link_right_sibling right_id (Index upper) separator (n\<lparr>nd_body := Index lower\<rparr>))))"

definition split_leaf_at :: "node_id \<Rightarrow> bytes \<Rightarrow> node \<Rightarrow> (node \<times> node \<times> bytes) option" where
  "split_leaf_at right_id split_key n =
     (case nd_body n of
        Index _ \<Rightarrow> None
      | Leaf b \<Rightarrow> (case lb_split_off_at b split_key of None \<Rightarrow> None
          | Some (lower, upper) \<Rightarrow>
              Some (link_right_sibling right_id (Leaf upper) split_key (n\<lparr>nd_body := Leaf lower\<rparr>))))"

section \<open>Reconciling an index with a chain of its children\<close>

text \<open>The first loop of \<^verbatim>\<open>IndexNode::reconcile\<close>: entries that name a drained node are redirected
  to the next node of the chain that is not drained.\<close>

fun redirect_drained :: "(node_id \<times> node) list \<Rightarrow> (bytes, node_id) omap \<Rightarrow> (bytes, node_id) omap" where
  "redirect_drained [] children = children"
| "redirect_drained ((i, n) # rest) children =
     (if \<not> nd_drained n then redirect_drained rest children
      else case find (\<lambda>(_, m). \<not> nd_drained m) rest of
             None \<Rightarrow> redirect_drained rest children
           | Some (target, _) \<Rightarrow>
               redirect_drained rest (map (\<lambda>(s, c). (s, if c = i then target else c)) children))"

text \<open>The second loop: adjacent live nodes of the chain (\<^verbatim>\<open>windows(2)\<close>) add the separator between
  them unless the index has an entry there.\<close>

fun insert_separators :: "(node_id \<times> node) list \<Rightarrow> (bytes, node_id) omap \<Rightarrow> (bytes, node_id) omap" where
  "insert_separators ((_, previous) # (i, n) # rest) children =
     insert_separators ((i, n) # rest)
       (case nd_high_key previous of
          None \<Rightarrow> children
        | Some separator \<Rightarrow>
            (case map_of children separator of
               None \<Rightarrow> om_insert separator i children
             | Some _ \<Rightarrow> children))"
| "insert_separators _ children = children"

text \<open>The \<^verbatim>\<open>retain\<close> that drops an entry naming the same child as the entry before it.\<close>

fun drop_repeated :: "node_id option \<Rightarrow> (bytes, node_id) omap \<Rightarrow> (bytes, node_id) omap" where
  "drop_repeated previous [] = []"
| "drop_repeated previous ((s, c) # m) =
     (if previous = Some c then drop_repeated (Some c) m else (s, c) # drop_repeated (Some c) m)"

definition reconcile :: "(node_id \<times> node) list \<Rightarrow> index_node \<Rightarrow> index_node" where
  "reconcile path n =
     (let live = filter (\<lambda>(_, m). \<not> nd_drained m) path
      in IndexNode (drop_repeated None
           (insert_separators live (redirect_drained path (in_children n)))))"

section \<open>Wire form of a node\<close>

datatype pb_body = PbLeaf pb_leaf_body | PbIndex pb_index_node

record pb_node =
  pb_high_key :: bytes
  pb_right_sibling :: bytes
  pb_body :: "pb_body option"
  pb_structural_gate :: "pb_node_lock option"
  pb_membership_lock :: "pb_node_lock option"
  pb_membership_generation :: "64 word"
  pb_drop_intent :: bytes
  pb_drained :: bool
  pb_merge_reservation :: bytes
  pb_low_key :: bytes

definition node_to_pb :: "node \<Rightarrow> pb_node" where
  "node_to_pb n = \<lparr>
     pb_high_key = (case nd_high_key n of None \<Rightarrow> [] | Some k \<Rightarrow> k),
     pb_right_sibling = optional_id_bytes nid_bytes (nd_right_sibling n),
     pb_body = Some (case nd_body n of Leaf b \<Rightarrow> PbLeaf (lb_to_pb b) | Index i \<Rightarrow> PbIndex (in_to_pb i)),
     pb_structural_gate = (if \<not> eg_is_empty (nl_structure (nd_locks n))
       then Some (eg_to_pb (nl_structure (nd_locks n))) else None),
     pb_membership_lock = (if \<not> sx_is_empty (nl_membership (nd_locks n))
       then Some (sx_to_pb (nl_membership (nd_locks n))) else None),
     pb_membership_generation = nl_generation (nd_locks n),
     pb_drop_intent = optional_id_bytes tx_bytes (nl_drop_intent (nd_locks n)),
     pb_drained = nd_drained n,
     pb_merge_reservation = optional_id_bytes sid_bytes (nl_merge_reservation (nd_locks n)),
     pb_low_key = nd_low_key n\<rparr>"

definition body_from_pb :: "pb_body option \<Rightarrow> (StorageError, NodeBody) result" where
  "body_from_pb raw = (case raw of
     Some (PbIndex i) \<Rightarrow> map_r Index (in_from_pb i)
   | Some (PbLeaf b) \<Rightarrow> map_r Leaf (lb_from_pb b)
   | None \<Rightarrow> Inr (Leaf lb_new))"

definition body_is_empty :: "NodeBody \<Rightarrow> bool" where
  "body_is_empty body = (case body of Leaf b \<Rightarrow> lb_is_empty b | Index i \<Rightarrow> in_children i = [])"

definition node_from_pb :: "pb_node \<Rightarrow> (StorageError, node) result" where
  "node_from_pb raw =
     bind_r (body_from_pb (pb_body raw)) (\<lambda>body.
     bind_r (map_err (\<lambda>_. OtherError ''node has an invalid structural gate'')
               (eg_from_pb (pb_structural_gate raw))) (\<lambda>structure.
     bind_r (map_err (\<lambda>_. OtherError ''node has invalid membership lock'')
               (sx_from_pb (pb_membership_lock raw))) (\<lambda>membership.
     bind_r (decode_optional_id tx_id_try_from (pb_drop_intent raw)
               ''node has an invalid drop intent'') (\<lambda>drop_intent.
     bind_r (decode_optional_id node_id_try_from (pb_right_sibling raw)
               ''node has an invalid right-sibling ID'') (\<lambda>right_sibling.
     bind_r (decode_optional_id structural_intent_id_try_from (pb_merge_reservation raw)
               ''node has an invalid merge reservation'') (\<lambda>merge_reservation.
       if pb_drained raw \<and> (\<not> body_is_empty body \<or> right_sibling = None)
       then Inl (OtherError ''drained node must have an empty body and a right sibling'')
       else Inr \<lparr>nd_low_key = pb_low_key raw,
              nd_high_key = (if pb_high_key raw \<noteq> [] then Some (pb_high_key raw) else None),
              nd_right_sibling = right_sibling, nd_body = body,
              nd_locks = \<lparr>nl_structure = structure, nl_membership = membership,
                nl_generation = pb_membership_generation raw, nl_drop_intent = drop_intent,
                nl_merge_reservation = merge_reservation\<rparr>,
              nd_drained = pb_drained raw\<rparr>))))))"

text \<open>\<^verbatim>\<open>Node::encode\<close> and \<^verbatim>\<open>Node::decode\<close> over the message codec of the protobuf library.\<close>

definition node_encode :: "(pb_node \<Rightarrow> bytes) \<Rightarrow> node \<Rightarrow> bytes" where
  "node_encode encode_to_vec n = encode_to_vec (node_to_pb n)"

definition node_decode :: "(bytes \<Rightarrow> ('e, pb_node) result) \<Rightarrow> bytes \<Rightarrow> (StorageError, node) result" where
  "node_decode pb_decode buf =
     bind_r (map_err (\<lambda>_. OtherError ''unmarshalling node'') (pb_decode buf)) node_from_pb"

definition content_encoded_len :: "(pb_node \<Rightarrow> nat) \<Rightarrow> node \<Rightarrow> nat" where
  "content_encoded_len encoded_len n =
     encoded_len (node_to_pb (n\<lparr>nd_locks := nl_clear_holders (nd_locks n)\<rparr>))"

definition over_soft_cap :: "(pb_node \<Rightarrow> nat) \<Rightarrow> node_size_policy \<Rightarrow> node \<Rightarrow> bool" where
  "over_soft_cap encoded_len policy n = (case nd_body n of
     Leaf b \<Rightarrow> 2 \<le> lb_len b \<and> (lb_len b > leaf_max_entries policy
       \<or> content_encoded_len encoded_len n > node_soft_max_bytes policy)
   | Index i \<Rightarrow> 2 \<le> length (in_children i) \<and> (length (in_children i) > index_max_children policy
       \<or> content_encoded_len encoded_len n > node_soft_max_bytes policy))"

section \<open>Well-formedness\<close>

definition nl_wf :: "node_locks \<Rightarrow> bool" where
  "nl_wf l \<longleftrightarrow> eg_wf (nl_structure l) \<and> sx_wf (nl_membership l)
     \<and> (\<forall>i \<in> set_option (nl_drop_intent l). tx_ok i)
     \<and> (\<forall>s \<in> set_option (nl_merge_reservation l). id_ok (sid_bytes s))"

definition in_wf :: "index_node \<Rightarrow> bool" where
  "in_wf i \<longleftrightarrow> om_wf (in_children i) \<and> (\<forall>(s, c) \<in> set (in_children i). id_ok (nid_bytes c))"

definition body_wf :: "NodeBody \<Rightarrow> bool" where
  "body_wf body = (case body of Leaf b \<Rightarrow> lb_wf b | Index i \<Rightarrow> in_wf i)"

text \<open>The keys of a body: of its entries or of its separators.\<close>

definition body_keys :: "NodeBody \<Rightarrow> bytes list" where
  "body_keys body = (case body of Leaf b \<Rightarrow> om_keys (lb_entries b) | Index i \<Rightarrow> om_keys (in_children i))"

text \<open>What decoding guarantees of a node.\<close>

definition node_wf :: "node \<Rightarrow> bool" where
  "node_wf n \<longleftrightarrow> body_wf (nd_body n) \<and> nl_wf (nd_locks n)
     \<and> (\<forall>s \<in> set_option (nd_right_sibling n). id_ok (nid_bytes s))
     \<and> nd_high_key n \<noteq> Some []
     \<and> (nd_drained n \<longrightarrow> body_is_empty (nd_body n) \<and> nd_right_sibling n \<noteq> None)"

text \<open>The keys of a node lie in its range.\<close>

definition in_range :: "node \<Rightarrow> bytes \<Rightarrow> bool" where
  "in_range n key \<longleftrightarrow> nd_low_key n \<le> key \<and> (case nd_high_key n of None \<Rightarrow> True | Some hk \<Rightarrow> key < hk)"

definition range_wf :: "node \<Rightarrow> bool" where
  "range_wf n \<longleftrightarrow> (\<forall>k \<in> set (body_keys (nd_body n)). in_range n k)"

section \<open>Wire round trip of a node\<close>

lemma eg_pb_roundtrip [wire_simps]:
  "eg_wf g \<Longrightarrow> eg_from_pb (if \<not> eg_is_empty g then Some (eg_to_pb g) else None) = Inr g"
  by (cases g) (auto simp: eg_from_pb_def eg_to_pb_def eg_defs wire_simps lock_state_from_pb_def[of None]
      ls_is_empty_def ls_default_def intro: lock_state.equality)

lemma sx_pb_roundtrip [wire_simps]:
  "sx_wf l \<Longrightarrow> sx_from_pb (if \<not> sx_is_empty l then Some (sx_to_pb l) else None) = Inr l"
proof (cases l)
  case (SharedExclusiveLock s)
  assume "sx_wf l"
  then have wf: "ls_wf s" "ls_typ s \<in> {LtNone, LtRead, LtWrite}"
    using SharedExclusiveLock by (cases "ls_typ s"; auto simp: sx_defs ls_wf_def shape_ok_def)+
  have "ls_is_empty s \<Longrightarrow> s = ls_default"
    by (auto simp: ls_is_empty_def ls_default_def intro: lock_state.equality)
  then show ?thesis using wf SharedExclusiveLock
    by (auto simp: sx_from_pb_def sx_to_pb_def sx_is_empty_def wire_simps
        lock_state_from_pb_def[of None])
qed

lemma eg_from_pb_wf: "eg_from_pb raw = Inr g \<Longrightarrow> eg_wf g"
  by (auto simp: eg_from_pb_def bind_r_ok_iff eg_defs split: if_splits dest: lock_state_from_pb_wf)

lemma sx_from_pb_wf: "sx_from_pb raw = Inr l \<Longrightarrow> sx_wf l"
  by (auto simp: sx_from_pb_def bind_r_ok_iff sx_defs split: if_splits dest: lock_state_from_pb_wf)

lemma in_entries_roundtrip:
  "\<forall>(s, c) \<in> set m. id_ok (nid_bytes c) \<Longrightarrow>
     traverse_r in_entry_from_pb (map (\<lambda>(s, c). \<lparr>pb_separator_key = s, pb_child = nid_bytes c\<rparr>) m) = Inr m"
  by (rule traverse_r_map)
    (auto simp: in_entry_from_pb_def map_r_ok_iff wire_simps try_from_as_bytes)

lemma in_pb_roundtrip [wire_simps]: "in_wf i \<Longrightarrow> in_from_pb (in_to_pb i) = Inr i"
  by (cases i) (simp add: in_from_pb_def in_to_pb_def in_wf_def in_entries_roundtrip
      in_from_children_def om_of_list_id)

lemma om_insert_set: "set (om_insert k v m) \<subseteq> insert (k, v) (set m)"
  by (induction k v m rule: om_insert.induct) auto

lemma om_of_list_set: "set (om_of_list ps) \<subseteq> set ps"
proof -
  have "set (fold (\<lambda>(k, v). om_insert k v) ps m) \<subseteq> set ps \<union> set m" for m :: "('a, 'b) omap"
    using om_insert_set by (induction ps arbitrary: m) fastforce+
  from this[of "[]"] show ?thesis by (simp add: om_of_list_def)
qed

lemma in_from_pb_wf: "in_from_pb raw = Inr i \<Longrightarrow> in_wf i"
  using om_of_list_set
  by (fastforce simp: in_from_pb_def map_r_ok_iff in_wf_def in_from_children_def in_entry_from_pb_def
      wire_simps try_from_as_bytes dest: traverse_r_set)

lemma body_pb_roundtrip [wire_simps]:
  "body_wf body \<Longrightarrow>
   body_from_pb (Some (case body of Leaf b \<Rightarrow> PbLeaf (lb_to_pb b) | Index i \<Rightarrow> PbIndex (in_to_pb i)))
     = Inr body"
  by (cases body) (simp_all add: body_wf_def body_from_pb_def wire_simps)

lemma body_from_pb_wf: "body_from_pb raw = Inr body \<Longrightarrow> body_wf body"
  by (auto simp: body_from_pb_def body_wf_def map_r_ok_iff lb_new_def lb_wf_def entries_wf_def
      split: option.splits pb_body.splits dest: lb_from_pb_wf in_from_pb_wf)

lemma node_pb_roundtrip: "node_wf n \<Longrightarrow> node_from_pb (node_to_pb n) = Inr n"
  unfolding node_from_pb_def node_to_pb_def node_wf_def nl_wf_def
  by (simp add: body_pb_roundtrip eg_pb_roundtrip sx_pb_roundtrip decode_optional_ids del: if_not_P)
    (auto split: option.splits intro!: node.equality node_locks.equality)

lemma node_from_pb_wf: "node_from_pb raw = Inr n \<Longrightarrow> node_wf n"
  unfolding node_from_pb_def
  by (auto simp: bind_r_ok_iff node_wf_def nl_wf_def split: if_splits
      dest: body_from_pb_wf eg_from_pb_wf sx_from_pb_wf
        decode_optional_id_wf[OF _ try_from_as_bytes(1)]
        decode_optional_id_wf[OF _ try_from_as_bytes(2)]
        decode_optional_id_wf[OF _ try_from_as_bytes(3)])

section \<open>Splitting a node\<close>

lemma nl_wf_default [simp, wf_intros]: "nl_wf nl_default"
  by (simp add: nl_wf_def nl_default_def eg_defs sx_defs, simp add: ls_default_def)

lemma nl_wf_clear [simp, wf_intros]: "nl_wf l \<Longrightarrow> nl_wf (nl_clear_holders l)"
  by (simp add: nl_wf_def nl_clear_holders_def eg_defs sx_defs, simp add: ls_clear_def)

lemma in_wf_split [wf_intros]:
  "in_wf i \<Longrightarrow> in_wf (IndexNode (om_below k (in_children i)))"
  "in_wf i \<Longrightarrow> in_wf (IndexNode (om_from k (in_children i)))"
  by (auto simp: in_wf_def) (auto simp: om_below_def om_from_def)

text \<open>The body of a node below and from a key.\<close>

definition body_below :: "bytes \<Rightarrow> NodeBody \<Rightarrow> NodeBody" where
  "body_below k body = (case body of Leaf b \<Rightarrow> Leaf (LeafBody (om_below k (lb_entries b)))
     | Index i \<Rightarrow> Index (IndexNode (om_below k (in_children i))))"

definition body_from :: "bytes \<Rightarrow> NodeBody \<Rightarrow> NodeBody" where
  "body_from k body = (case body of Leaf b \<Rightarrow> Leaf (LeafBody (om_from k (lb_entries b)))
     | Index i \<Rightarrow> Index (IndexNode (om_from k (in_children i))))"

lemma body_wf_split [wf_intros]:
  "body_wf body \<Longrightarrow> body_wf (body_below k body)" "body_wf body \<Longrightarrow> body_wf (body_from k body)"
  by (auto simp: body_wf_def body_below_def body_from_def split: NodeBody.splits intro: wf_intros)

lemma body_keys_split:
  "set (body_keys (body_below k body)) = {x \<in> set (body_keys body). x < k}"
  "set (body_keys (body_from k body)) = {x \<in> set (body_keys body). k \<le> x}"
  by (auto simp: body_keys_def body_below_def body_from_def om_below_def om_from_def
      split: NodeBody.splits)

lemma in_split_off_median_parts:
  assumes "in_wf i" "2 \<le> length (in_children i)" "in_split_off_median i = Some (l, u, k)"
  shows "l = IndexNode (om_below k (in_children i))" "u = IndexNode (om_from k (in_children i))"
    "in_children l \<noteq> []" "in_children u \<noteq> []" "k \<in> set (om_keys (in_children i))"
  using assms om_split_nth[of "in_children i" "length (in_children i) div 2"]
  by (auto simp: in_split_off_median_def in_wf_def Let_def split: if_splits)

text \<open>Every split of a node, at the median or at a given key, has this form: a key that leaves
  both halves non-empty.\<close>

definition splits_at :: "node_id \<Rightarrow> node \<Rightarrow> node \<Rightarrow> node \<Rightarrow> bytes \<Rightarrow> bool" where
  "splits_at right_id n left right k \<longleftrightarrow>
     (left, right, k) = link_right_sibling right_id (body_from k (nd_body n)) k
        (n\<lparr>nd_body := body_below k (nd_body n)\<rparr>)
     \<and> body_keys (nd_body left) \<noteq> [] \<and> body_keys (nd_body right) \<noteq> []"

lemma split_splits_at:
  assumes "body_wf (nd_body n)" "split right_id n = Some (left, right, k)"
  shows "splits_at right_id n left right k" "k \<in> set (body_keys (nd_body n))"
proof -
  have "splits_at right_id n left right k \<and> k \<in> set (body_keys (nd_body n))"
  proof (cases "nd_body n")
    case (Leaf b)
    with assms obtain l u where s: "lb_split_off_median b = Some (l, u, k)" "2 \<le> lb_len b" "lb_wf b"
      and e: "(left, right, k) = link_right_sibling right_id (Leaf u) k (n\<lparr>nd_body := Leaf l\<rparr>)"
      by (auto simp: split_def body_wf_def link_right_sibling_def split: if_splits option.splits)
    show ?thesis
      using lb_split_off_median_parts[OF s(3,1)] lb_split_median_divides(1)[OF s(3,2,1)] e Leaf
      by (auto simp: splits_at_def body_from_def body_below_def body_keys_def lb_divides_at_def
          link_right_sibling_def)
  next
    case (Index i)
    with assms obtain l u where s: "in_split_off_median i = Some (l, u, k)"
        "2 \<le> length (in_children i)" "in_wf i"
      and e: "(left, right, k) = link_right_sibling right_id (Index u) k (n\<lparr>nd_body := Index l\<rparr>)"
      by (auto simp: split_def body_wf_def link_right_sibling_def split: if_splits option.splits)
    show ?thesis
      using in_split_off_median_parts[OF s(3,2,1)] e Index
      by (auto simp: splits_at_def body_from_def body_below_def body_keys_def link_right_sibling_def)
  qed
  then show "splits_at right_id n left right k" "k \<in> set (body_keys (nd_body n))" by auto
qed

lemma split_leaf_at_splits_at:
  assumes "split_leaf_at right_id key n = Some (left, right, k)"
  shows "splits_at right_id n left right k" "k = key"
  using assms
  by (auto simp: split_leaf_at_def lb_split_off_at_def splits_at_def body_from_def body_below_def
      body_keys_def lb_divides_at_def link_right_sibling_def split: NodeBody.splits if_splits)

lemma split_total: "2 \<le> length (body_keys (nd_body n)) \<Longrightarrow> \<exists>l r k. split right_id n = Some (l, r, k)"
  by (auto simp: split_def body_keys_def lb_len_def in_split_off_median_def Let_def
      link_right_sibling_def split: NodeBody.splits option.splits)
    (auto simp: lb_split_off_median_def lb_len_def Let_def split: if_splits)

end
