(* ===== verification/Node_Structure.thy ===== *)
theory Node_Structure
  imports Node
begin

text \<open>
  What the structural operations of a node do: a split divides the range and the
  entries, and keeps routing; a merge joins them; abandoning a merge undoes it;
  reconciling an index with a chain of children keeps every key on a node at or
  left of its owner; the membership generation fences structural changes.
\<close>

section \<open>Lookup in a body\<close>

text \<open>An entry of a leaf or the child of an exact separator.\<close>

definition body_lookup :: "NodeBody \<Rightarrow> bytes \<Rightarrow> (leaf_entry + node_id) option" where
  "body_lookup body key = (case body of
     Leaf b \<Rightarrow> map_option Inl (lb_lookup b key)
   | Index i \<Rightarrow> map_option Inr (map_of (in_children i) key))"

lemma body_lookup_split:
  "body_lookup (body_below k body) x = (if x < k then body_lookup body x else None)"
  "body_lookup (body_from k body) x = (if k \<le> x then body_lookup body x else None)"
  by (auto simp: body_lookup_def body_below_def body_from_def lb_lookup_split map_of_om_below
      map_of_om_from split: NodeBody.splits)

lemma body_wf_keys: "body_wf body \<Longrightarrow> ascending (body_keys body)"
  by (auto simp: body_wf_def body_keys_def lb_wf_def in_wf_def entries_wf_om split: NodeBody.splits)

lemma splits_at_parts:
  assumes "splits_at right_id n left right k"
  shows "nd_body left = body_below k (nd_body n)" "nd_body right = body_from k (nd_body n)"
    "nd_low_key left = nd_low_key n" "nd_low_key right = k"
    "nd_high_key left = Some k" "nd_high_key right = nd_high_key n"
    "nd_right_sibling left = Some right_id" "nd_right_sibling right = nd_right_sibling n"
    "nd_locks left = nd_locks n" "nd_locks right = nl_clear_holders (nd_locks n)"
    "nd_drained left = nd_drained n" "nd_drained right = False"
  using assms by (auto simp: splits_at_def link_right_sibling_def)

lemma splits_at_key_range:
  assumes "splits_at right_id n left right k" "range_wf n"
  shows "nd_low_key n < k" "case nd_high_key n of None \<Rightarrow> True | Some hk \<Rightarrow> k < hk"
proof -
  obtain a where a: "a \<in> set (body_keys (nd_body left))"
    using assms(1) by (auto simp: splits_at_def) (meson last_in_set)
  obtain b where b: "b \<in> set (body_keys (nd_body right))"
    using assms(1) by (auto simp: splits_at_def) (meson last_in_set)
  have "a < k" "k \<le> b" and "a \<in> set (body_keys (nd_body n))" "b \<in> set (body_keys (nd_body n))"
    using a b splits_at_parts(1,2)[OF assms(1)] by (auto simp: body_keys_split)
  then have "in_range n a" "in_range n b" "a < k" "k \<le> b"
    using assms(2) by (auto simp: range_wf_def)
  then show "nd_low_key n < k" "case nd_high_key n of None \<Rightarrow> True | Some hk \<Rightarrow> k < hk"
    by (auto simp: in_range_def split: option.splits)
qed

lemma splits_at_wf:
  assumes s: "splits_at right_id n left right k" and n: "node_wf n" "\<not> nd_drained n"
    and i: "id_ok (nid_bytes right_id)" and r: "range_wf n"
  shows "node_wf left \<and> node_wf right \<and> range_wf left \<and> range_wf right"
proof -
  note p = splits_at_parts[OF s]
  have "k \<noteq> []" using splits_at_key_range(1)[OF s r] by auto
  moreover have "body_wf (nd_body left)" "body_wf (nd_body right)"
    using n(1) by (auto simp: p node_wf_def intro: wf_intros)
  ultimately have "node_wf left" "node_wf right"
    using n i by (auto simp: node_wf_def p intro: wf_intros)
  moreover have "range_wf left" "range_wf right"
    using r by (auto simp: range_wf_def in_range_def p body_keys_split split: option.splits)
  ultimately show ?thesis by simp
qed

text \<open>What a split promises: the two nodes are well-formed and partition the range and the
  entries of the node, and the left one links to the right one.\<close>

definition split_spec :: "node_id \<Rightarrow> node \<Rightarrow> node \<Rightarrow> node \<Rightarrow> bytes \<Rightarrow> bool" where
  "split_spec right_id n left right k \<longleftrightarrow>
     node_wf left \<and> node_wf right \<and> range_wf left \<and> range_wf right
   \<and> nd_right_sibling left = Some right_id \<and> nd_right_sibling right = nd_right_sibling n
   \<and> body_keys (nd_body left) \<noteq> [] \<and> body_keys (nd_body right) \<noteq> []
   \<and> (\<forall>key. in_range left key \<longleftrightarrow> in_range n key \<and> key < k)
   \<and> (\<forall>key. in_range right key \<longleftrightarrow> in_range n key \<and> k \<le> key)
   \<and> (\<forall>key. body_lookup (nd_body left) key = (if key < k then body_lookup (nd_body n) key else None))
   \<and> (\<forall>key. body_lookup (nd_body right) key = (if k \<le> key then body_lookup (nd_body n) key else None))"

lemma splits_at_spec:
  assumes s: "splits_at right_id n left right k" and n: "node_wf n" "\<not> nd_drained n" "range_wf n"
    and i: "id_ok (nid_bytes right_id)"
  shows "split_spec right_id n left right k"
proof -
  note p = splits_at_parts[OF s]
  note kr = splits_at_key_range[OF s n(3)]
  have left: "in_range left key \<longleftrightarrow> in_range n key \<and> key < k" for key
    using kr(2) by (auto simp: in_range_def p split: option.splits)
  have right: "in_range right key \<longleftrightarrow> in_range n key \<and> k \<le> key" for key
    using kr(1) by (auto simp: in_range_def p split: option.splits)
  show ?thesis
    using splits_at_wf[OF s n(1,2) i n(3)] s left right
    by (auto simp: split_spec_def p body_lookup_split) (simp_all add: splits_at_def p)
qed

section \<open>Properties of splits\<close>

text \<open>C9: splitting a node, at the median or at a given key, yields two well-formed nodes, neither
  empty, whose ranges partition the range of the node at the split key, which hold exactly its
  entries on their side, and which are linked in key order.\<close>

theorem split_partitions:
  assumes "node_wf n" "\<not> nd_drained n" "range_wf n" "id_ok (nid_bytes right_id)"
    and "split right_id n = Some (left, right, k) \<or> split_leaf_at right_id key n = Some (left, right, k)"
  shows "split_spec right_id n left right k"
  using assms splits_at_spec split_splits_at(1) split_leaf_at_splits_at(1)
  by (metis node_wf_def)

text \<open>A sample node for the witnesses: a leaf of two entries.\<close>

definition sample_leaf :: node where
  "sample_leaf = node_leaf (LeafBody [([1], le_new [1]), ([2], le_new [2])])"

definition sample_id :: node_id where
  "sample_id = NodeId (replicate 16 9)"

lemma sample_leaf_facts:
  "node_wf sample_leaf" "\<not> nd_drained sample_leaf" "range_wf sample_leaf"
  "id_ok (nid_bytes sample_id)" "2 \<le> length (body_keys (nd_body sample_leaf))"
  by (simp_all add: sample_leaf_def sample_id_def node_leaf_def node_wf_def body_wf_def lb_wf_def
      entries_wf_def range_wf_def in_range_def body_keys_def id_ok_def, simp_all add: le_new_def)

theorem split_partitions_witness:
  "\<exists>left right k. split sample_id sample_leaf = Some (left, right, k)
     \<and> split_spec sample_id sample_leaf left right k"
  using split_partitions[OF sample_leaf_facts(1-4)] split_total[OF sample_leaf_facts(5)] by blast

section \<open>Routing across a split of an index\<close>

lemma last_child_append: "m \<noteq> [] \<Longrightarrow> last_child (l @ m) = last_child m"
  by (simp add: last_child_def)

lemma first_child_append: "l \<noteq> [] \<Longrightarrow> first_child (l @ m) = first_child l"
  by (cases l) (auto simp: first_child_def)

lemma child_for_below:
  assumes "om_wf m" "om_below k m \<noteq> []" "x < k"
  shows "child_for (IndexNode (om_below k m)) x = child_for (IndexNode m) x"
proof -
  have "filter (\<lambda>p. fst p \<le> x) (om_below k m) = filter (\<lambda>p. fst p \<le> x) m"
    using assms(3) by (auto simp: om_below_def intro!: filter_cong)
  moreover have "first_child (om_below k m) = first_child m"
    using first_child_append[OF assms(2), of "om_from k m"]
    by (simp add: om_below_append_from[OF assms(1)])
  ultimately show ?thesis by (simp add: child_for_def split: option.split)
qed

lemma child_for_from:
  assumes "om_wf m" "k \<in> set (om_keys m)" "k \<le> x"
  shows "child_for (IndexNode (om_from k m)) x = child_for (IndexNode m) x"
proof -
  have ne: "filter (\<lambda>p. fst p \<le> x) (om_from k m) \<noteq> []"
    using assms(2,3) by (auto simp: om_from_def filter_empty_conv)
  have "filter (\<lambda>p. fst p \<le> x) m
      = filter (\<lambda>p. fst p \<le> x) (om_below k m) @ filter (\<lambda>p. fst p \<le> x) (om_from k m)"
    using om_below_append_from[OF assms(1), of k] by (metis filter_append)
  then have "last_child (filter (\<lambda>p. fst p \<le> x) m) = last_child (filter (\<lambda>p. fst p \<le> x) (om_from k m))"
    using ne by (simp add: last_child_append)
  then show ?thesis using ne by (auto simp: child_for_def last_child_def split: option.splits)
qed

text \<open>C13: after an index splits, the half on the key's side routes every key to the child that the
  whole index routed it to.\<close>

theorem split_keeps_routing:
  assumes "node_wf n" "as_index n = Some i" "split right_id n = Some (left, right, k)"
    and "as_index left = Some il" "as_index right = Some ir"
  shows "child_for (if key < k then il else ir) key = child_for i key"
proof -
  have b: "nd_body n = Index i" and w: "in_wf i" "body_wf (nd_body n)"
    using assms(1,2) by (auto simp: as_index_def node_wf_def body_wf_def split: NodeBody.splits)
  note s = split_splits_at[OF w(2) assms(3)]
  have il: "il = IndexNode (om_below k (in_children i))" and ir: "ir = IndexNode (om_from k (in_children i))"
    using splits_at_parts(1,2)[OF s(1)] assms(4,5) b
    by (auto simp: as_index_def body_below_def body_from_def)
  have "om_below k (in_children i) \<noteq> []"
    using s(1) splits_at_parts(1)[OF s(1)] b by (auto simp: splits_at_def body_keys_def body_below_def)
  moreover have "k \<in> set (om_keys (in_children i))" using s(2) b by (simp add: body_keys_def)
  ultimately show ?thesis
    using child_for_below[of "in_children i" k key] child_for_from[of "in_children i" k key] w(1)
    by (cases i) (auto simp: il ir in_wf_def)
qed

definition sample_index :: node where
  "sample_index = node_index (IndexNode [([], NodeId (replicate 16 1)), ([5], NodeId (replicate 16 2))])"

lemma sample_index_split:
  "split sample_id sample_index = Some (
     (sample_index\<lparr>nd_body := Index (IndexNode [([], NodeId (replicate 16 1))]),
        nd_high_key := Some [5], nd_right_sibling := Some sample_id\<rparr>),
     (sample_index\<lparr>nd_low_key := [5], nd_body := Index (IndexNode [([5], NodeId (replicate 16 2))]),
        nd_locks := nl_clear_holders nl_default\<rparr>), [5])"
  by (simp add: sample_index_def node_index_def split_def in_split_off_median_def
      link_right_sibling_def om_below_def om_from_def Let_def)

theorem split_keeps_routing_witness:
  "child_for (IndexNode [([5], NodeId (replicate 16 2))]) [7]
   = child_for (IndexNode [([], NodeId (replicate 16 1)), ([5], NodeId (replicate 16 2))]) [7]"
  using split_keeps_routing[OF _ _ sample_index_split, where key = "[7]"]
  by (simp add: sample_index_def node_index_def as_index_def node_wf_def body_wf_def in_wf_def id_ok_def)

section \<open>Merging and abandoning\<close>

lemma om_of_list_append:
  "om_wf l \<Longrightarrow> om_wf r \<Longrightarrow> \<forall>a \<in> set (om_keys l). \<forall>b \<in> set (om_keys r). a < b \<Longrightarrow>
     om_of_list (l @ r) = l @ r"
  by (rule om_of_list_id) (auto simp: sorted_wrt_append)

text \<open>The body with the entries of both, when the left keys precede the right ones.\<close>

definition body_join :: "NodeBody \<Rightarrow> NodeBody \<Rightarrow> NodeBody" where
  "body_join left right = (case (left, right) of
     (Leaf l, Leaf r) \<Rightarrow> Leaf (LeafBody (lb_entries l @ lb_entries r))
   | (Index l, Index r) \<Rightarrow> Index (IndexNode (in_children l @ in_children r))
   | _ \<Rightarrow> left)"

definition same_level :: "NodeBody \<Rightarrow> NodeBody \<Rightarrow> bool" where
  "same_level a b = (case (a, b) of (Leaf _, Leaf _) \<Rightarrow> True | (Index _, Index _) \<Rightarrow> True | _ \<Rightarrow> False)"

lemma absorb_body_ok_iff: "is_ok (absorb_body r l) \<longleftrightarrow> same_level r l"
  by (auto simp: absorb_body_def same_level_def split: NodeBody.splits)

lemma absorb_body_join:
  assumes "body_wf l" "body_wf r" "same_level r l"
    and "\<forall>a \<in> set (body_keys l). \<forall>b \<in> set (body_keys r). a < b"
  shows "absorb_body r l = Inr (body_join l r)"
proof (cases r)
  case (Leaf rb)
  then obtain lb where lb: "l = Leaf lb" using assms(3) by (auto simp: same_level_def split: NodeBody.splits)
  have "map (\<lambda>e. (le_key e, e)) (lb_values lb @ lb_values rb) = lb_entries lb @ lb_entries rb"
    using assms Leaf lb entries_values[of "lb_entries lb"] entries_values[of "lb_entries rb"]
    by (simp add: body_wf_def lb_wf_def lb_values_def)
  then show ?thesis using assms Leaf lb om_of_list_append[of "lb_entries lb" "lb_entries rb"]
    by (simp add: absorb_body_def body_join_def lb_from_entries_def body_wf_def lb_wf_def
        entries_wf_om body_keys_def)
next
  case (Index ri)
  then obtain li where "l = Index li" using assms(3) by (auto simp: same_level_def split: NodeBody.splits)
  then show ?thesis using assms Index om_of_list_append[of "in_children li" "in_children ri"]
    by (simp add: absorb_body_def body_join_def body_wf_def in_wf_def body_keys_def)
qed

lemma body_join_split: "body_wf body \<Longrightarrow> body_join (body_below k body) (body_from k body) = body"
  by (cases body) (auto simp: body_join_def body_below_def body_from_def body_wf_def lb_wf_def in_wf_def
      om_below_append_from entries_wf_om)

text \<open>What a merge leaves: the merged node has the range and the entries of both.\<close>

definition merged :: "node \<Rightarrow> node \<Rightarrow> structural_intent_id \<Rightarrow> node" where
  "merged right left intent = right\<lparr>
     nd_body := body_join (nd_body left) (nd_body right),
     nd_low_key := nd_low_key left,
     nd_locks := (nl_set_merge_reservation intent (nd_locks right))\<lparr>nl_generation :=
       max (nl_generation (nl_set_merge_reservation intent (nd_locks right)))
           (nl_generation (nd_locks left))\<rparr>\<rparr>"

lemma absorb_merged:
  assumes "body_wf (nd_body left)" "body_wf (nd_body right)" "same_level (nd_body right) (nd_body left)"
    and "\<forall>a \<in> set (body_keys (nd_body left)). \<forall>b \<in> set (body_keys (nd_body right)). a < b"
  shows "absorb right left intent = Inr (merged right left intent)"
  using absorb_body_join[OF assms] by (simp add: absorb_def merged_def Let_def)

text \<open>C12: a merge undoes a split: absorbing the left half into the right half gives back the body,
  the range and the right sibling of the node before the split, for either way to split.\<close>

theorem absorb_after_split:
  assumes "node_wf n"
    and "split right_id n = Some (left, right, k) \<or> split_leaf_at right_id key n = Some (left, right, k)"
  shows "\<exists>m. absorb right left intent = Inr m \<and> nd_body m = nd_body n
    \<and> nd_low_key m = nd_low_key n \<and> nd_high_key m = nd_high_key n
    \<and> nd_right_sibling m = nd_right_sibling n"
proof -
  have w: "body_wf (nd_body n)" using assms(1) by (simp add: node_wf_def)
  then have s: "splits_at right_id n left right k"
    using assms(2) split_splits_at(1) split_leaf_at_splits_at(1) by metis
  note p = splits_at_parts[OF s]
  have "absorb right left intent = Inr (merged right left intent)"
  proof (rule absorb_merged)
    show "same_level (nd_body right) (nd_body left)"
      by (auto simp: p same_level_def body_below_def body_from_def split: NodeBody.splits)
  qed (use w in \<open>auto simp: p body_keys_split intro: wf_intros\<close>)
  then show ?thesis using body_join_split[OF w] by (simp add: merged_def p)
qed

theorem absorb_after_split_witness:
  "\<exists>left right k m. split sample_id sample_leaf = Some (left, right, k)
     \<and> absorb right left (StructuralIntentId (replicate 16 3)) = Inr m
     \<and> nd_body m = nd_body sample_leaf"
  using absorb_after_split[OF sample_leaf_facts(1)] split_total[OF sample_leaf_facts(5)] by meson

lemma body_join_from:
  assumes "body_wf l" "body_wf r" "same_level r l"
    and "\<forall>a \<in> set (body_keys l). a < boundary" "\<forall>b \<in> set (body_keys r). boundary \<le> b"
  shows "body_from boundary (body_join l r) = r"
  using assms(3-5)
  by (cases l; cases r)
    (auto simp: same_level_def body_join_def body_from_def body_keys_def om_split_append(2))

lemma abandon_merge_body:
  assumes "body_wf body"
  shows "(case body of
       Leaf b \<Rightarrow> Leaf (lb_from_entries (filter (\<lambda>e. boundary \<le> le_key e) (lb_values b)))
     | Index i \<Rightarrow> Index (IndexNode (filter (\<lambda>p. boundary \<le> fst p) (in_children i))))
     = body_from boundary body"
proof (cases body)
  case (Leaf b)
  then have w: "entries_wf (lb_entries b)" using assms by (simp add: body_wf_def lb_wf_def)
  have "filter (\<lambda>e. boundary \<le> le_key e) (map snd m) = map snd (om_from boundary m)"
    if "entries_wf m" for m
    using that by (induction m) (auto simp: om_from_def entries_wf_def)
  with w have "filter (\<lambda>e. boundary \<le> le_key e) (lb_values b)
      = lb_values (LeafBody (om_from boundary (lb_entries b)))"
    by (simp add: lb_values_def)
  moreover have "lb_wf (LeafBody (om_from boundary (lb_entries b)))"
    using w by (simp add: lb_wf_def entries_wf_split)
  ultimately show ?thesis using Leaf by (simp add: body_from_def)
qed (simp add: body_from_def om_from_def)

text \<open>C10: abandoning a merge restores the target: the entries and separators at or above the
  boundary and the old low key, with no reservation left; only the generation moves on, to the
  larger of the target's next one and the source's, so that no state from before the merge comes
  back.\<close>

theorem abandon_undoes_absorb:
  assumes "node_wf left" "node_wf right"
    and "\<forall>a \<in> set (body_keys (nd_body left)). a < nd_low_key right"
    and "\<forall>b \<in> set (body_keys (nd_body right)). nd_low_key right \<le> b"
    and "nl_merge_reservation (nd_locks right) = None"
    and "absorb right left intent = Inr m"
  shows "abandon_merge intent (nd_low_key right) m
    = (True, right\<lparr>nd_locks := (nd_locks right)\<lparr>nl_generation :=
        max (nl_generation (nd_locks right) + 1) (nl_generation (nd_locks left))\<rparr>\<rparr>)"
proof -
  have w: "body_wf (nd_body left)" "body_wf (nd_body right)" using assms by (auto simp: node_wf_def)
  have lev: "same_level (nd_body right) (nd_body left)"
    using assms(6) absorb_body_ok_iff[of "nd_body right" "nd_body left"]
    by (auto simp: absorb_def bind_r_ok_iff)
  have ord: "\<forall>a \<in> set (body_keys (nd_body left)). \<forall>b \<in> set (body_keys (nd_body right)). a < b"
    using assms(3,4) by fastforce
  have m: "m = merged right left intent" using absorb_merged[OF w lev ord] assms(6) by simp
  have wj: "body_wf (body_join (nd_body left) (nd_body right))"
    using w lev ord by (cases "nd_body left"; cases "nd_body right")
      (auto simp: same_level_def body_join_def body_wf_def lb_wf_def entries_wf_def in_wf_def
        body_keys_def om_wf_append simp del: map_append)
  have "body_from (nd_low_key right) (body_join (nd_body left) (nd_body right)) = nd_body right"
    by (rule body_join_from[OF w lev assms(3,4)])
  then show ?thesis using assms(5) abandon_merge_body[OF wj, of "nd_low_key right"]
    by (auto simp: m merged_def abandon_merge_def nl_remove_merge_reservation_def
        nl_set_merge_reservation_def advance_membership_generation_def)
qed

theorem abandon_undoes_absorb_witness:
  "\<exists>m. absorb (sample_leaf\<lparr>nd_low_key := [1]\<rparr>) (node_leaf lb_new) (StructuralIntentId (replicate 16 3)) = Inr m
     \<and> fst (abandon_merge (StructuralIntentId (replicate 16 3)) [1] m)"
proof -
  let ?l = "node_leaf lb_new" and ?r = "sample_leaf\<lparr>nd_low_key := [1]\<rparr>"
  let ?i = "StructuralIntentId (replicate 16 3)"
  have f: "node_wf ?l" "node_wf ?r" "body_keys (nd_body ?l) = []"
    "\<forall>b \<in> set (body_keys (nd_body ?r)). nd_low_key ?r \<le> b"
    "nl_merge_reservation (nd_locks ?r) = None"
    using sample_leaf_facts
    by (simp_all add: node_wf_def sample_leaf_def node_leaf_def body_wf_def lb_wf_def lb_new_def
        entries_wf_def body_keys_def nl_default_def)
  obtain m where m: "absorb ?r ?l ?i = Inr m"
    by (cases "absorb ?r ?l ?i")
      (auto simp: absorb_def absorb_body_def sample_leaf_def node_leaf_def Let_def)
  show ?thesis using abandon_undoes_absorb[OF f(1,2) _ f(4,5) m] f(3) m
    by (simp add: sample_leaf_def node_leaf_def)
qed

section \<open>The generation as a fence\<close>

text \<open>The public mutations of the node locks, as steps.\<close>

datatype nl_op = SetGate tx_id | RemoveGate tx_id
  | SetReservation structural_intent_id | RemoveReservation structural_intent_id
  | AddReader tx_id | SetWriter tx_id | RemoveHolder tx_id
  | SetDrop tx_id | RemoveDrop tx_id

fun nl_apply :: "nl_op \<Rightarrow> node_locks \<Rightarrow> node_locks" where
  "nl_apply (SetGate i) l = nl_set_structural_gate i l"
| "nl_apply (RemoveGate i) l = snd (nl_remove_structural_gate i l)"
| "nl_apply (SetReservation s) l = nl_set_merge_reservation s l"
| "nl_apply (RemoveReservation s) l = snd (nl_remove_merge_reservation s l)"
| "nl_apply (AddReader i) l = nl_add_membership_reader i l"
| "nl_apply (SetWriter i) l = nl_set_membership_writer i l"
| "nl_apply (RemoveHolder i) l = snd (nl_remove_membership_holder i l)"
| "nl_apply (SetDrop i) l = nl_set_drop_intent i l"
| "nl_apply (RemoveDrop i) l = snd (nl_remove_drop_intent i l)"

text \<open>The steps that install a gate, a reservation or a membership writer, or remove a writer.\<close>

fun fences :: "nl_op \<Rightarrow> node_locks \<Rightarrow> bool" where
  "fences (SetGate i) l \<longleftrightarrow> eg_holders (nl_structure l) \<noteq> [i]"
| "fences (SetReservation s) l \<longleftrightarrow> nl_merge_reservation l \<noteq> Some s"
| "fences (SetWriter i) l \<longleftrightarrow>
     \<not> (sx_lock_type (nl_membership l) = LtWrite \<and> sx_holders (nl_membership l) = [i])"
| "fences (RemoveHolder i) l \<longleftrightarrow>
     sx_lock_type (nl_membership l) = LtWrite \<and> sx_contains (nl_membership l) i"
| "fences _ l \<longleftrightarrow> False"

fun nl_run :: "nl_op list \<Rightarrow> node_locks \<Rightarrow> node_locks" where
  "nl_run [] l = l"
| "nl_run (op # ops) l = nl_run ops (nl_apply op l)"

fun fence_count :: "nl_op list \<Rightarrow> node_locks \<Rightarrow> nat" where
  "fence_count [] l = 0"
| "fence_count (op # ops) l = (if fences op l then 1 else 0) + fence_count ops (nl_apply op l)"

lemmas nl_op_defs = nl_set_structural_gate_def nl_remove_structural_gate_def
  nl_set_merge_reservation_def nl_remove_merge_reservation_def nl_add_membership_reader_def
  nl_set_membership_writer_def nl_remove_membership_holder_def nl_set_drop_intent_def
  nl_remove_drop_intent_def advance_membership_generation_def

lemma sx_remove_fst: "fst (sx_remove i l) \<longleftrightarrow> sx_contains l i"
  using membership_lock.release_reports[of i l] by (simp add: sx_contains_def sx_holders_def)

lemma nl_apply_generation:
  "nl_generation (nl_apply op l) = nl_generation l + (if fences op l then 1 else 0)"
  by (cases op) (auto simp: nl_op_defs split: prod.splits simp flip: sx_remove_fst)

lemma nl_run_generation:
  "nl_generation (nl_run ops l) = nl_generation l + word_of_nat (fence_count ops l)"
  by (induction ops arbitrary: l) (auto simp: nl_apply_generation algebra_simps)

lemma fence_count_le: "fence_count ops l \<le> length ops"
  by (induction ops arbitrary: l) (auto intro: le_SucI)

text \<open>Every structural holder of the second state was there in the first.\<close>

definition no_new_holder :: "node_locks \<Rightarrow> node_locks \<Rightarrow> bool" where
  "no_new_holder l l' \<longleftrightarrow>
     set (eg_holders (nl_structure l')) \<subseteq> set (eg_holders (nl_structure l))
   \<and> set_option (nl_merge_reservation l') \<subseteq> set_option (nl_merge_reservation l)
   \<and> (sx_lock_type (nl_membership l') = LtWrite \<longrightarrow> nl_membership l' = nl_membership l)"

lemma sx_remove_keeps_writer:
  assumes "\<not> (sx_lock_type l = LtWrite \<and> sx_contains l i)"
    and "sx_lock_type (snd (sx_remove i l)) = LtWrite"
  shows "snd (sx_remove i l) = l"
proof (cases l)
  case (SharedExclusiveLock s)
  have t: "ls_typ (snd (ls_remove i s)) = LtWrite" "ls_typ s = LtWrite"
    using assms(2) by (auto simp: SharedExclusiveLock sx_defs ls_remove_result split: if_splits)
  then have "i \<notin> set (ls_holders s)" using assms(1) by (simp add: SharedExclusiveLock sx_defs)
  then have "snd (ls_remove i s) = s"
    using t by (intro lock_state.equality) (simp_all add: ls_remove_result)
  then show ?thesis by (simp add: SharedExclusiveLock sx_defs)
qed

lemma nl_remove_membership_parts:
  "nl_structure (snd (nl_remove_membership_holder i l)) = nl_structure l"
  "nl_merge_reservation (snd (nl_remove_membership_holder i l)) = nl_merge_reservation l"
  "nl_membership (snd (nl_remove_membership_holder i l)) = snd (sx_remove i (nl_membership l))"
  by (simp_all add: nl_remove_membership_holder_def case_prod_unfold Let_def)

lemma nl_remove_gate_parts:
  "nl_structure (snd (nl_remove_structural_gate i l)) = snd (eg_remove i (nl_structure l))"
  "nl_merge_reservation (snd (nl_remove_structural_gate i l)) = nl_merge_reservation l"
  "nl_membership (snd (nl_remove_structural_gate i l)) = nl_membership l"
  by (simp_all add: nl_remove_structural_gate_def case_prod_unfold Let_def)

lemma no_new_holder_step: "\<not> fences op l \<Longrightarrow> no_new_holder l (nl_apply op l)"
proof (cases op)
  case (RemoveHolder i)
  assume "\<not> fences op l"
  then show ?thesis using RemoveHolder sx_remove_keeps_writer[of "nl_membership l" i]
    by (simp add: no_new_holder_def nl_remove_membership_parts)
next
  case (RemoveGate i)
  then show ?thesis using gate.release_holders[of i "nl_structure l"]
    by (auto simp: no_new_holder_def nl_remove_gate_parts)
next
  case (AddReader i)
  then show ?thesis
    by (simp add: no_new_holder_def nl_add_membership_reader_def membership_lock.read_kind)
qed (auto simp: no_new_holder_def nl_op_defs)

lemma no_new_holder_trans: "no_new_holder a b \<Longrightarrow> no_new_holder b c \<Longrightarrow> no_new_holder a c"
  by (auto simp: no_new_holder_def)

lemma no_fence_no_new_holder: "fence_count ops l = 0 \<Longrightarrow> no_new_holder l (nl_run ops l)"
proof (induction ops arbitrary: l)
  case Nil
  show ?case by (simp add: no_new_holder_def)
next
  case (Cons op ops)
  then show ?case using no_new_holder_step[of op l] no_new_holder_trans by (auto split: if_splits)
qed



section \<open>Draining\<close>



text \<open>C15: a node is recovered from its bytes exactly when it is well-formed, for any message codec
  that returns the message it encoded.\<close>

theorem node_encode_decode_iff:
  assumes "pb_decode (encode_to_vec (node_to_pb n)) = Inr (node_to_pb n)"
  shows "node_decode pb_decode (node_encode encode_to_vec n) = Inr n \<longleftrightarrow> node_wf n"
  using assms node_pb_roundtrip[of n] node_from_pb_wf[of "node_to_pb n" n]
  by (auto simp: node_decode_def node_encode_def)

theorem node_encode_decode_iff_witness:
  "node_decode (\<lambda>_. Inr (node_to_pb sample_leaf) :: (nat, pb_node) result)
     (node_encode (\<lambda>_. []) sample_leaf) = Inr sample_leaf"
  using node_encode_decode_iff[of "\<lambda>_. Inr (node_to_pb sample_leaf) :: (nat, pb_node) result"
      "\<lambda>_. []" sample_leaf] sample_leaf_facts(1) by simp

section \<open>Reconciling an index\<close>

text \<open>The child of the last separator at or below a key, with a default.\<close>

definition route :: "(bytes, node_id) omap \<Rightarrow> bytes \<Rightarrow> node_id option \<Rightarrow> node_id option" where
  "route m key d = (case last_child (filter (\<lambda>p. fst p \<le> key) m) of None \<Rightarrow> d | Some c \<Rightarrow> Some c)"

lemma child_for_route: "child_for i key = route (in_children i) key (first_child (in_children i))"
  by (simp add: child_for_def route_def)

lemma route_Nil [simp]: "route [] key d = d"
  by (simp add: route_def last_child_def)

lemma route_Cons:
  "om_wf ((s, c) # m) \<Longrightarrow> route ((s, c) # m) key d = (if s \<le> key then route m key (Some c) else d)"
proof -
  assume "om_wf ((s, c) # m)"
  then have "\<not> s \<le> key \<Longrightarrow> filter (\<lambda>p. fst p \<le> key) m = []"
    by (auto simp: filter_empty_conv)
  then show ?thesis by (auto simp: route_def last_child_def)
qed

lemma route_default: "(\<exists>p \<in> set m. fst p \<le> key) \<Longrightarrow> route m key d = route m key d'"
  by (auto simp: route_def last_child_def filter_empty_conv)

lemma route_map:
  "route (map (\<lambda>(s, c). (s, f c)) m) key (map_option f d) = map_option f (route m key d)"
proof -
  have "filter (\<lambda>p. fst p \<le> key) (map (\<lambda>(s, c). (s, f c)) m)
      = map (\<lambda>(s, c). (s, f c)) (filter (\<lambda>p. fst p \<le> key) m)"
    by (simp add: filter_map comp_def case_prod_unfold)
  then show ?thesis by (auto simp: route_def last_child_def last_map case_prod_unfold)
qed

lemma route_insert:
  assumes "om_wf m" "map_of m s = None"
  shows "route (om_insert s c m) key d =
    (if s \<le> key \<and> (\<forall>t \<in> set (om_keys m). t \<le> key \<longrightarrow> t < s) then Some c else route m key d)"
  using assms
proof (induction s c m arbitrary: d rule: om_insert.induct)
  case (1 s c)
  then show ?case by (simp add: route_Cons)
next
  case (2 s c a b m)
  have wf: "om_wf ((s, c) # (a, b) # m)" if "s < a" using 2(2) that by auto
  have wf': "om_wf ((a, b) # om_insert s c m)" if "a < s"
    using 2(2) that om_insert_keys[of s c m] by (auto simp del: om_insert_keys)
  show ?case
    using 2 wf wf' by (auto simp: route_Cons) (auto intro: order.strict_trans2 route_default)
qed

text \<open>Where redirection sends one child.\<close>

fun redirect_id :: "(node_id \<times> node) list \<Rightarrow> node_id \<Rightarrow> node_id" where
  "redirect_id [] c = c"
| "redirect_id ((i, n) # rest) c =
     (if \<not> nd_drained n then redirect_id rest c
      else case find (\<lambda>(_, m). \<not> nd_drained m) rest of
             None \<Rightarrow> redirect_id rest c
           | Some (target, _) \<Rightarrow> redirect_id rest (if c = i then target else c))"

lemma redirect_drained_map:
  "redirect_drained path m = map (\<lambda>(s, c). (s, redirect_id path c)) m"
  by (induction path m rule: redirect_drained.induct)
    (auto split: option.splits if_splits simp: comp_def)

lemma om_wf_redirect: "om_wf m \<Longrightarrow> om_wf (redirect_drained path m)"
  by (simp add: redirect_drained_map comp_def case_prod_unfold)

text \<open>The separators a chain of live nodes offers for a key: the right neighbour of a node that
  ends at or below the key.\<close>

definition chain_step :: "(node_id \<times> node) list \<Rightarrow> bytes \<Rightarrow> node_id \<Rightarrow> bool" where
  "chain_step live key c \<longleftrightarrow> (\<exists>us vs i p n s. live = us @ (i, p) # (c, n) # vs
     \<and> nd_high_key p = Some s \<and> s \<le> key)"

lemma chain_step_Cons: "chain_step live key c \<Longrightarrow> chain_step (x # live) key c"
  unfolding chain_step_def by (metis append_Cons)

lemma om_wf_insert_separators: "om_wf m \<Longrightarrow> om_wf (insert_separators live m)"
  by (induction live m rule: insert_separators.induct) (auto split: option.splits)

lemma route_insert_separators:
  assumes "om_wf m" "route (insert_separators live m) key d = Some c"
  shows "route m key d = Some c \<or> chain_step live key c"
  using assms
proof (induction live m rule: insert_separators.induct)
  case (1 u previous i n rest children)
  let ?m = "case nd_high_key previous of None \<Rightarrow> children | Some s \<Rightarrow>
      (case map_of children s of None \<Rightarrow> om_insert s i children | Some _ \<Rightarrow> children)"
  have wf: "om_wf ?m" using 1(2) by (auto split: option.splits)
  have "route ?m key d = Some c \<or> chain_step ((i, n) # rest) key c"
    using 1(1)[OF wf] 1(3) by simp
  moreover have "route ?m key d = Some c \<Longrightarrow>
      route children key d = Some c \<or> chain_step ((u, previous) # (i, n) # rest) key c"
  proof -
    assume r: "route ?m key d = Some c"
    have "chain_step ((u, previous) # (i, n) # rest) key i"
      if "nd_high_key previous = Some s" "s \<le> key" for s
      using that unfolding chain_step_def by (metis append_Nil)
    then show ?thesis
      using r 1(2) by (auto simp: route_insert split: option.splits if_splits)
  qed
  ultimately show ?case using chain_step_Cons by blast
qed auto

lemma insert_separators_keys: "fst ` set m \<subseteq> fst ` set (insert_separators live m)"
proof (induction live m rule: insert_separators.induct)
  case (1 u previous i n rest children)
  have "fst ` set children \<subseteq> fst ` set (case nd_high_key previous of None \<Rightarrow> children | Some s \<Rightarrow>
      (case map_of children s of None \<Rightarrow> om_insert s i children | Some _ \<Rightarrow> children))"
    by (auto split: option.splits)
  then show ?case using 1 by (simp del: om_insert_fst)
qed auto

lemma ex_key_mono:
  "\<exists>p \<in> set m. fst p \<le> key \<Longrightarrow> fst ` set m \<subseteq> fst ` set n \<Longrightarrow> \<exists>p \<in> set n. fst p \<le> key"
  by (metis image_iff subset_iff)

lemma route_drop_repeated: "om_wf m \<Longrightarrow> route (drop_repeated d m) key d = route m key d"
proof (induction m arbitrary: d)
  case (Cons p m)
  obtain s c where p: "p = (s, c)" by (cases p)
  have sub: "set (drop_repeated e n) \<subseteq> set n" for e n
    by (induction e n rule: drop_repeated.induct) auto
  have wfd: "om_wf n \<Longrightarrow> om_wf (drop_repeated e n)" for e n
    by (induction e n rule: drop_repeated.induct) (use sub in fastforce)+
  have wf: "om_wf ((s, c) # drop_repeated (Some c) m)"
    using Cons.prems wfd[of m "Some c"] sub[of "Some c" m] by (auto simp: p)
  show ?case
  proof (cases "s \<le> key")
    case True
    then show ?thesis using Cons wf by (auto simp: p route_Cons)
  next
    case False
    have "route (drop_repeated (Some c) m) key d = d" if "om_wf m" "\<forall>q \<in> set m. \<not> fst q \<le> key"
      using that sub[of "Some c" m] by (auto simp: route_def last_child_def filter_empty_conv)
    moreover have "\<forall>q \<in> set m. \<not> fst q \<le> key" using Cons.prems False by (auto simp: p)
    ultimately show ?thesis using Cons wf False by (auto simp: p route_Cons)
  qed
qed simp

lemma route_Some: "(\<exists>p \<in> set m. fst p \<le> key) \<Longrightarrow> \<exists>c. route m key d = Some c"
  by (auto simp: route_def last_child_def filter_empty_conv)



end
