(* ===== verification/Intents.thy ===== *)
theory Intents
  imports Paths
begin

text \<open>
  Structural intents: the durable description of a split or a merge in progress
  (\<^verbatim>\<open>glassdb-storage/src/structural_intent.rs\<close>) and its protobuf form. The byte
  encoding of the message is a parameter of \<open>intent_encode\<close> and \<open>intent_decode\<close>.
\<close>

section \<open>Intents\<close>

datatype StructuralIntentPhase = Preparing | Ready

record merge_target =
  mt_node_id :: node_id
  mt_boundary :: bytes
  mt_generation :: "64 word"

datatype StructuralChange =
    SplitChange "node_id list" bytes
  | MergeChange "merge_target option"

record structural_intent =
  si_collection :: collection_address
  si_source_node_id :: "node_id option"
  si_source_revision :: string
  si_change :: StructuralChange
  si_participant_id :: tx_id
  si_phase :: StructuralIntentPhase

definition intent_is_root :: "structural_intent \<Rightarrow> bool" where
  "intent_is_root i \<longleftrightarrow> si_source_node_id i = None"

section \<open>Protobuf form\<close>

record pb_merge_intent =
  pmi_target_node_id :: bytes
  pmi_boundary :: bytes
  pmi_target_generation :: "64 word"

record pb_structural_intent =
  psi_collection_id :: bytes
  psi_source_node_id :: bytes
  psi_source_revision :: string
  psi_created_node_ids :: "bytes list"
  psi_split_key :: bytes
  psi_is_root :: bool
  psi_participant_id :: bytes
  psi_phase :: int
  psi_merge :: "pb_merge_intent option"

definition phase_number :: "StructuralIntentPhase \<Rightarrow> int" where
  "phase_number p = (case p of Preparing \<Rightarrow> 0 | Ready \<Rightarrow> 1)"

definition phase_try_from :: "int \<Rightarrow> StructuralIntentPhase option" where
  "phase_try_from n = (if n = 0 then Some Preparing else if n = 1 then Some Ready else None)"

definition intent_to_proto :: "structural_intent \<Rightarrow> pb_structural_intent" where
  "intent_to_proto i =
     (let (created, split_key, merge) =
        (case si_change i of
           SplitChange created_node_ids split_key \<Rightarrow> (map nid_bytes created_node_ids, split_key, None)
         | MergeChange target \<Rightarrow>
             ([], [], Some
               \<lparr>pmi_target_node_id = (case target of None \<Rightarrow> [] | Some t \<Rightarrow> nid_bytes (mt_node_id t)),
                pmi_boundary = (case target of None \<Rightarrow> [] | Some t \<Rightarrow> mt_boundary t),
                pmi_target_generation = (case target of None \<Rightarrow> 0 | Some t \<Rightarrow> mt_generation t)\<rparr>))
      in \<lparr>psi_collection_id = cid_bytes (ca_id (si_collection i)),
          psi_source_node_id = optional_id_bytes nid_bytes (si_source_node_id i),
          psi_source_revision = si_source_revision i,
          psi_created_node_ids = created,
          psi_split_key = split_key,
          psi_is_root = intent_is_root i,
          psi_participant_id = tx_bytes (si_participant_id i),
          psi_phase = phase_number (si_phase i),
          psi_merge = merge\<rparr>)"

definition merge_from_proto ::
    "pb_merge_intent \<Rightarrow> StructuralIntentPhase \<Rightarrow> bool \<Rightarrow> bool \<Rightarrow> (StorageError, StructuralChange) result" where
  "merge_from_proto raw phase root has_no_split_fields =
     (if root \<or> \<not> has_no_split_fields
      then Inl (OtherError ''merge intent must have a non-root source and no split fields'')
      else let ready = (phase = Ready) in
        if (pmi_target_node_id raw = []) = ready \<or> (pmi_boundary raw = []) = ready
           \<or> (\<not> ready \<and> pmi_target_generation raw \<noteq> 0)
        then Inl (OtherError ''merge intent has a target exactly when it is Ready'')
        else if ready
        then map_r (\<lambda>i. MergeChange (Some
               \<lparr>mt_node_id = i, mt_boundary = pmi_boundary raw, mt_generation = pmi_target_generation raw\<rparr>))
               (decode_id node_id_try_from (pmi_target_node_id raw)
                 ''structural intent has an invalid merge target node ID'')
        else Inr (MergeChange None))"

definition intent_from_proto :: "db_prefix \<Rightarrow> pb_structural_intent \<Rightarrow> (StorageError, structural_intent) result" where
  "intent_from_proto db raw =
     bind_r (decode_id tx_id_try_from (psi_participant_id raw)
       ''structural intent has an invalid topology participant'') (\<lambda>participant.
     case phase_try_from (psi_phase raw) of
       None \<Rightarrow> Inl (OtherError ''structural intent has an invalid phase'')
     | Some phase \<Rightarrow>
       bind_r (decode_id collection_id_try_from (psi_collection_id raw)
         ''structural intent has an invalid collection ID'') (\<lambda>cid.
       bind_r (decode_optional_id node_id_try_from (psi_source_node_id raw)
         ''structural intent has an invalid source node ID'') (\<lambda>source.
       if psi_is_root raw \<noteq> (source = None)
       then Inl (OtherError ''structural intent has inconsistent root metadata'')
       else map_r (\<lambda>change.
         \<lparr>si_collection = CollectionAddress db cid, si_source_node_id = source,
          si_source_revision = psi_source_revision raw, si_change = change,
          si_participant_id = participant, si_phase = phase\<rparr>)
         (case psi_merge raw of
            Some merge \<Rightarrow>
              merge_from_proto merge phase (source = None) (psi_created_node_ids raw = [] \<and> psi_split_key raw = [])
          | None \<Rightarrow>
              map_r (\<lambda>ids. SplitChange ids (psi_split_key raw))
                (traverse_r (\<lambda>i. decode_id node_id_try_from i ''structural intent has an invalid created node ID'')
                  (psi_created_node_ids raw))))))"

definition intent_encode :: "(pb_structural_intent \<Rightarrow> bytes) \<Rightarrow> structural_intent \<Rightarrow> bytes" where
  "intent_encode encode_to_vec i = encode_to_vec (intent_to_proto i)"

definition intent_decode ::
    "(bytes \<Rightarrow> ('e, pb_structural_intent) result) \<Rightarrow> db_prefix \<Rightarrow> bytes \<Rightarrow> (StorageError, structural_intent) result" where
  "intent_decode pb_decode db buf =
     bind_r (map_err (\<lambda>_. OtherError ''unmarshalling structural intent'') (pb_decode buf)) (intent_from_proto db)"

section \<open>Well-formed intents\<close>

fun change_wf :: "structural_intent \<Rightarrow> StructuralChange \<Rightarrow> bool" where
  "change_wf i (SplitChange ids k) \<longleftrightarrow> (\<forall>n \<in> set ids. id_ok (nid_bytes n))"
| "change_wf i (MergeChange t) \<longleftrightarrow>
     si_source_node_id i \<noteq> None \<and> (si_phase i = Ready \<longleftrightarrow> t \<noteq> None)
     \<and> (case t of None \<Rightarrow> True | Some m \<Rightarrow> id_ok (nid_bytes (mt_node_id m)) \<and> mt_boundary m \<noteq> [])"

definition intent_wf :: "db_prefix \<Rightarrow> structural_intent \<Rightarrow> bool" where
  "intent_wf db i \<longleftrightarrow>
     ca_db_prefix (si_collection i) = db \<and> id_ok (cid_bytes (ca_id (si_collection i)))
     \<and> (\<forall>n. si_source_node_id i = Some n \<longrightarrow> id_ok (nid_bytes n))
     \<and> id_ok (tx_bytes (si_participant_id i)) \<and> change_wf i (si_change i)"

lemma phase_roundtrip [simp]: "phase_try_from (phase_number p) = Some p"
  by (cases p) (simp_all add: phase_try_from_def phase_number_def)

section \<open>Lemmas\<close>

lemma traverse_decode_ids:
  "traverse_r (\<lambda>i. decode_id node_id_try_from i err) raw = Inr ids
   \<longleftrightarrow> raw = map nid_bytes ids \<and> (\<forall>n \<in> set ids. id_ok (nid_bytes n))"
proof -
  have "list_all2 (\<lambda>x y. x = nid_bytes y \<and> id_ok (nid_bytes y)) raw ids
      \<longleftrightarrow> raw = map nid_bytes ids \<and> (\<forall>n \<in> set ids. id_ok (nid_bytes n))"
    by (induction raw arbitrary: ids) (auto simp: list_all2_Cons1)
  then show ?thesis
    by (simp add: traverse_r_iff_all2 decode_id_ok_iff try_from_as_bytes cong: conj_cong)
qed

lemma merge_from_proto_ok_iff:
  "merge_from_proto raw phase root no_split = Inr change \<longleftrightarrow>
     \<not> root \<and> no_split \<and>
     (if phase = Ready
      then \<exists>m. change = MergeChange (Some m) \<and> mt_boundary m \<noteq> [] \<and> id_ok (nid_bytes (mt_node_id m))
        \<and> raw = \<lparr>pmi_target_node_id = nid_bytes (mt_node_id m), pmi_boundary = mt_boundary m,
                 pmi_target_generation = mt_generation m\<rparr>
      else change = MergeChange None
        \<and> raw = \<lparr>pmi_target_node_id = [], pmi_boundary = [], pmi_target_generation = 0\<rparr>)"
proof (cases "phase = Ready")
  case True
  have "map_r (\<lambda>i. MergeChange (Some \<lparr>mt_node_id = i, mt_boundary = b, mt_generation = g\<rparr>))
        (decode_id node_id_try_from t err) = Inr change \<longleftrightarrow>
      (\<exists>m. change = MergeChange (Some m) \<and> mt_boundary m = b \<and> mt_generation m = g
        \<and> t = nid_bytes (mt_node_id m) \<and> id_ok (nid_bytes (mt_node_id m)))" for t b g err
    by (auto simp: map_r_ok_iff decode_id_ok_iff try_from_as_bytes)
  then show ?thesis
    using True by (cases raw) (auto simp: merge_from_proto_def)
next
  case False
  then show ?thesis by (cases raw) (auto simp: merge_from_proto_def)
qed

lemma decode_source_ok_iff:
  "decode_optional_id node_id_try_from bs err = Inr i
   \<longleftrightarrow> bs = optional_id_bytes nid_bytes i \<and> (\<forall>n. i = Some n \<longrightarrow> id_ok (nid_bytes n))"
  by (cases i) (auto simp: decode_optional_id_ok_iff optional_id_bytes_def try_from_as_bytes)

lemma intent_from_proto_wf:
  assumes "intent_from_proto db raw = Inr i"
  shows "intent_wf db i"
  using assms unfolding intent_from_proto_def
  by (auto simp: intent_wf_def bind_r_ok_iff decode_id_ok_iff try_from_as_bytes decode_source_ok_iff
      map_r_ok_iff traverse_decode_ids merge_from_proto_ok_iff split: option.splits if_splits)

lemma intent_change_roundtrip:
  assumes "intent_wf db i"
  shows "intent_from_proto db (intent_to_proto i) = Inr i"
proof -
  have c: "CollectionAddress db (ca_id (si_collection i)) = si_collection i"
    using assms by (cases "si_collection i") (auto simp: intent_wf_def)
  have ids: "decode_id tx_id_try_from (tx_bytes (si_participant_id i)) e1 = Inr (si_participant_id i)"
    "decode_id collection_id_try_from (cid_bytes (ca_id (si_collection i))) e2 = Inr (ca_id (si_collection i))"
    "decode_optional_id node_id_try_from (optional_id_bytes nid_bytes (si_source_node_id i)) e3 = Inr (si_source_node_id i)"
    for e1 e2 e3
    using assms by (auto simp: intent_wf_def decode_id_ok_iff try_from_as_bytes decode_source_ok_iff)
  show ?thesis
  proof (cases "si_change i")
    case (SplitChange created k)
    then have "traverse_r (\<lambda>i. decode_id node_id_try_from i e) (map nid_bytes created) = Inr created" for e
      using assms by (simp add: traverse_decode_ids intent_wf_def)
    then show ?thesis
      using SplitChange by (simp add: intent_from_proto_def intent_to_proto_def ids c intent_is_root_def)
  next
    case (MergeChange t)
    let ?m = "\<lparr>pmi_target_node_id = (case t of None \<Rightarrow> [] | Some t \<Rightarrow> nid_bytes (mt_node_id t)),
                pmi_boundary = (case t of None \<Rightarrow> [] | Some t \<Rightarrow> mt_boundary t),
                pmi_target_generation = (case t of None \<Rightarrow> 0 | Some t \<Rightarrow> mt_generation t)\<rparr>"
    have "merge_from_proto ?m (si_phase i) (si_source_node_id i = None) True = Inr (MergeChange t)"
      unfolding merge_from_proto_ok_iff using assms MergeChange
      by (cases t) (auto simp: intent_wf_def)
    then show ?thesis
      using MergeChange by (simp add: intent_from_proto_def intent_to_proto_def ids c intent_is_root_def)
  qed
qed

section \<open>Properties\<close>

text \<open>C27: every body that decodes is a well-formed intent, and an intent is recovered from its message
  exactly when it is well-formed: in particular a merge names a target exactly when it is Ready.\<close>

theorem intent_roundtrip_iff:
  "(intent_from_proto db (intent_to_proto i) = Inr i \<longleftrightarrow> intent_wf db i)
   \<and> {j. \<exists>raw. intent_from_proto db raw = Inr j} = {j. intent_wf db j}"
  using intent_change_roundtrip intent_from_proto_wf by blast

end
