(* ===== verification/Structural.thy ===== *)
theory Structural
  imports Node_Structure Intents
begin

text \<open>
  Structural changes of a collection tree: the node writes of splits, merges and
  parent reconciliation of \<^verbatim>\<open>glassdb-trans/src/structural\<close> and their recovery.
  The first sections translate the planning of each change as functions on nodes.
  A tree is then a store of nodes changed by one conditional write at a time, by any
  number of workers and recoveries in any order, with changes abandoned at any point.
\<close>

section \<open>Tombstone reclamation\<close>

definition is_reclaimable :: "leaf_entry \<Rightarrow> bool" where
  "is_reclaimable e \<longleftrightarrow> le_lock_holders e = [] \<and> cs_is_tombstone (le_current e)"

definition reclaim_holder_free_tombstones :: "node \<Rightarrow> tx_id list \<times> node" where
  "reclaim_holder_free_tombstones n =
     (case nd_body n of
        Index _ \<Rightarrow> ([], n)
      | Leaf b \<Rightarrow>
          (let gone = filter is_reclaimable (lb_values b);
               compacted = lb_from_entries (filter (\<lambda>e. \<not> is_reclaimable e) (lb_values b))
           in if gone = [] then ([], n)
              else (List.map_filter (\<lambda>e. cs_writer (le_current e)) gone, n\<lparr>nd_body := Leaf compacted\<rparr>)))"

abbreviation compact :: "node \<Rightarrow> node" where
  "compact n \<equiv> snd (reclaim_holder_free_tombstones n)"

section \<open>Gates\<close>

abbreviation gate_holders :: "node \<Rightarrow> tx_id list" where
  "gate_holders n \<equiv> eg_holders (nl_structure (nd_locks n))"

abbreviation reservation :: "node \<Rightarrow> structural_intent_id option" where
  "reservation n \<equiv> nl_merge_reservation (nd_locks n)"

abbreviation generation :: "node \<Rightarrow> 64 word" where
  "generation n \<equiv> nl_generation (nd_locks n)"

definition ungate :: "tx_id \<Rightarrow> node \<Rightarrow> node" where
  "ungate w n = n\<lparr>nd_locks := snd (nl_remove_structural_gate w (nd_locks n))\<rparr>"

section \<open>Splits\<close>

definition divide :: "bytes option \<Rightarrow> node_id \<Rightarrow> node \<Rightarrow> (node \<times> node \<times> bytes) option" where
  "divide at right_id n = (case at of Some key \<Rightarrow> split_leaf_at right_id key n | None \<Rightarrow> split right_id n)"

text \<open>A plan: the nodes to create, in this order, and the node that replaces the source.\<close>

record split_plan =
  sp_created :: "(node_id \<times> node) list"
  sp_source :: node
  sp_split_key :: bytes

definition nonroot_split_plan :: "bytes option \<Rightarrow> node_id \<Rightarrow> tx_id \<Rightarrow> node \<Rightarrow> split_plan option" where
  "nonroot_split_plan at right_id worker source =
     (case divide at right_id source of
        None \<Rightarrow> None
      | Some (left, right, split_key) \<Rightarrow>
          Some \<lparr>sp_created = [(right_id, right)], sp_source = ungate worker left, sp_split_key = split_key\<rparr>)"

text \<open>The root is rewritten in place over two new children.\<close>

definition root_split_plan :: "bytes option \<Rightarrow> node_id \<Rightarrow> node_id \<Rightarrow> tx_id \<Rightarrow> node \<Rightarrow> split_plan option" where
  "root_split_plan at left_id right_id worker n =
     (case divide at right_id n of
        None \<Rightarrow> None
      | Some (left, right, split_key) \<Rightarrow>
          Some \<lparr>sp_created = [(left_id, ungate worker left), (right_id, right)],
                sp_source = node_index (in_from_children [([], left_id), (split_key, right_id)]),
                sp_split_key = split_key\<rparr>)"

section \<open>Merges\<close>

definition MAX_TARGET_SEARCH_HOPS :: nat where
  "MAX_TARGET_SEARCH_HOPS = 4096"

text \<open>The first node on a right-link chain that is not drained.\<close>

fun search_target ::
    "nat \<Rightarrow> (node_id \<Rightarrow> node option) \<Rightarrow> node_id option \<Rightarrow> (StorageError, (node_id \<times> node) option) result" where
  "search_target 0 load nxt = Inl (OtherError ''merge target search exceeded the right-link hop bound'')"
| "search_target (Suc hops) load nxt =
     (case nxt of
        None \<Rightarrow> Inr None
      | Some i \<Rightarrow>
          (case load i of
             None \<Rightarrow> Inl NotFound
           | Some n \<Rightarrow>
               if \<not> nd_drained n then Inr (Some (i, n))
               else search_target hops load (nd_right_sibling n)))"

record merge_plan =
  mp_source :: node_id
  mp_gated :: node
  mp_left :: node
  mp_target :: merge_target
  mp_worker :: tx_id

text \<open>\<^verbatim>\<open>Merger::prepare\<close> after the checks of size and holders, which can only refuse a merge: \<open>load\<close>
  reads the current nodes.\<close>

definition merge_plan_for :: "(node_id \<Rightarrow> node option) \<Rightarrow> node_id \<Rightarrow> tx_id \<Rightarrow> node \<Rightarrow> merge_plan option" where
  "merge_plan_for load source worker gated =
     (let left = compact gated in
      case nd_high_key left of
        None \<Rightarrow> None
      | Some boundary \<Rightarrow>
          if nd_drained left then None
          else case search_target MAX_TARGET_SEARCH_HOPS load (nd_right_sibling left) of
            Inr (Some (target, n)) \<Rightarrow>
              if reservation n \<noteq> None then None
              else Some \<lparr>mp_source = source, mp_gated = gated, mp_left = left,
                     mp_target = \<lparr>mt_node_id = target, mt_boundary = boundary, mt_generation = generation n\<rparr>,
                     mp_worker = worker\<rparr>
          | _ \<Rightarrow> None)"

definition absorb_fits :: "(pb_node \<Rightarrow> nat) \<Rightarrow> node_size_policy \<Rightarrow> node \<Rightarrow> bool" where
  "absorb_fits pb_len policy n \<longleftrightarrow>
     \<not> (content_encoded_len pb_len n > content_limit policy \<or> pb_len (node_to_pb n) > node_max_bytes policy)"

text \<open>One attempt of \<^verbatim>\<open>Merger::absorb\<close> on the current target; \<open>final\<close> says which gate holders have a
  final status.\<close>

definition absorb_attempt ::
    "(pb_node \<Rightarrow> nat) \<Rightarrow> node_size_policy \<Rightarrow> (tx_id \<Rightarrow> bool) \<Rightarrow> structural_intent_id \<Rightarrow> merge_plan \<Rightarrow> node \<Rightarrow> node option" where
  "absorb_attempt pb_len policy final intent m right =
     (if nd_drained right \<or> generation right \<noteq> mt_generation (mp_target m)
         \<or> nl_drop_intent (nd_locks right) \<noteq> None \<or> reservation right \<noteq> None
      then None
      else
        let opened = (case gate_holders right of
               [] \<Rightarrow> Some right
             | holder # _ \<Rightarrow> if final holder then Some (ungate holder right) else None)
        in case opened of
             None \<Rightarrow> None
           | Some right \<Rightarrow>
               (case absorb (compact right) (mp_left m) intent of
                  Inl _ \<Rightarrow> None
                | Inr joined \<Rightarrow> if absorb_fits pb_len policy joined then Some joined else None))"

text \<open>The change that \<^verbatim>\<open>StructuralNodeAccess::abandon_merge\<close> makes to the target, and the one of
  \<^verbatim>\<open>remove_merge_reservation\<close>; \<open>None\<close> when the node needs no change.\<close>

definition abandon_change :: "structural_intent_id \<Rightarrow> merge_target \<Rightarrow> node \<Rightarrow> node option" where
  "abandon_change intent target n =
     (let (abandoned, n') = abandon_merge intent (mt_boundary target) n in
      if abandoned then Some n'
      else if nd_drained n \<or> generation n \<noteq> mt_generation target then None
      else Some (n\<lparr>nd_locks := advance_membership_generation (nd_locks n)\<rparr>))"

definition remove_reservation_change :: "structural_intent_id \<Rightarrow> node \<Rightarrow> node option" where
  "remove_reservation_change intent n =
     (let (removed, locks) = nl_remove_merge_reservation intent (nd_locks n)
      in if removed then Some (n\<lparr>nd_locks := locks\<rparr>) else None)"

section \<open>Parent reconciliation\<close>

definition MAX_RECONCILE_HOPS :: nat where
  "MAX_RECONCILE_HOPS = 4096"

text \<open>\<^verbatim>\<open>child_chain\<close>: the children from the one before a key through the one that covers it. Each hop
  reads its node anew, so \<open>load\<close> also takes the hop.\<close>

fun child_chain_from ::
    "nat \<Rightarrow> (nat \<Rightarrow> node_id \<Rightarrow> node option) \<Rightarrow> bytes \<Rightarrow> node_id \<Rightarrow> (StorageError, (node_id \<times> node) list) result" where
  "child_chain_from 0 load key i = Inl (OtherError ''parent reconciliation exceeded the right-link hop bound'')"
| "child_chain_from (Suc hops) load key i =
     (case load hops i of
        None \<Rightarrow> Inl NotFound
      | Some n \<Rightarrow>
          (case nd_right_sibling n of
             Some right \<Rightarrow>
               if \<not> covers n key then map_r (Cons (i, n)) (child_chain_from hops load key right)
               else Inr [(i, n)]
           | None \<Rightarrow> Inr [(i, n)]))"

definition child_chain ::
    "(nat \<Rightarrow> node_id \<Rightarrow> node option) \<Rightarrow> index_node \<Rightarrow> bytes \<Rightarrow> (StorageError, (node_id \<times> node) list) result" where
  "child_chain load index key =
     (case child_before index key of
        None \<Rightarrow> Inr []
      | Some first \<Rightarrow> child_chain_from MAX_RECONCILE_HOPS load key first)"

text \<open>\<^verbatim>\<open>reconciled_index\<close>: the loop over the keys; \<open>load\<close> also takes the number of keys left.\<close>

fun reconcile_keys ::
    "(nat \<Rightarrow> nat \<Rightarrow> node_id \<Rightarrow> node option) \<Rightarrow> index_node \<Rightarrow> bytes list \<Rightarrow> index_node \<Rightarrow> (StorageError, index_node) result" where
  "reconcile_keys load index [] reconciled = Inr reconciled"
| "reconcile_keys load index (key # keys) reconciled =
     bind_r (child_chain (load (length keys)) index key)
       (\<lambda>chain. reconcile_keys load index keys (reconcile chain reconciled))"

definition reconciled_index ::
    "(nat \<Rightarrow> nat \<Rightarrow> node_id \<Rightarrow> node option) \<Rightarrow> index_node \<Rightarrow> bytes list \<Rightarrow> (StorageError, index_node) result" where
  "reconciled_index load index keys = reconcile_keys load index keys index"

section \<open>Effects on a node\<close>

text \<open>The entries of a leaf that carry information: all but the reclaimable tombstones.\<close>

definition visible :: "node \<Rightarrow> bytes \<Rightarrow> leaf_entry option" where
  "visible n k = (case nd_body n of
     Leaf b \<Rightarrow> (case lb_lookup b k of None \<Rightarrow> None | Some e \<Rightarrow> if is_reclaimable e then None else Some e)
   | Index _ \<Rightarrow> None)"

lemma lb_lookup_filter_entries:
  assumes "lb_wf b"
  shows "lb_lookup (lb_from_entries (filter P (lb_values b))) k
    = (case lb_lookup b k of None \<Rightarrow> None | Some e \<Rightarrow> if P e then Some e else None)"
proof -
  have m: "entries_wf m \<Longrightarrow> map (\<lambda>e. (le_key e, e)) (filter P (map snd m)) = filter (\<lambda>p. P (snd p)) m" for m
    by (induction m) (auto simp: entries_wf_def)
  have f: "distinct (map fst m) \<Longrightarrow> map_of (filter (\<lambda>p. P (snd p)) m) k
      = (case map_of m k of None \<Rightarrow> None | Some e \<Rightarrow> if P e then Some e else None)"
    for m :: "(bytes \<times> leaf_entry) list"
    by (induction m) (force split: option.splits dest: map_of_SomeD)+
  have w: "entries_wf (lb_entries b)" using assms by (simp add: lb_wf_def)
  then have "lb_entries (lb_from_entries (filter P (lb_values b))) = filter (\<lambda>p. P (snd p)) (lb_entries b)"
    using m[OF w] by (simp add: lb_from_entries_def lb_values_def om_of_list_id entries_wf_om)
  then show ?thesis using f[of "lb_entries b"] w by (simp add: lb_lookup_def om_wf_distinct entries_wf_om)
qed

lemma lb_lookup_keys: "lb_lookup b k \<noteq> None \<longleftrightarrow> k \<in> set (om_keys (lb_entries b))"
  by (auto simp: lb_lookup_def map_of_eq_None_iff)

lemma compact_frame [simp]:
  "nd_low_key (compact n) = nd_low_key n" "nd_high_key (compact n) = nd_high_key n"
  "nd_right_sibling (compact n) = nd_right_sibling n" "nd_locks (compact n) = nd_locks n"
  "nd_drained (compact n) = nd_drained n"
  by (auto simp: reclaim_holder_free_tombstones_def Let_def split: NodeBody.splits)

lemma compact_index: "nd_body n = Index i \<Longrightarrow> compact n = n"
  by (simp add: reclaim_holder_free_tombstones_def)

lemma compact_leaf:
  assumes "nd_body n = Leaf b" "lb_wf b"
  shows "nd_body (compact n) = Leaf (lb_from_entries (filter (\<lambda>e. \<not> is_reclaimable e) (lb_values b)))"
proof (cases "filter is_reclaimable (lb_values b) = []")
  case True
  then have "filter (\<lambda>e. \<not> is_reclaimable e) (lb_values b) = lb_values b"
    by (simp add: filter_empty_conv)
  then show ?thesis using assms True by (simp add: reclaim_holder_free_tombstones_def)
next
  case False
  then show ?thesis using assms by (simp add: reclaim_holder_free_tombstones_def Let_def)
qed

lemma compact_body:
  assumes "body_wf (nd_body n)"
  shows "body_wf (nd_body (compact n))" "same_level (nd_body (compact n)) (nd_body n)"
    "set (body_keys (nd_body (compact n))) \<subseteq> set (body_keys (nd_body n))"
    "visible (compact n) k = visible n k"
proof -
  have "body_wf (nd_body (compact n)) \<and> same_level (nd_body (compact n)) (nd_body n)
    \<and> set (body_keys (nd_body (compact n))) \<subseteq> set (body_keys (nd_body n)) \<and> visible (compact n) k = visible n k"
  proof (cases "nd_body n")
    case (Index i)
    then show ?thesis using assms by (simp add: compact_index same_level_def)
  next
    case (Leaf b)
    then have w: "lb_wf b" using assms by (simp add: body_wf_def)
    let ?c = "lb_from_entries (filter (\<lambda>e. \<not> is_reclaimable e) (lb_values b))"
    have look: "lb_lookup ?c k = (case lb_lookup b k of None \<Rightarrow> None | Some e \<Rightarrow> if is_reclaimable e then None else Some e)" for k
      using lb_lookup_filter_entries[OF w, of "\<lambda>e. \<not> is_reclaimable e"] by (auto split: option.splits)
    have "\<forall>e \<in> set (lb_values b). le_wf e" using w by (auto simp: lb_wf_def entries_wf_def lb_values_def)
    then have "lb_wf ?c" by (auto intro: wf_intros)
    moreover have "k \<in> set (om_keys (lb_entries ?c)) \<Longrightarrow> k \<in> set (om_keys (lb_entries b))" for k
      using look[of k] lb_lookup_keys[of ?c k] lb_lookup_keys[of b k] by (auto split: option.splits)
    ultimately show ?thesis
      using compact_leaf[OF Leaf w] Leaf look
      by (auto simp: body_wf_def same_level_def body_keys_def visible_def split: option.splits)
  qed
  then show "body_wf (nd_body (compact n))" "same_level (nd_body (compact n)) (nd_body n)"
    "set (body_keys (nd_body (compact n))) \<subseteq> set (body_keys (nd_body n))"
    "visible (compact n) k = visible n k" by auto
qed

lemma ungate_frame [simp]:
  "nd_low_key (ungate w n) = nd_low_key n" "nd_high_key (ungate w n) = nd_high_key n"
  "nd_right_sibling (ungate w n) = nd_right_sibling n" "nd_body (ungate w n) = nd_body n"
  "nd_drained (ungate w n) = nd_drained n"
  "reservation (ungate w n) = reservation n" "generation (ungate w n) = generation n"
  by (auto simp: ungate_def nl_remove_structural_gate_def split: prod.splits)

lemma ungate_holder: "gate_holders n = [w] \<Longrightarrow> gate_holders (ungate w n) = []"
  by (auto simp: ungate_def nl_remove_structural_gate_def eg_defs ls_remove_def remove_sorted_def split: prod.splits)

lemma ungate_visible [simp]: "visible (ungate w n) k = visible n k"
  by (simp add: visible_def)

text \<open>What a planned split does, with or without the root.\<close>

lemma divide_splits_at:
  assumes "body_wf (nd_body n)" "divide at right_id n = Some (left, right, k)"
  shows "splits_at right_id n left right k"
  using assms split_splits_at(1) split_leaf_at_splits_at(1) by (auto simp: divide_def split: option.splits)

lemma clear_holders_frame [simp]:
  "eg_holders (nl_structure (nl_clear_holders l)) = []" "nl_merge_reservation (nl_clear_holders l) = None"
  "nl_generation (nl_clear_holders l) = nl_generation l"
  by (simp_all add: nl_clear_holders_def eg_defs ls_clear_def)

lemma set_gate_frame:
  assumes "eg_holders (nl_structure l) = []"
  shows "eg_holders (nl_structure (nl_set_structural_gate w l)) = [w]"
    "nl_merge_reservation (nl_set_structural_gate w l) = nl_merge_reservation l"
    "nl_generation (nl_set_structural_gate w l) = nl_generation l + 1"
  using assms by (simp_all add: nl_set_structural_gate_def advance_membership_generation_def eg_defs ls_set_writer_def)

lemma word_less_Suc: "(g :: 64 word) + 1 \<noteq> 0 \<Longrightarrow> g < g + 1"
  by (metis add.commute add.right_inverse inc_less_eq_iff word_le_less_eq)

text \<open>What a successful attempt of an absorb did.\<close>

lemma absorb_attempt_effect:
  assumes "absorb_attempt pb_len policy final i m r = Some r'"
    and "length (gate_holders r) \<le> 1"
  shows "\<not> nd_drained r" "reservation r = None" "generation r = mt_generation (mp_target m)"
    "nd_low_key r' = nd_low_key (mp_left m)" "nd_high_key r' = nd_high_key r"
    "nd_right_sibling r' = nd_right_sibling r" "\<not> nd_drained r'"
    "reservation r' = Some i" "gate_holders r' = []" "generation r + 1 \<le> generation r'"
    "absorb_body (nd_body (compact r)) (nd_body (mp_left m)) = Inr (nd_body r')"
proof -
  from assms(1) obtain opened where o: "\<not> nd_drained r" "reservation r = None"
      "generation r = mt_generation (mp_target m)"
      "(case gate_holders r of [] \<Rightarrow> Some r | h # _ \<Rightarrow> if final h then Some (ungate h r) else None) = Some opened"
      "absorb (compact opened) (mp_left m) i = Inr r'"
    by (auto simp: absorb_attempt_def Let_def split: if_splits option.splits sum.splits)
  have op: "opened = r \<and> gate_holders r = [] \<or> (\<exists>h. opened = ungate h r \<and> gate_holders r = [h])"
    using o(4) assms(2) by (cases "gate_holders r"; cases "tl (gate_holders r)") (auto split: if_splits)
  have fr: "nd_low_key opened = nd_low_key r" "nd_high_key opened = nd_high_key r"
      "nd_right_sibling opened = nd_right_sibling r" "nd_body opened = nd_body r" "nd_drained opened = nd_drained r"
      "reservation opened = None" "generation opened = generation r" "gate_holders opened = []"
    using op o(2) by (auto simp: ungate_holder)
  have body: "nd_body (compact opened) = nd_body (compact r)"
    by (simp add: reclaim_holder_free_tombstones_def fr Let_def split: NodeBody.splits)
  show "\<not> nd_drained r" "reservation r = None" "generation r = mt_generation (mp_target m)" by fact+
  from o(5) obtain body' where b: "absorb_body (nd_body (compact r)) (nd_body (mp_left m)) = Inr body'"
      "r' = (compact opened)\<lparr>nd_body := body', nd_low_key := nd_low_key (mp_left m),
        nd_locks := (nl_set_merge_reservation i (nd_locks opened))\<lparr>nl_generation :=
           max (nl_generation (nl_set_merge_reservation i (nd_locks opened))) (generation (mp_left m))\<rparr>\<rparr>"
    by (auto simp: absorb_def bind_r_ok_iff body Let_def)
  show "nd_low_key r' = nd_low_key (mp_left m)" "nd_high_key r' = nd_high_key r"
    "nd_right_sibling r' = nd_right_sibling r" "\<not> nd_drained r'"
    "reservation r' = Some i" "gate_holders r' = []" "generation r + 1 \<le> generation r'"
    "absorb_body (nd_body (compact r)) (nd_body (mp_left m)) = Inr (nd_body r')"
    using b o(1) fr by (auto simp: nl_set_merge_reservation_def advance_membership_generation_def)
qed

lemma abandon_change_cases:
  assumes "abandon_change i target n = Some n'" "body_wf (nd_body n)"
  obtains (abandoned) "reservation n = Some i"
      "n' = n\<lparr>nd_body := body_from (mt_boundary target) (nd_body n), nd_low_key := mt_boundary target,
         nd_locks := (nd_locks n)\<lparr>nl_merge_reservation := None\<rparr>\<rparr>"
    | (fenced) "reservation n \<noteq> Some i" "\<not> nd_drained n" "generation n = mt_generation target"
      "n' = n\<lparr>nd_locks := (nd_locks n)\<lparr>nl_generation := generation n + 1\<rparr>\<rparr>"
  using assms abandon_merge_body[OF assms(2), of "mt_boundary target"]
  by (auto simp: abandon_change_def abandon_merge_def nl_remove_merge_reservation_def Let_def
      advance_membership_generation_def split: if_splits)

lemma remove_reservation_change_effect:
  "remove_reservation_change i n = Some n' \<longleftrightarrow>
     reservation n = Some i \<and> n' = n\<lparr>nd_locks := (nd_locks n)\<lparr>nl_merge_reservation := None\<rparr>\<rparr>"
  by (auto simp: remove_reservation_change_def nl_remove_merge_reservation_def)

lemma merge_plan_for_effect:
  assumes "merge_plan_for load source w n = Some m"
  shows "mp_source m = source" "mp_gated m = n" "mp_left m = compact n" "mp_worker m = w"
    "nd_high_key n = Some (mt_boundary (mp_target m))" "\<not> nd_drained n"
    "\<exists>r. search_target MAX_TARGET_SEARCH_HOPS load (nd_right_sibling n) = Inr (Some (mt_node_id (mp_target m), r))
       \<and> reservation r = None \<and> mt_generation (mp_target m) = generation r"
  using assms by (auto simp: merge_plan_for_def Let_def split: option.splits if_splits sum.splits)

end
