(* ===== verification/Trans_Errors.thy ===== *)
theory Trans_Errors
  imports Errors Timeline
begin

text \<open>
  The error type of the transaction engine (\<^verbatim>\<open>glassdb-trans/src/error.rs\<close>). The cause
  an error may carry is diagnostic only and is not represented.
\<close>

datatype TransError = Storage StorageError | Retry | AlreadyFinalized | Wounded
  | ValidateRetry requirement | LockTimeout | NoSingleWrite | InvalidInput string
  | TransStaleCollection | TransOther string

definition trans_error_context :: "string \<Rightarrow> TransError \<Rightarrow> TransError" where
  "trans_error_context ctx e = (case e of
     Storage s \<Rightarrow> Storage (storage_error_context ctx s)
   | TransOther msg \<Rightarrow> TransOther (ctx @ '': '' @ msg)
   | InvalidInput msg \<Rightarrow> InvalidInput (ctx @ '': '' @ msg)
   | sentinel \<Rightarrow> sentinel)"

end
