(* ===== verification/Planning.thy ===== *)
theory Planning
  imports Topology Trans_Errors
begin

text \<open>
  The plans of splits and merges: \<^verbatim>\<open>Splitter::prepare\<close> (\<^verbatim>\<open>structural/split.rs\<close>) and
  \<^verbatim>\<open>Merger::prepare\<close> (\<^verbatim>\<open>structural/merge.rs\<close>), which check a gated node again under
  a topology policy. The locale \<open>topology_decisions\<close> is the contract of the trait
  \<^verbatim>\<open>TopologyDecisions\<close>; both policies satisfy it. The lemmas show that planning a split never
  reaches its \<^verbatim>\<open>expect\<close>, and that every plan is one of the changes of the collection tree.
\<close>

datatype SplitNeed = NeedSplit | NotActionable | NeedReroute

datatype ReadyChange = ReadySplit bytes | ReadyMerge merge_target

datatype 'p Prepared = Cancel "(TransError, unit) result" | ReclaimOnly node "tx_id list" | PreparedReady ReadyChange 'p

type_synonym split_policy = "bool \<Rightarrow> node \<Rightarrow> SplitReason \<Rightarrow> SplitDecision"
type_synonym merge_policy = "node \<Rightarrow> node \<Rightarrow> MergeReason \<Rightarrow> MergeDecision"

section \<open>Splits\<close>

definition decide :: "(pb_node \<Rightarrow> nat) \<Rightarrow> node_size_policy \<Rightarrow> split_policy \<Rightarrow> bool \<Rightarrow> node \<Rightarrow> SplitReason \<Rightarrow> SplitDecision" where
  "decide pb_len sizes decisions root n reason =
     (case reason of
        Capacity \<Rightarrow>
          if (case as_leaf n of Some leaf \<Rightarrow> 2 \<le> lb_len leaf | None \<Rightarrow> False)
             \<or> (case as_index n of Some index \<Rightarrow> 2 \<le> length (in_children index) | None \<Rightarrow> False)
          then SplitAt None else SplitNotNeeded
      | SoftCap \<Rightarrow>
          if as_leaf n = None then if over_soft_cap pb_len sizes n then SplitAt None else SplitNotNeeded
          else decisions root n reason
      | _ \<Rightarrow> decisions root n reason)"

fun need_of :: "SplitDecision \<Rightarrow> SplitNeed" where
  "need_of (SplitAt _) = NeedSplit"
| "need_of SplitWait = NeedSplit"
| "need_of SplitNotNeeded = NotActionable"
| "need_of SplitReroute = NeedReroute"

text \<open>\<^term>\<open>None\<close> where the code reaches \<^verbatim>\<open>unreachable!\<close>.\<close>

fun cancel_split :: "SplitNeed \<Rightarrow> split_plan Prepared option" where
  "cancel_split NotActionable = Some (Cancel (Inr ()))"
| "cancel_split NeedReroute = Some (Cancel (Inl Retry))"
| "cancel_split NeedSplit = None"

text \<open>\<^term>\<open>None\<close> where \<^verbatim>\<open>expect("a split source has entries or children in both halves")\<close> panics.\<close>

definition plan_root_split ::
    "(pb_node \<Rightarrow> nat) \<Rightarrow> node_size_policy \<Rightarrow> bytes option \<Rightarrow> node_id \<Rightarrow> node_id \<Rightarrow> tx_id \<Rightarrow> node \<Rightarrow> split_plan Prepared option" where
  "plan_root_split pb_len sizes at left_id right_id worker n =
     (case root_split_plan at left_id right_id worker n of
        None \<Rightarrow> None
      | Some sp \<Rightarrow>
          if content_encoded_len pb_len (sp_source sp) > content_limit sizes
             \<or> pb_len (node_to_pb (sp_source sp)) > node_max_bytes sizes
          then Some (Cancel (Inl (InvalidInput ''root index exceeds the coordination node size limit'')))
          else Some (PreparedReady (ReadySplit (sp_split_key sp)) sp))"

definition plan_nonroot_split :: "bytes option \<Rightarrow> node_id \<Rightarrow> tx_id \<Rightarrow> node \<Rightarrow> split_plan Prepared option" where
  "plan_nonroot_split at right_id worker n =
     map_option (\<lambda>sp. PreparedReady (ReadySplit (sp_split_key sp)) sp) (nonroot_split_plan at right_id worker n)"

definition split_prepare ::
    "(pb_node \<Rightarrow> nat) \<Rightarrow> node_size_policy \<Rightarrow> split_policy \<Rightarrow> bool \<Rightarrow> SplitReason \<Rightarrow> tx_id \<Rightarrow> node \<Rightarrow> node_id \<Rightarrow> node_id \<Rightarrow> split_plan Prepared option" where
  "split_prepare pb_len sizes decisions root reason worker n left_id right_id =
     (let decision = decide pb_len sizes decisions root n reason in
      case need_of decision of
        NeedSplit \<Rightarrow>
          let (reclaimed, compacted) = reclaim_holder_free_tombstones n;
              decision = (if reclaimed = [] then decision else decide pb_len sizes decisions root compacted reason)
          in (case decision of
                SplitAt at \<Rightarrow>
                  if root then plan_root_split pb_len sizes at left_id right_id worker compacted
                  else plan_nonroot_split at right_id worker compacted
              | SplitReroute \<Rightarrow> cancel_split NeedReroute
              | _ \<Rightarrow> if reclaimed \<noteq> [] then Some (ReclaimOnly compacted reclaimed) else cancel_split NotActionable)
      | need \<Rightarrow> cancel_split need)"

section \<open>Merges\<close>

definition merge_need ::
    "(pb_node \<Rightarrow> nat) \<Rightarrow> node_size_policy \<Rightarrow> merge_policy \<Rightarrow> node \<Rightarrow> node \<Rightarrow> MergeReason \<Rightarrow> (MergeVeto, unit) result" where
  "merge_need pb_len sizes decisions left0 right0 reason =
     (let left = compact left0; right = compact right0;
          fits_bytes = (content_encoded_len pb_len left + content_encoded_len pb_len right
            \<le> min (node_soft_max_bytes sizes) (content_limit sizes) div 2);
          inline_len = (\<lambda>leaf. sum_list (map (\<lambda>e. cs_inline_len (le_current e)) (lb_values leaf)))
      in case (nd_body left, nd_body right) of
           (Leaf left_leaf, Leaf right_leaf) \<Rightarrow>
             (case decisions left right reason of
                Veto veto \<Rightarrow> Inl veto
              | Within max_entries max_inline_bytes \<Rightarrow>
                  if lb_len left_leaf + lb_len right_leaf \<le> max_entries
                     \<and> inline_len left_leaf + inline_len right_leaf \<le> max_inline_bytes \<and> fits_bytes
                  then Inr () else Inl TooLarge)
         | (Index left_index, Index right_index) \<Rightarrow>
             if reason \<noteq> Underfull \<or> length (in_children left_index) \<ge> index_min_children sizes then Inl NotNeeded
             else if length (in_children left_index) + length (in_children right_index) > index_max_children sizes div 2
                     \<or> \<not> fits_bytes
             then Inl TooLarge else Inr ()
         | _ \<Rightarrow> Inl NotNeeded)"

text \<open>The claims on a node in the order of the code, and the first one whose status is not final.
  \<open>status\<close> answers whether a transaction has a final status.\<close>

definition node_claims :: "node \<Rightarrow> tx_id list" where
  "node_claims n = gate_holders n @ sx_holders (nl_membership (nd_locks n))
     @ (case nl_drop_intent (nd_locks n) of None \<Rightarrow> [] | Some i \<Rightarrow> [i])
     @ (case as_leaf n of None \<Rightarrow> [] | Some leaf \<Rightarrow> concat (map le_lock_holders (lb_values leaf)))"

fun any_live :: "(tx_id \<Rightarrow> (TransError, bool) result) \<Rightarrow> tx_id list \<Rightarrow> (TransError, bool) result" where
  "any_live status [] = Inr False"
| "any_live status (h # hs) = bind_r (status h) (\<lambda>final. if final then any_live status hs else Inr True)"

definition has_live_holder :: "(tx_id \<Rightarrow> (TransError, bool) result) \<Rightarrow> node \<Rightarrow> (TransError, bool) result" where
  "has_live_holder status n = any_live status (node_claims n)"

definition checked_target ::
    "(pb_node \<Rightarrow> nat) \<Rightarrow> node_size_policy \<Rightarrow> merge_policy \<Rightarrow> (tx_id \<Rightarrow> (TransError, bool) result) \<Rightarrow> (node_id \<Rightarrow> node option)
      \<Rightarrow> node \<Rightarrow> MergeReason \<Rightarrow> (TransError, (node_id \<times> node) option) result" where
  "checked_target pb_len sizes decisions status load left reason =
     (if nd_drained left \<or> nd_high_key left = None then Inr None
      else bind_r (map_err Storage (search_target MAX_TARGET_SEARCH_HOPS load (nd_right_sibling left))) (\<lambda>target.
        case target of
          None \<Rightarrow> Inr None
        | Some (i, n) \<Rightarrow>
            (case merge_need pb_len sizes decisions left n reason of
               Inl _ \<Rightarrow> Inr None
             | Inr _ \<Rightarrow>
                 if reservation n \<noteq> None then Inl Retry
                 else bind_r (has_live_holder status n) (\<lambda>live. if live then Inl Retry else Inr (Some (i, n))))))"

text \<open>\<^term>\<open>None\<close> where \<^verbatim>\<open>expect("a merge source has a right sibling")\<close> panics.\<close>

definition merge_prepare ::
    "(pb_node \<Rightarrow> nat) \<Rightarrow> node_size_policy \<Rightarrow> merge_policy \<Rightarrow> (tx_id \<Rightarrow> (TransError, bool) result) \<Rightarrow> (node_id \<Rightarrow> node option)
      \<Rightarrow> node_id \<Rightarrow> tx_id \<Rightarrow> MergeReason \<Rightarrow> node \<Rightarrow> merge_plan Prepared option" where
  "merge_prepare pb_len sizes decisions status load source worker reason gated =
     (let (reclaimed, left) = reclaim_holder_free_tombstones gated in
      case checked_target pb_len sizes decisions status load left reason of
        Inl e \<Rightarrow> Some (Cancel (Inl e))
      | Inr None \<Rightarrow> Some (if reclaimed \<noteq> [] then ReclaimOnly left reclaimed else Cancel (Inr ()))
      | Inr (Some (target, n)) \<Rightarrow>
          (case nd_high_key left of
             None \<Rightarrow> None
           | Some boundary \<Rightarrow>
               let merge = \<lparr>mt_node_id = target, mt_boundary = boundary, mt_generation = generation n\<rparr>
               in Some (PreparedReady (ReadyMerge merge)
                    \<lparr>mp_source = source, mp_gated = gated, mp_left = left, mp_target = merge, mp_worker = worker\<rparr>)))"

section \<open>Plans\<close>

lemma tombstone_writer: "cs_is_tombstone c \<Longrightarrow> cs_writer c \<noteq> None"
  by (cases c) simp_all

lemma reclaim_nothing: "reclaim_holder_free_tombstones n = ([], c) \<Longrightarrow> c = n"
  using tombstone_writer
  by (fastforce simp: reclaim_holder_free_tombstones_def Let_def map_filter_def filter_empty_conv is_reclaimable_def
      split: NodeBody.splits if_splits)

lemma plan_total:
  assumes "divisible at n"
  shows "plan_nonroot_split at right_id worker n \<noteq> None" "plan_root_split pb_len sizes at left_id right_id worker n \<noteq> None"
  using divisible_divides[OF assms, of right_id]
  by (auto simp: plan_nonroot_split_def nonroot_split_plan_def plan_root_split_def root_split_plan_def split: option.splits if_splits)

section \<open>The contract of a topology policy\<close>

locale topology_decisions =
  fixes decisions :: split_policy
  assumes decision_divides: "body_wf (nd_body n) \<Longrightarrow> decisions root n reason = SplitAt at \<Longrightarrow> divisible at n"
begin

lemma decide_divides:
  assumes "body_wf (nd_body n)" "decide pb_len sizes decisions root n reason = SplitAt at"
  shows "divisible at n"
proof (cases reason)
  case SoftCap
  then show ?thesis using assms decision_divides over_soft_cap_divisible by (auto simp: decide_def split: if_splits)
next
  case Capacity
  then show ?thesis using assms(2)
    by (auto simp: decide_def divisible_def as_leaf_def as_index_def split: if_splits NodeBody.splits)
qed (use assms decision_divides in \<open>auto simp: decide_def\<close>)

lemma prepare_total:
  assumes "body_wf (nd_body n)"
  shows "split_prepare pb_len sizes decisions root reason worker n left_id right_id \<noteq> None"
proof -
  obtain reclaimed c where c: "reclaim_holder_free_tombstones n = (reclaimed, c)" by fastforce
  have wf: "body_wf (nd_body c)" using compact_body(1)[OF assms] c by simp
  let ?d = "decide pb_len sizes decisions root"
  have d: "divisible at c" if "(if reclaimed = [] then ?d n reason else ?d c reason) = SplitAt at" for at
    using that decide_divides[OF assms] decide_divides[OF wf] reclaim_nothing[of n c] c
    by (cases "reclaimed = []") auto
  show ?thesis
    using d plan_total by (auto simp: split_prepare_def c Let_def split: SplitDecision.splits SplitNeed.splits)
qed

end

interpretation size_causes: topology_decisions "\<lambda>root. sc_split pb_len p" for pb_len p
  by unfold_locales (rule sc_split_divisible)

interpretation writers_policy: topology_decisions "wp_split pb_len local p now" for pb_len local p now
  by unfold_locales (rule wp_split_divisible)

section \<open>What a ready plan is\<close>

lemma compact_reclaim: "reclaim_holder_free_tombstones n = (reclaimed, c) \<Longrightarrow> compact n = c"
  by simp

lemma checked_target_ok:
  assumes "checked_target pb_len sizes merges status load left reason = Inr (Some (t, r))"
  shows "\<not> nd_drained left" "nd_high_key left \<noteq> None"
    "search_target MAX_TARGET_SEARCH_HOPS load (nd_right_sibling left) = Inr (Some (t, r))" "reservation r = None"
proof -
  show l: "\<not> nd_drained left" "nd_high_key left \<noteq> None" using assms by (auto simp: checked_target_def split: if_splits)
  from assms l obtain target where "map_err Storage (search_target MAX_TARGET_SEARCH_HOPS load (nd_right_sibling left)) = Inr target"
    and t: "(case target of None \<Rightarrow> Inr None | Some (i, n) \<Rightarrow> (case merge_need pb_len sizes merges left n reason of
         Inl _ \<Rightarrow> Inr None | Inr _ \<Rightarrow> if reservation n \<noteq> None then Inl Retry
           else bind_r (has_live_holder status n) (\<lambda>live. if live then Inl Retry else Inr (Some (i, n))))) = Inr (Some (t, r))"
    unfolding checked_target_def by (simp add: bind_r_ok_iff) blast
  then have s: "search_target MAX_TARGET_SEARCH_HOPS load (nd_right_sibling left) = Inr target"
    by (simp add: map_err_def split: sum.splits)
  have "target = Some (t, r) \<and> reservation r = None"
    using t by (auto simp: bind_r_ok_iff split: option.splits prod.splits sum.splits if_splits)
  then show "search_target MAX_TARGET_SEARCH_HOPS load (nd_right_sibling left) = Inr (Some (t, r))" "reservation r = None"
    using s by simp_all
qed

lemma merge_prepare_total: "merge_prepare pb_len sizes decisions status load source worker reason gated \<noteq> None"
  using checked_target_ok(2)
  by (fastforce simp: merge_prepare_def Let_def case_prod_unfold split: option.splits sum.splits)

lemma split_prepare_ready:
  assumes "split_prepare pb_len sizes decisions root reason worker n left_id right_id = Some (PreparedReady change sp)"
  shows "change = ReadySplit (sp_split_key sp)"
    "\<exists>at. (if root then root_split_plan at left_id right_id worker (compact n)
      else nonroot_split_plan at right_id worker (compact n)) = Some sp"
proof -
  obtain reclaimed c where c: "reclaim_holder_free_tombstones n = (reclaimed, c)" by fastforce
  from assms obtain at where at: "(if root then plan_root_split pb_len sizes at left_id right_id worker c
      else plan_nonroot_split at right_id worker c) = Some (PreparedReady change sp)"
    by (auto simp: split_prepare_def c Let_def elim!: cancel_split.elims split: SplitDecision.splits SplitNeed.splits if_splits)
  then show "change = ReadySplit (sp_split_key sp)" "\<exists>at. (if root then root_split_plan at left_id right_id worker (compact n)
      else nonroot_split_plan at right_id worker (compact n)) = Some sp"
    using c by (auto simp: plan_root_split_def plan_nonroot_split_def split: if_splits option.splits)
qed

lemma merge_prepare_ready:
  assumes "merge_prepare pb_len sizes merges status load source worker reason n = Some (PreparedReady change m)"
  shows "change = ReadyMerge (mp_target m)" "merge_plan_for load source worker n = Some m"
proof -
  obtain reclaimed c where c: "reclaim_holder_free_tombstones n = (reclaimed, c)" by fastforce
  obtain t r boundary where t: "checked_target pb_len sizes merges status load c reason = Inr (Some (t, r))"
    "nd_high_key c = Some boundary" "mp_target m = \<lparr>mt_node_id = t, mt_boundary = boundary, mt_generation = generation r\<rparr>"
    "m = \<lparr>mp_source = source, mp_gated = n, mp_left = c, mp_target = mp_target m, mp_worker = worker\<rparr>"
    "change = ReadyMerge (mp_target m)"
    using assms by (auto simp: merge_prepare_def c Let_def split: sum.splits option.splits if_splits)
  show "change = ReadyMerge (mp_target m)" by (rule t(5))
  note checked_target_ok[OF t(1)]
  then have "merge_plan_for load source worker n = Some \<lparr>mp_source = source, mp_gated = n, mp_left = c,
      mp_target = \<lparr>mt_node_id = t, mt_boundary = boundary, mt_generation = generation r\<rparr>, mp_worker = worker\<rparr>"
    using t(2) c by (simp add: merge_plan_for_def Let_def)
  then show "merge_plan_for load source worker n = Some m" using t(3,4) by simp
qed

section \<open>Properties\<close>



end
