(* ===== verification/Tree_Steps.thy ===== *)
theory Tree_Steps
  imports Planning
begin

text \<open>
  A collection tree under structural change, as a step relation. Every step is one
  conditional write of one node, which lands on the state it was decided on. Gates
  can be lost at any moment, and a worker that lost its gate does not notice. The
  state also keeps what workers have planned and, as history, all past node stores
  and all routes that ever existed: a route \<open>(q, k)\<close> says that a link or a separator
  sent keys from \<open>k\<close> on to node \<open>q\<close>.
\<close>

section \<open>State\<close>

type_synonym node_ref = "node_id option"
type_synonym node_map = "node_ref \<Rightarrow> node option"
type_synonym routes = "(node_id \<times> bytes) set"

record tree =
  tr_node :: node_map
  tr_routes :: routes
  tr_history :: "(node_map \<times> routes) list"
  tr_ids :: "node_id set"
  tr_gated :: "tx_id \<Rightarrow> (node_ref \<times> node) option"
  tr_splits :: "(tx_id \<times> split_plan) set"
  tr_plans :: "structural_intent_id \<Rightarrow> merge_plan option"
  tr_absorbed :: "structural_intent_id set"
  tr_drained :: "structural_intent_id set"

text \<open>The routes a node offers: its right link, from its high key or from its low key once it is
  drained, and its children.\<close>

definition link_key :: "node \<Rightarrow> bytes" where
  "link_key n = (if nd_drained n then nd_low_key n else case nd_high_key n of None \<Rightarrow> [] | Some h \<Rightarrow> h)"

definition links :: "node \<Rightarrow> routes" where
  "links n = {(q, link_key n) |q. nd_right_sibling n = Some q}
     \<union> {(c, s) |c s i. nd_body n = Index i \<and> (s, c) \<in> set (in_children i)}"

definition routed :: "routes \<Rightarrow> node_id \<Rightarrow> bytes \<Rightarrow> bool" where
  "routed G q k \<longleftrightarrow> (\<exists>k' \<le> k. (q, k') \<in> G)"

definition linked :: "routes \<Rightarrow> node_ref \<Rightarrow> bool" where
  "linked G p \<longleftrightarrow> (case p of None \<Rightarrow> True | Some q \<Rightarrow> \<exists>k. (q, k) \<in> G)"

definition routed_ref :: "routes \<Rightarrow> node_ref \<Rightarrow> bytes \<Rightarrow> bool" where
  "routed_ref G p k \<longleftrightarrow> (case p of None \<Rightarrow> True | Some q \<Rightarrow> routed G q k)"

text \<open>A merge has landed when its source is drained into its target. Until then the target owns its
  range only from the boundary on.\<close>

definition drained_into :: "node_map \<Rightarrow> merge_plan \<Rightarrow> bool" where
  "drained_into N m \<longleftrightarrow> (\<exists>n. N (Some (mp_source m)) = Some n \<and> nd_drained n
     \<and> nd_right_sibling n = Some (mt_node_id (mp_target m)))"

definition owned_low :: "(structural_intent_id \<Rightarrow> merge_plan option) \<Rightarrow> node_map \<Rightarrow> node \<Rightarrow> bytes" where
  "owned_low plans N n =
     (case reservation n of
        None \<Rightarrow> nd_low_key n
      | Some i \<Rightarrow>
          (case plans i of
             None \<Rightarrow> nd_low_key n
           | Some m \<Rightarrow> if drained_into N m then nd_low_key n else mt_boundary (mp_target m)))"

abbreviation tr_low :: "tree \<Rightarrow> node \<Rightarrow> bytes" where
  "tr_low T \<equiv> owned_low (tr_plans T) (tr_node T)"

definition moment :: "tree \<Rightarrow> tree" where
  "moment T = T\<lparr>tr_history := tr_history T @ [(tr_node T, tr_routes T)]\<rparr>"

definition tree_init :: tree where
  "tree_init = moment
     \<lparr>tr_node = [None \<mapsto> node_leaf lb_new], tr_routes = {}, tr_history = [], tr_ids = {},
      tr_gated = Map.empty, tr_splits = {}, tr_plans = Map.empty, tr_absorbed = {}, tr_drained = {}\<rparr>"

text \<open>A conditional write of one node that adds routes.\<close>

definition put :: "node_ref \<Rightarrow> node \<Rightarrow> routes \<Rightarrow> tree \<Rightarrow> tree" where
  "put p n G T = moment (T\<lparr>tr_node := (tr_node T)(p \<mapsto> n), tr_routes := tr_routes T \<union> G\<rparr>)"

text \<open>A version of a node that was in the tree at some moment.\<close>

definition was_version :: "tree \<Rightarrow> node_id \<Rightarrow> node \<Rightarrow> bool" where
  "was_version T q n \<longleftrightarrow> (\<exists>(N, G) \<in> set (tr_history T). N (Some q) = Some n \<and> linked G (Some q))"

section \<open>Steps\<close>

text \<open>\<open>pb_len\<close> and \<open>policy\<close> are the size limits of nodes. \<open>checked\<close> adds two checks that the code does
  not make: that the target of a planned merge starts at the boundary, and that a reconciled index
  stays in the range of its node. The membership generation does not overflow.\<close>

inductive tree_step :: "(pb_node \<Rightarrow> nat) \<Rightarrow> node_size_policy \<Rightarrow> bool \<Rightarrow> tree \<Rightarrow> tree \<Rightarrow> bool"
  for pb_len policy checked T where
  write_entries: "tr_node T p = Some n \<Longrightarrow> linked (tr_routes T) p \<Longrightarrow> nd_body n = Leaf b \<Longrightarrow> gate_holders n = [] \<Longrightarrow>
    \<forall>k \<in> keys. covers n k \<and> routed_ref (tr_routes T) p k \<Longrightarrow>
    lb_wf b' \<Longrightarrow> \<forall>k. k \<notin> keys \<longrightarrow> lb_lookup b' k = lb_lookup b k \<Longrightarrow>
    nl_structure locks = nl_structure (nd_locks n) \<Longrightarrow> nl_merge_reservation locks = reservation n \<Longrightarrow>
    generation n \<le> nl_generation locks \<Longrightarrow>
    tree_step pb_len policy checked T (put p (n\<lparr>nd_body := Leaf b', nd_locks := locks\<rparr>) {} T)"
| gate: "tr_node T p = Some n \<Longrightarrow> linked (tr_routes T) p \<Longrightarrow> tr_gated T w = None \<Longrightarrow>
    gate_holders n = [] \<Longrightarrow> reservation n = None \<Longrightarrow>
    nl_structure locks = nl_structure (nd_locks n) \<Longrightarrow> nl_merge_reservation locks = None \<Longrightarrow>
    generation n \<le> nl_generation locks \<Longrightarrow> nl_generation locks + 1 \<noteq> 0 \<Longrightarrow>
    n' = n\<lparr>nd_locks := nl_set_structural_gate w locks\<rparr> \<Longrightarrow>
    tree_step pb_len policy checked T ((put p n' {} T)\<lparr>tr_gated := (tr_gated T)(w \<mapsto> (p, n'))\<rparr>)"
| lose_gate: "tr_gated T w = Some (p, s) \<Longrightarrow> tr_node T p = Some n \<Longrightarrow> gate_holders n = [w] \<Longrightarrow>
    tree_step pb_len policy checked T (put p (ungate w n) {} T)"
| reclaim_only: "tr_gated T w = Some (p, n) \<Longrightarrow> tr_node T p = Some n \<Longrightarrow>
    tree_step pb_len policy checked T (put p (ungate w (compact n)) {} T)"
| split_create: "tr_gated T w = Some (p, n) \<Longrightarrow>
    split_prepare pb_len policy decisions (p = None) reason w n left_id right_id = Some (PreparedReady change sp) \<Longrightarrow>
    distinct (map fst (sp_created sp)) \<Longrightarrow>
    \<forall>i \<in> fst ` set (sp_created sp). i \<notin> tr_ids T \<and> tr_node T (Some i) = None \<and> id_ok (nid_bytes i) \<Longrightarrow>
    tree_step pb_len policy checked T
      (moment (T\<lparr>tr_node := (\<lambda>q. case q of None \<Rightarrow> tr_node T None
           | Some i \<Rightarrow> (case map_of (sp_created sp) i of None \<Rightarrow> tr_node T q | Some c \<Rightarrow> Some c)),
         tr_ids := tr_ids T \<union> fst ` set (sp_created sp), tr_splits := insert (w, sp) (tr_splits T)\<rparr>))"
| split_link: "(w, sp) \<in> tr_splits T \<Longrightarrow> tr_gated T w = Some (p, n) \<Longrightarrow> tr_node T p = Some n \<Longrightarrow>
    tree_step pb_len policy checked T
      (put p (sp_source sp) (links (sp_source sp) \<union> \<Union> (links ` snd ` set (sp_created sp))) T)"
| split_undo: "(w, sp) \<in> tr_splits T \<Longrightarrow> tr_gated T w = Some (p, n) \<Longrightarrow> tr_node T p \<noteq> Some n \<Longrightarrow>
    i \<in> fst ` set (sp_created sp) \<Longrightarrow> \<not> linked (tr_routes T) (Some i) \<Longrightarrow>
    tree_step pb_len policy checked T (moment (T\<lparr>tr_node := (tr_node T)(Some i := None)\<rparr>))"
| merge_ready: "tr_gated T w = Some (Some source, n) \<Longrightarrow> tr_plans T i = None \<and> i \<notin> tr_absorbed T \<Longrightarrow>
    merge_prepare pb_len policy merges status (\<lambda>q. tr_node T (Some q)) source w reason n = Some (PreparedReady change m) \<Longrightarrow>
    checked \<longrightarrow> (\<forall>r. tr_node T (Some (mt_node_id (mp_target m))) = Some r \<longrightarrow>
       nd_low_key r = mt_boundary (mp_target m)) \<Longrightarrow>
    tree_step pb_len policy checked T (moment (T\<lparr>tr_plans := (tr_plans T)(i \<mapsto> m)\<rparr>))"
| absorb: "tr_plans T i = Some m \<Longrightarrow> tr_node T (Some (mt_node_id (mp_target m))) = Some r \<Longrightarrow>
    absorb_attempt pb_len policy final i m r = Some r' \<Longrightarrow> generation r + 1 \<noteq> 0 \<Longrightarrow>
    tree_step pb_len policy checked T
      ((put (Some (mt_node_id (mp_target m))) r' {} T)\<lparr>tr_absorbed := insert i (tr_absorbed T)\<rparr>)"
| drain: "tr_plans T i = Some m \<Longrightarrow> i \<in> tr_absorbed T \<Longrightarrow> tr_node T (Some (mp_source m)) = Some (mp_gated m) \<Longrightarrow>
    n' = drain (mt_node_id (mp_target m)) (mp_left m) \<Longrightarrow>
    tree_step pb_len policy checked T
      ((put (Some (mp_source m)) n' (links n') T)\<lparr>tr_drained := insert i (tr_drained T)\<rparr>)"
| release: "tr_plans T i = Some m \<Longrightarrow> drained_into (tr_node T) m \<Longrightarrow>
    tr_node T (Some (mt_node_id (mp_target m))) = Some r \<Longrightarrow> remove_reservation_change i r = Some r' \<Longrightarrow>
    tree_step pb_len policy checked T (put (Some (mt_node_id (mp_target m))) r' {} T)"
| abandon: "tr_plans T i = Some m \<Longrightarrow>
    i \<in> tr_absorbed T \<and> i \<notin> tr_drained T \<and> tr_node T (Some (mp_source m)) \<noteq> Some (mp_gated m)
      \<or> tr_node T (Some (mp_source m)) \<noteq> Some (mp_gated m) \<and> \<not> drained_into (tr_node T) m \<Longrightarrow>
    tr_node T (Some (mt_node_id (mp_target m))) = Some r \<Longrightarrow> abandon_change i (mp_target m) r = Some r' \<Longrightarrow>
    generation r + 1 \<noteq> 0 \<Longrightarrow>
    tree_step pb_len policy checked T (put (Some (mt_node_id (mp_target m))) r' {} T)"
| reconcile_parent: "tr_gated T w = Some (p, n) \<Longrightarrow> tr_node T p = Some n \<Longrightarrow> nd_body n = Index idx \<Longrightarrow>
    \<forall>j h q v. load j h q = Some v \<longrightarrow> was_version T q v \<Longrightarrow>
    reconciled_index load idx keys = Inr idx' \<Longrightarrow>
    checked \<longrightarrow> (\<forall>(s, c) \<in> set (in_children idx'). in_range n s) \<Longrightarrow>
    n' = ungate w (n\<lparr>nd_body := Index idx'\<rparr>) \<Longrightarrow>
    tree_step pb_len policy checked T (put p n' (links n') T)"

text \<open>The plan of a split step.\<close>

lemma split_step_plan:
  assumes "split_prepare pb_len policy decisions (p = None) reason w n left_id right_id = Some (PreparedReady change sp)"
  obtains at where "(case p of
       Some _ \<Rightarrow> nonroot_split_plan at right_id w (compact n)
     | None \<Rightarrow> root_split_plan at left_id right_id w (compact n)) = Some sp"
  using split_prepare_ready(2)[OF assms] by (cases p) auto

end
