(* ===== verification/Tree_Inv.thy ===== *)
theory Tree_Inv
  imports Tree_Steps
begin

text \<open>
  The invariant of a collection tree under structural change, for runs with the two
  checks. Gated states never come back once they are replaced. Every route that ever
  existed leads to a node that owns keys from the route on, or to one left of the
  owner. Merges in flight own nothing twice.
\<close>

section \<open>Eras of a gate\<close>

text \<open>A gated state is over when the gate is gone or the generation moved on.\<close>

definition past :: "node \<Rightarrow> tx_id \<Rightarrow> node \<Rightarrow> bool" where
  "past s w n \<longleftrightarrow> gate_holders n \<noteq> [w] \<or> generation s < generation n"

definition gates_ok :: "node \<Rightarrow> bool" where
  "gates_ok n \<longleftrightarrow> length (gate_holders n) \<le> 1 \<and> (reservation n \<noteq> None \<longrightarrow> gate_holders n = [])"

definition gated_ok :: "tree \<Rightarrow> tx_id \<Rightarrow> node_ref \<Rightarrow> node \<Rightarrow> bool" where
  "gated_ok T w p s \<longleftrightarrow> gate_holders s = [w] \<and> reservation s = None \<and> linked (tr_routes T) p
     \<and> (\<exists>n. tr_node T p = Some n \<and> (n = s \<or> past s w n))"

definition plan_kept :: "tree \<Rightarrow> merge_plan \<Rightarrow> bool" where
  "plan_kept T m \<longleftrightarrow> tr_gated T (mp_worker m) = Some (Some (mp_source m), mp_gated m)
     \<and> mp_left m = compact (mp_gated m) \<and> nd_high_key (mp_gated m) = Some (mt_boundary (mp_target m))
     \<and> \<not> nd_drained (mp_gated m)"

definition split_kept :: "tree \<Rightarrow> tx_id \<Rightarrow> split_plan \<Rightarrow> bool" where
  "split_kept T w sp \<longleftrightarrow> (\<exists>p n at left_id right_id. tr_gated T w = Some (p, n)
     \<and> (case p of
          Some _ \<Rightarrow> nonroot_split_plan at right_id w (compact n)
        | None \<Rightarrow> root_split_plan at left_id right_id w (compact n)) = Some sp)"

definition era_inv :: "tree \<Rightarrow> bool" where
  "era_inv T \<longleftrightarrow> (\<forall>p n. tr_node T p = Some n \<longrightarrow> gates_ok n)
     \<and> (\<forall>w p s. tr_gated T w = Some (p, s) \<longrightarrow> gated_ok T w p s)
     \<and> (\<forall>i m. tr_plans T i = Some m \<longrightarrow> plan_kept T m)
     \<and> (\<forall>(w, sp) \<in> tr_splits T. split_kept T w sp \<and> distinct (map fst (sp_created sp)))"

lemma past_not_again: "gate_holders s = [w] \<Longrightarrow> past s w n \<Longrightarrow> n \<noteq> s"
  by (auto simp: past_def)

lemma linked_mono: "linked G p \<Longrightarrow> G \<subseteq> G' \<Longrightarrow> linked G' p"
  by (auto simp: linked_def split: option.splits)

lemma routed_mono: "routed G q k \<Longrightarrow> G \<subseteq> G' \<Longrightarrow> routed G' q k"
  by (auto simp: routed_def)

lemma put_simps [simp]:
  "tr_node (put p n G T) = (tr_node T)(p \<mapsto> n)" "tr_routes (put p n G T) = tr_routes T \<union> G"
  "tr_gated (put p n G T) = tr_gated T" "tr_plans (put p n G T) = tr_plans T"
  "tr_splits (put p n G T) = tr_splits T" "tr_absorbed (put p n G T) = tr_absorbed T"
  "tr_drained (put p n G T) = tr_drained T" "tr_ids (put p n G T) = tr_ids T"
  "tr_history (put p n G T) = tr_history T @ [((tr_node T)(p \<mapsto> n), tr_routes T \<union> G)]"
  by (simp_all add: put_def moment_def)

lemma moment_simps [simp]:
  "tr_node (moment T) = tr_node T" "tr_routes (moment T) = tr_routes T"
  "tr_gated (moment T) = tr_gated T" "tr_plans (moment T) = tr_plans T"
  "tr_splits (moment T) = tr_splits T" "tr_absorbed (moment T) = tr_absorbed T"
  "tr_drained (moment T) = tr_drained T" "tr_ids (moment T) = tr_ids T"
  "tr_history (moment T) = tr_history T @ [(tr_node T, tr_routes T)]"
  by (simp_all add: moment_def)

lemma kept_mono:
  assumes "tr_gated T \<subseteq>\<^sub>m tr_gated T'"
  shows "plan_kept T m \<Longrightarrow> plan_kept T' m" "split_kept T w sp \<Longrightarrow> split_kept T' w sp"
proof -
  have g: "tr_gated T v = Some x \<Longrightarrow> tr_gated T' v = Some x" for v x
    using assms by (auto simp: map_le_def dom_def)
  then show "plan_kept T m \<Longrightarrow> plan_kept T' m" by (auto simp: plan_kept_def)
  show "split_kept T w sp \<Longrightarrow> split_kept T' w sp"
    unfolding split_kept_def using g by blast
qed

text \<open>A write of one node keeps the eras if it ends the gate it finds or keeps it with a larger
  generation.\<close>

definition era_step :: "node \<Rightarrow> node \<Rightarrow> bool" where
  "era_step n n' \<longleftrightarrow> gates_ok n'
     \<and> (gate_holders n' = [] \<or> gate_holders n' = gate_holders n \<and> generation n < generation n')"

lemma gated_ok_put:
  assumes "gated_ok T w q s" "tr_node T p = Some n" "era_step n n'"
    "tr_node T' = (tr_node T)(p \<mapsto> n')" "tr_routes T \<subseteq> tr_routes T'"
  shows "gated_ok T' w q s"
proof (cases "q = p")
  case True
  then have "n = s \<or> past s w n" "gate_holders s = [w]" using assms(1,2) by (auto simp: gated_ok_def)
  then have "past s w n'" using assms(3) by (auto simp: era_step_def past_def)
  then show ?thesis using assms True linked_mono by (auto simp: gated_ok_def)
next
  case False
  then show ?thesis using assms linked_mono by (auto simp: gated_ok_def)
qed

lemma era_put:
  assumes "era_inv T" "tr_node T p = Some n" "era_step n n'"
    "tr_node T' = (tr_node T)(p \<mapsto> n')" "tr_routes T \<subseteq> tr_routes T'"
    "tr_gated T' = tr_gated T" "tr_plans T' = tr_plans T" "tr_splits T' = tr_splits T"
  shows "era_inv T'"
proof -
  have "gated_ok T' w q s" if "tr_gated T w = Some (q, s)" for w q s
    using assms(1) that gated_ok_put[OF _ assms(2-5)] by (auto simp: era_inv_def)
  moreover have "gates_ok x" if "((tr_node T)(p \<mapsto> n')) q = Some x" for q x
    using assms(1,3) that by (auto simp: era_inv_def era_step_def split: if_splits)
  ultimately show ?thesis
    using assms by (auto simp: era_inv_def plan_kept_def split_kept_def)
qed

lemma era_step_ungate: "gate_holders n = [w] \<Longrightarrow> era_step n (ungate w n)"
  by (simp add: era_step_def gates_ok_def ungate_holder)

lemma era_step_abandon:
  "abandon_change i t n = Some n' \<Longrightarrow> gates_ok n \<Longrightarrow> generation n + 1 \<noteq> 0 \<Longrightarrow> era_step n n'"
  using word_less_Suc[of "generation n"]
  by (auto simp: abandon_change_def abandon_merge_def nl_remove_merge_reservation_def Let_def
      advance_membership_generation_def era_step_def gates_ok_def split: if_splits)

lemma era_step_release: "remove_reservation_change i n = Some n' \<Longrightarrow> gates_ok n \<Longrightarrow> era_step n n'"
  by (auto simp: remove_reservation_change_effect era_step_def gates_ok_def)

lemma era_step_absorb:
  assumes "absorb_attempt pb_len policy final i m r = Some r'" "gates_ok r" "generation r + 1 \<noteq> 0"
  shows "era_step r r'"
  using absorb_attempt_effect(8-10)[OF assms(1)] assms(2) word_less_Suc[OF assms(3)]
  by (auto simp: era_step_def gates_ok_def)

text \<open>The source of a split: gone from the gate, or rewritten as the parent of two new nodes.\<close>

lemma plan_split_source:
  assumes "(case p of
       Some _ \<Rightarrow> nonroot_split_plan at right_id w n
     | None \<Rightarrow> root_split_plan at left_id right_id w n) = Some sp" "body_wf (nd_body n)"
  obtains (nonroot) q left right where "p = Some q" "splits_at right_id n left right (sp_split_key sp)"
      "sp_created sp = [(right_id, right)]" "sp_source sp = ungate w left"
    | (root) left right where "p = None" "splits_at right_id n left right (sp_split_key sp)"
      "sp_created sp = [(left_id, ungate w left), (right_id, right)]"
      "sp_source sp = node_index (in_from_children [([], left_id), (sp_split_key sp, right_id)])"
  using assms by (auto simp: nonroot_split_plan_def root_split_plan_def split: option.splits)
    (blast dest: divide_splits_at)+

lemma divide_locks:
  "divide at right_id n = Some (left, right, k) \<Longrightarrow> nd_locks left = nd_locks n"
  by (auto simp: divide_def split_def split_leaf_at_def link_right_sibling_def
      split: option.splits NodeBody.splits if_splits prod.splits)

lemma divide_right_locks:
  "divide at right_id n = Some (left, right, k) \<Longrightarrow> nd_locks right = nl_clear_holders (nd_locks n)"
  by (auto simp: divide_def split_def split_leaf_at_def link_right_sibling_def
      split: option.splits NodeBody.splits if_splits prod.splits)

lemma plan_created_locks:
  assumes "(case p of
       Some _ \<Rightarrow> nonroot_split_plan at right_id w (compact n)
     | None \<Rightarrow> root_split_plan at left_id right_id w (compact n)) = Some sp" "(i, c) \<in> set (sp_created sp)"
  shows "nd_locks c = nl_clear_holders (nd_locks n) \<or> (\<exists>left. c = ungate w left \<and> nd_locks left = nd_locks n)"
proof -
  obtain left right k where d: "divide at right_id (compact n) = Some (left, right, k)"
    and c: "c = right \<or> c = ungate w left"
    using assms by (auto simp: nonroot_split_plan_def root_split_plan_def split: option.splits)
  show ?thesis using c divide_locks[OF d] divide_right_locks[OF d] by auto
qed

lemma era_step_split:
  assumes "split_kept T w sp" "tr_gated T w = Some (p, n)" "gate_holders n = [w]" "reservation n = None"
  shows "era_step n (sp_source sp)"
proof -
  obtain at right_id left right k where d: "divide at right_id (compact n) = Some (left, right, k)"
    and c: "sp_source sp = ungate w left \<or> (\<exists>i. sp_source sp = node_index i)"
    using assms(1,2)
    by (auto simp: split_kept_def nonroot_split_plan_def root_split_plan_def split: option.splits) blast
  have "gate_holders (ungate w left) = []" "reservation (ungate w left) = None"
    using divide_locks[OF d] assms(3,4) by (simp_all add: ungate_holder)
  moreover have "gate_holders (node_index i) = []" "reservation (node_index i) = None" for i
    by (simp_all add: node_index_def nl_default_def eg_defs ls_default_def)
  ultimately show ?thesis using c by (auto simp: era_step_def gates_ok_def)
qed

lemma era_gate:
  assumes inv: "era_inv T" and n: "tr_node T p = Some n" "linked (tr_routes T) p" "tr_gated T w = None"
    "gate_holders n = []" "reservation n = None" "nl_structure locks = nl_structure (nd_locks n)"
    "nl_merge_reservation locks = None" and n': "n' = n\<lparr>nd_locks := nl_set_structural_gate w locks\<rparr>"
  shows "era_inv ((put p n' {} T)\<lparr>tr_gated := (tr_gated T)(w \<mapsto> (p, n'))\<rparr>)"
proof -
  have g: "gate_holders n' = [w]" "reservation n' = None"
    using n n' set_gate_frame[of locks w] by simp_all
  have past: "past s v n'" if "tr_gated T v = Some (p, s)" for v s
    using that g n(3) by (auto simp: past_def)
  have "gates_ok n'" using g by (simp add: gates_ok_def)
  moreover have "gated_ok ((put p n' {} T)\<lparr>tr_gated := (tr_gated T)(w \<mapsto> (p, n'))\<rparr>) v q s"
    if "((tr_gated T)(w \<mapsto> (p, n'))) v = Some (q, s)" for v q s
    using that inv n g past by (cases "v = w") (auto simp: era_inv_def gated_ok_def)
  moreover have "tr_gated T \<subseteq>\<^sub>m tr_gated ((put p n' {} T)\<lparr>tr_gated := (tr_gated T)(w \<mapsto> (p, n'))\<rparr>)"
    using n(3) by (auto simp: map_le_def)
  note kept_mono[OF this]
  ultimately show ?thesis using inv unfolding era_inv_def by simp blast
qed

lemma era_grow:
  assumes inv: "era_inv T" and "\<And>q x. tr_node T q = Some x \<Longrightarrow> tr_node T' q = Some x"
    "\<And>q x. tr_node T' q = Some x \<Longrightarrow> gates_ok x" "tr_routes T' = tr_routes T"
    "tr_gated T' = tr_gated T" "tr_plans T' = tr_plans T" "tr_splits T' = insert (w, sp) (tr_splits T)"
    "split_kept T w sp" "distinct (map fst (sp_created sp))"
  shows "era_inv T'"
proof -
  have "tr_gated T \<subseteq>\<^sub>m tr_gated T'" using assms(5) by simp
  note kept_mono[OF this]
  moreover have "gated_ok T' v p s" if "tr_gated T' v = Some (p, s)" for v p s
  proof -
    have "gated_ok T v p s" using that assms(5) inv by (simp add: era_inv_def)
    then show ?thesis using assms(2,4) by (auto simp: gated_ok_def)
  qed
  ultimately show ?thesis using assms(3,6-9) inv unfolding era_inv_def by simp blast
qed

lemma drain_frame [simp]:
  "gate_holders (drain t n) = []" "reservation (drain t n) = None" "generation (drain t n) = generation n"
  "nd_drained (drain t n)" "nd_low_key (drain t n) = nd_low_key n" "nd_high_key (drain t n) = nd_high_key n"
  "nd_right_sibling (drain t n) = Some t"
  by (simp_all add: drain_def)

lemma era_keeps:
  assumes "tree_step pb_len policy checked T T'" "era_inv T"
  shows "era_inv T'"
  using assms(1)
proof cases
  case (write_entries p n b keys b' locks)
  then show ?thesis by (intro era_put[OF assms(2)]) (auto simp: era_step_def gates_ok_def)
next
  case (gate p n w locks n')
  then show ?thesis using era_gate[OF assms(2)] by blast
next
  case (lose_gate w p s n)
  then show ?thesis by (intro era_put[OF assms(2)]) (auto intro: era_step_ungate)
next
  case (reclaim_only w p n)
  then have "gate_holders n = [w]" "reservation n = None"
    using assms(2) by (auto simp: era_inv_def gated_ok_def)
  then have "era_step n (ungate w (compact n))" by (simp add: era_step_def gates_ok_def ungate_holder)
  then show ?thesis using reclaim_only by (intro era_put[OF assms(2)]) auto
next
  case (split_create w p n decisions reason left_id right_id change sp)
  from split_create(3) obtain at where plan: "(case p of
       Some _ \<Rightarrow> nonroot_split_plan at right_id w (compact n)
     | None \<Rightarrow> root_split_plan at left_id right_id w (compact n)) = Some sp"
    by (rule split_step_plan)
  have old: "tr_node T' q = Some x" if "tr_node T q = Some x" for q x
    using split_create that by (auto simp: map_of_eq_None_iff split: option.splits)
  have new: "gates_ok c" if "(i, c) \<in> set (sp_created sp)" for i c
  proof -
    have "gates_ok (ungate w left)" if "nd_locks left = nd_locks n" for left
      using that assms(2) split_create(2) by (auto simp: era_inv_def gated_ok_def gates_ok_def ungate_holder)
    then show ?thesis using plan_created_locks[OF plan that] by (auto simp: gates_ok_def)
  qed
  have "gates_ok x" if "tr_node T' q = Some x" for q x
    using that assms(2) new split_create(1)
    by (auto simp: era_inv_def split: option.splits dest!: map_of_SomeD)
  moreover have "split_kept T w sp" using split_create(2) plan unfolding split_kept_def by blast
  ultimately show ?thesis using old split_create(1,4) by (intro era_grow[OF assms(2)]) auto
next
  case (split_link w sp p n)
  then have "split_kept T w sp" "gate_holders n = [w]" "reservation n = None"
    using assms(2) by (auto simp: era_inv_def gated_ok_def)
  then have "era_step n (sp_source sp)" using era_step_split split_link(3) by blast
  then show ?thesis using split_link by (intro era_put[OF assms(2) split_link(4)]) auto
next
  case (split_undo w sp p n i)
  then have T': "tr_node T' = (tr_node T)(Some i := None)" "tr_routes T' = tr_routes T" "tr_gated T' = tr_gated T"
      "tr_plans T' = tr_plans T" "tr_splits T' = tr_splits T" by simp_all
  have "gated_ok T' v q s" if "tr_gated T v = Some (q, s)" for v q s
  proof -
    have "gated_ok T v q s" using that assms(2) by (simp add: era_inv_def)
    then show ?thesis using split_undo(6) T' by (auto simp: gated_ok_def)
  qed
  then show ?thesis using assms(2) kept_mono[of T T'] T' by (auto simp: era_inv_def split: if_splits)
next
  case (merge_ready w source n i merges status reason change m)
  then have T': "tr_node T' = tr_node T" "tr_routes T' = tr_routes T" "tr_gated T' = tr_gated T"
      "tr_plans T' = (tr_plans T)(i \<mapsto> m)" "tr_splits T' = tr_splits T" by simp_all
  have "plan_kept T m" using merge_ready(2) merge_plan_for_effect[OF merge_prepare_ready(2)[OF merge_ready(4)]] by (simp add: plan_kept_def)
  then show ?thesis using assms(2) kept_mono[of T T'] T'
    by (auto simp: era_inv_def gated_ok_def split: if_splits)
next
  case (absorb i m r final r')
  then have "era_step r r'" using assms(2) by (auto simp: era_inv_def intro: era_step_absorb)
  then show ?thesis using absorb by (intro era_put[OF assms(2) absorb(3)]) auto
next
  case (drain i m n')
  then have "gate_holders n' = []" "gates_ok n'" by (auto simp: gates_ok_def)
  then show ?thesis using drain by (intro era_put[OF assms(2) drain(4)]) (auto simp: era_step_def)
next
  case (release i m r r')
  then have "era_step r r'" using assms(2) by (auto simp: era_inv_def intro: era_step_release)
  then show ?thesis using release by (intro era_put[OF assms(2) release(4)]) auto
next
  case (abandon i m r r')
  then have "era_step r r'" using assms(2) by (auto simp: era_inv_def intro: era_step_abandon)
  then show ?thesis using abandon by (intro era_put[OF assms(2) abandon(4)]) auto
next
  case (reconcile_parent w p n idx load keys idx' n')
  then have "gate_holders n = [w]" "reservation n = None"
    using assms(2) by (auto simp: era_inv_def gated_ok_def)
  then have "era_step n n'" using reconcile_parent by (simp add: era_step_def gates_ok_def ungate_holder)
  then show ?thesis using reconcile_parent by (intro era_put[OF assms(2) reconcile_parent(3)]) auto
qed

end
