(* ===== verification/Tree_Safe.thy ===== *)
theory Tree_Safe
  imports Tree_Inv
begin

text \<open>
  The invariant that keeps routes and merges safe, and that every step of a run with
  the two checks keeps it.
\<close>

section \<open>The invariant\<close>

definition node_ok :: "node \<Rightarrow> bool" where
  "node_ok n \<longleftrightarrow> body_wf (nd_body n) \<and> range_wf n
     \<and> (case nd_high_key n of None \<Rightarrow> True | Some h \<Rightarrow> nd_low_key n < h)
     \<and> (if nd_drained n then nd_right_sibling n \<noteq> None \<and> body_keys (nd_body n) = []
        else nd_right_sibling n = None \<longleftrightarrow> nd_high_key n = None)"

text \<open>A live index has the separator that its range starts with.\<close>

definition starts_at :: "bytes \<Rightarrow> node \<Rightarrow> bool" where
  "starts_at k n \<longleftrightarrow> (\<forall>i. nd_body n = Index i \<longrightarrow> \<not> nd_drained n \<longrightarrow> k \<in> fst ` set (in_children i))"

definition root_shape :: "node \<Rightarrow> bool" where
  "root_shape n \<longleftrightarrow> nd_low_key n = [] \<and> nd_high_key n = None \<and> nd_right_sibling n = None
     \<and> \<not> nd_drained n \<and> reservation n = None"

definition ids_inv :: "tree \<Rightarrow> bool" where
  "ids_inv T \<longleftrightarrow> (\<forall>(q, k) \<in> tr_routes T. tr_node T (Some q) \<noteq> None) \<and> (\<forall>q \<in> tr_ids T. id_ok (nid_bytes q))
     \<and> (\<forall>q. tr_node T (Some q) \<noteq> None \<longrightarrow> q \<in> tr_ids T)"

definition links_inv :: "tree \<Rightarrow> bool" where
  "links_inv T \<longleftrightarrow> (\<forall>p n. tr_node T p = Some n \<longrightarrow> node_ok n \<and> (linked (tr_routes T) p \<longrightarrow> links n \<subseteq> tr_routes T \<and> starts_at (tr_low T n) n))"

definition routes_inv :: "tree \<Rightarrow> bool" where
  "routes_inv T \<longleftrightarrow> (\<forall>q n. tr_node T (Some q) = Some n \<longrightarrow> linked (tr_routes T) (Some q) \<longrightarrow>
     (q, tr_low T n) \<in> tr_routes T \<and> (\<forall>k. (q, k) \<in> tr_routes T \<longrightarrow> tr_low T n \<le> k))"

definition root_inv :: "tree \<Rightarrow> bool" where
  "root_inv T \<longleftrightarrow> (\<exists>n. tr_node T None = Some n \<and> root_shape n)"

definition gated_fine :: "routes \<Rightarrow> node_ref \<Rightarrow> node \<Rightarrow> bool" where
  "gated_fine G p s \<longleftrightarrow> node_ok s \<and> links s \<subseteq> G \<and> starts_at (nd_low_key s) s
     \<and> (case p of None \<Rightarrow> root_shape s | Some q \<Rightarrow> (q, nd_low_key s) \<in> G)"

definition gated_inv :: "tree \<Rightarrow> bool" where
  "gated_inv T \<longleftrightarrow> (\<forall>w p s. tr_gated T w = Some (p, s) \<longrightarrow> gated_fine (tr_routes T) p s)"

definition plan_ok :: "tree \<Rightarrow> merge_plan \<Rightarrow> bool" where
  "plan_ok T m \<longleftrightarrow> mt_node_id (mp_target m) \<noteq> mp_source m \<and> linked (tr_routes T) (Some (mt_node_id (mp_target m)))
     \<and> (\<forall>r. tr_node T (Some (mt_node_id (mp_target m))) = Some r \<longrightarrow>
          mt_generation (mp_target m) \<le> generation r
          \<and> (generation r = mt_generation (mp_target m) \<longrightarrow>
               reservation r = None \<and> nd_low_key r = mt_boundary (mp_target m)))"

definition reserved_by :: "tree \<Rightarrow> structural_intent_id \<Rightarrow> merge_plan \<Rightarrow> node \<Rightarrow> bool" where
  "reserved_by T i m n \<longleftrightarrow> i \<in> tr_absorbed T \<and> \<not> nd_drained n \<and> nd_low_key n = nd_low_key (mp_left m)
     \<and> mt_generation (mp_target m) < generation n
     \<and> (case nd_high_key n of None \<Rightarrow> True | Some h \<Rightarrow> mt_boundary (mp_target m) < h)
     \<and> same_level (nd_body n) (nd_body (mp_left m))
     \<and> (if drained_into (tr_node T) m then i \<in> tr_drained T
        else body_below (mt_boundary (mp_target m)) (nd_body n) = nd_body (mp_left m))"

definition merges_inv :: "tree \<Rightarrow> bool" where
  "merges_inv T \<longleftrightarrow> (\<forall>i m. tr_plans T i = Some m \<longrightarrow> plan_ok T m)
     \<and> (\<forall>p n i. tr_node T p = Some n \<longrightarrow> reservation n = Some i \<longrightarrow>
          (\<exists>m. tr_plans T i = Some m \<and> p = Some (mt_node_id (mp_target m)) \<and> reserved_by T i m n))
     \<and> (\<forall>i m. tr_plans T i = Some m \<longrightarrow> i \<in> tr_absorbed T \<longrightarrow>
          tr_node T (Some (mp_source m)) = Some (mp_gated m) \<longrightarrow>
          (\<exists>r. tr_node T (Some (mt_node_id (mp_target m))) = Some r \<and> reservation r = Some i))"

definition created_once :: "(tx_id \<times> split_plan) set \<Rightarrow> bool" where
  "created_once S \<longleftrightarrow> (\<forall>a b i. a \<in> S \<longrightarrow> b \<in> S \<longrightarrow> i \<in> fst ` set (sp_created (snd a)) \<longrightarrow>
     i \<in> fst ` set (sp_created (snd b)) \<longrightarrow> a = b)"

definition splits_inv :: "tree \<Rightarrow> bool" where
  "splits_inv T \<longleftrightarrow> created_once (tr_splits T)
   \<and> (\<forall>w sp p n. (w, sp) \<in> tr_splits T \<longrightarrow> tr_gated T w = Some (p, n) \<longrightarrow>
     (\<forall>(i, c) \<in> set (sp_created sp). i \<in> tr_ids T
        \<and> (tr_node T p = Some n \<longrightarrow> tr_node T (Some i) = Some c \<and> \<not> linked (tr_routes T) (Some i))))"

text \<open>What every past store still tells: its routes are known, its nodes were fine for the routes of
  their time, and drained nodes stay drained.\<close>

definition version_ok :: "routes \<Rightarrow> node_ref \<Rightarrow> node \<Rightarrow> bool" where
  "version_ok G p n \<longleftrightarrow> node_ok n
     \<and> (case p of
          None \<Rightarrow> root_shape n \<and> starts_at [] n
        | Some q \<Rightarrow> \<forall>k. (q, k) \<in> G \<longrightarrow> nd_low_key n \<le> k \<and> (\<exists>s \<le> k. starts_at s n))"

definition past_ok :: "tree \<Rightarrow> node_map \<times> routes \<Rightarrow> bool" where
  "past_ok T P \<longleftrightarrow> (case P of (N, G) \<Rightarrow> G \<subseteq> tr_routes T \<and> N None \<noteq> None \<and> (\<forall>(q, k) \<in> G. N (Some q) \<noteq> None)
     \<and> (\<forall>p n. N p = Some n \<longrightarrow> linked G p \<longrightarrow> version_ok G p n \<and> links n \<subseteq> tr_routes T
          \<and> (nd_drained n \<longrightarrow> (\<exists>n'. tr_node T p = Some n' \<and> nd_drained n' \<and> nd_low_key n' = nd_low_key n))))"

definition tree_inv :: "tree \<Rightarrow> bool" where
  "tree_inv T \<longleftrightarrow> era_inv T \<and> ids_inv T \<and> links_inv T \<and> routes_inv T \<and> root_inv T \<and> gated_inv T
     \<and> merges_inv T \<and> splits_inv T \<and> (\<forall>P \<in> set (tr_history T). past_ok T P)"

text \<open>All but the history.\<close>

definition state_inv :: "tree \<Rightarrow> bool" where
  "state_inv T \<longleftrightarrow> era_inv T \<and> ids_inv T \<and> links_inv T \<and> routes_inv T \<and> root_inv T \<and> gated_inv T
     \<and> merges_inv T \<and> splits_inv T"

lemma tree_inv_state: "tree_inv T \<longleftrightarrow> state_inv T \<and> (\<forall>P \<in> set (tr_history T). past_ok T P)"
  by (simp add: tree_inv_def state_inv_def)

lemma linked_route: "(q, k) \<in> G \<Longrightarrow> linked G (Some q)"
  by (auto simp: linked_def)

lemma owned_low_free: "reservation n = None \<Longrightarrow> owned_low plans N n = nd_low_key n"
  by (simp add: owned_low_def)

lemma plan_low:
  assumes "gated_inv T" "plan_kept T m"
  shows "nd_low_key (mp_left m) = nd_low_key (mp_gated m)" "nd_low_key (mp_gated m) < mt_boundary (mp_target m)"
    "node_ok (mp_gated m)" "links (mp_gated m) \<subseteq> tr_routes T" "starts_at (nd_low_key (mp_gated m)) (mp_gated m)"
    "(mp_source m, nd_low_key (mp_gated m)) \<in> tr_routes T"
proof -
  have "gated_fine (tr_routes T) (Some (mp_source m)) (mp_gated m)"
    using assms unfolding gated_inv_def plan_kept_def by blast
  then show "nd_low_key (mp_left m) = nd_low_key (mp_gated m)" "nd_low_key (mp_gated m) < mt_boundary (mp_target m)"
    "node_ok (mp_gated m)" "links (mp_gated m) \<subseteq> tr_routes T" "starts_at (nd_low_key (mp_gated m)) (mp_gated m)"
    "(mp_source m, nd_low_key (mp_gated m)) \<in> tr_routes T"
    using assms(2) by (auto simp: gated_fine_def plan_kept_def node_ok_def)
qed

lemma reserved_plan:
  assumes "state_inv T" "tr_node T p = Some n" "reservation n = Some i"
  obtains m where "tr_plans T i = Some m" "p = Some (mt_node_id (mp_target m))" "reserved_by T i m n"
    "plan_kept T m" "plan_ok T m"
  using assms unfolding state_inv_def merges_inv_def era_inv_def by blast

lemma low_le_owned:
  assumes "state_inv T" "tr_node T p = Some n"
  shows "nd_low_key n \<le> tr_low T n"
proof (cases "reservation n")
  case (Some i)
  then obtain m where m: "tr_plans T i = Some m" "reserved_by T i m n" "plan_kept T m"
    using reserved_plan[OF assms] by metis
  then have "nd_low_key n < mt_boundary (mp_target m)"
    using plan_low(1,2)[of T m] assms(1) by (simp add: state_inv_def reserved_by_def)
  then show ?thesis using Some m by (simp add: owned_low_def less_imp_le)
qed (simp add: owned_low_def)

lemma starts_at_leaf: "nd_body n = Leaf b \<Longrightarrow> starts_at k n"
  by (simp add: starts_at_def)

text \<open>The present is a past that is fine.\<close>

lemma past_now:
  assumes "state_inv T"
  shows "past_ok T (tr_node T, tr_routes T)"
proof -
  note inv = assms[unfolded state_inv_def]
  have "version_ok (tr_routes T) p n" if "tr_node T p = Some n" "linked (tr_routes T) p" for p n
  proof (cases p)
    case None
    have "root_shape n" using inv that None by (auto simp: root_inv_def)
    moreover have "starts_at (tr_low T n) n" "node_ok n" using inv that by (auto simp: links_inv_def)
    moreover have "tr_low T n = []" using calculation(1) by (simp add: root_shape_def owned_low_free)
    ultimately show ?thesis using None by (simp add: version_ok_def)
  next
    case (Some q)
    have "starts_at (tr_low T n) n" "node_ok n" using inv that by (auto simp: links_inv_def)
    moreover have "tr_low T n \<le> k" if "(q, k) \<in> tr_routes T" for k
      using inv that \<open>tr_node T p = Some n\<close> Some by (auto simp: routes_inv_def dest: linked_route)
    ultimately show ?thesis using Some low_le_owned[OF assms that(1)]
      by (auto simp: version_ok_def intro: order.trans)
  qed
  then show ?thesis using inv by (auto simp: past_ok_def ids_inv_def links_inv_def root_inv_def)
qed

lemma tree_inv_step:
  assumes inv: "tree_inv T" and s: "state_inv T'" and h: "tr_history T' = tr_history T @ [(tr_node T', tr_routes T')]"
    and G: "tr_routes T \<subseteq> tr_routes T'"
    and d: "\<And>p n. tr_node T p = Some n \<Longrightarrow> nd_drained n \<Longrightarrow> linked (tr_routes T) p \<Longrightarrow>
      \<exists>n'. tr_node T' p = Some n' \<and> nd_drained n' \<and> nd_low_key n' = nd_low_key n"
  shows "tree_inv T'"
proof -
  have "past_ok T' (N, G')" if "(N, G') \<in> set (tr_history T)" for N G'
  proof -
    have ok: "past_ok T (N, G')" using inv that by (simp add: tree_inv_def)
    then have "\<exists>n'. tr_node T' p = Some n' \<and> nd_drained n' \<and> nd_low_key n' = nd_low_key n"
      if v: "N p = Some n" "linked G' p" "nd_drained n" for p n
    proof -
      obtain c where c: "tr_node T p = Some c" "nd_drained c" "nd_low_key c = nd_low_key n"
        using ok v unfolding past_ok_def prod.case by blast
      have "linked (tr_routes T) p" using linked_mono[OF v(2)] ok by (auto simp: past_ok_def)
      then show ?thesis using d[OF c(1,2)] c(3) by auto
    qed
    then show ?thesis using ok G unfolding past_ok_def prod.case by blast
  qed
  then show ?thesis using s h past_now[OF s] by (auto simp: tree_inv_state)
qed

section \<open>Writes that keep the owned range\<close>

text \<open>A write of a linked node that keeps its right link, with new routes that older ones imply.\<close>

definition writes :: "tree \<Rightarrow> node_ref \<Rightarrow> node \<Rightarrow> node \<Rightarrow> routes \<Rightarrow> tree \<Rightarrow> bool" where
  "writes T p n n' H T' \<longleftrightarrow> tr_node T p = Some n \<and> linked (tr_routes T) p \<and> tr_node T' = (tr_node T)(p \<mapsto> n')
     \<and> tr_routes T' = tr_routes T \<union> H \<and> (\<forall>(q, k) \<in> H. routed (tr_routes T) q k)
     \<and> tr_plans T' = tr_plans T \<and> tr_splits T' = tr_splits T \<and> tr_ids T' = tr_ids T
     \<and> tr_drained T' = tr_drained T \<and> tr_absorbed T \<subseteq> tr_absorbed T'
     \<and> nd_drained n' = nd_drained n \<and> nd_right_sibling n' = nd_right_sibling n
     \<and> tr_low T n' = tr_low T n"

lemma writes_low:
  assumes "writes T p n n' H T'"
  shows "drained_into (tr_node T') m = drained_into (tr_node T) m" "tr_low T' x = tr_low T x"
proof -
  show d: "drained_into (tr_node T') m = drained_into (tr_node T) m" for m
    using assms by (auto simp: writes_def drained_into_def)
  show "tr_low T' x = tr_low T x"
    using assms d by (simp add: owned_low_def writes_def split: option.splits)
qed

lemma writes_linked: "writes T p n n' H T' \<Longrightarrow> linked (tr_routes T') q \<longleftrightarrow> linked (tr_routes T) q"
  by (fastforce simp: writes_def linked_def routed_def split: option.splits)

lemma writes_routes:
  assumes w: "writes T p n n' H T'" and inv: "state_inv T"
    and ok: "node_ok n'" "links n' \<subseteq> tr_routes T'" "starts_at (tr_low T n) n'" "p = None \<Longrightarrow> root_shape n'"
  shows "ids_inv T'" "links_inv T'" "routes_inv T'" "root_inv T'"
proof -
  note I = inv[unfolded state_inv_def]
  have N': "tr_node T' = (tr_node T)(p \<mapsto> n')" and G': "tr_routes T \<subseteq> tr_routes T'" and n: "tr_node T p = Some n"
    using w by (auto simp: writes_def)
  have old: "\<exists>k' \<le> k. (q, k') \<in> tr_routes T" if "(q, k) \<in> tr_routes T'" for q k
    using w that by (auto simp: writes_def routed_def)
  have "tr_node T' (Some q) \<noteq> None" if "(q, k) \<in> tr_routes T'" for q k
    using old[OF that] I N' by (auto simp: ids_inv_def)
  moreover have "q \<in> tr_ids T'" if "tr_node T' (Some q) \<noteq> None" for q
    using that I n w N' by (cases "Some q = p") (auto simp: ids_inv_def writes_def)
  moreover have "tr_ids T' = tr_ids T" "\<forall>q \<in> tr_ids T. id_ok (nid_bytes q)"
    using w I by (simp_all add: writes_def ids_inv_def)
  ultimately show "ids_inv T'" unfolding ids_inv_def by auto
  show "root_inv T'" using I ok(4) N' by (auto simp: root_inv_def)
  have "node_ok x \<and> (linked (tr_routes T') r \<longrightarrow> links x \<subseteq> tr_routes T' \<and> starts_at (tr_low T' x) x)"
    if "tr_node T' r = Some x" for r x
  proof (cases "r = p")
    case True
    moreover have "tr_low T' n' = tr_low T n" using w writes_low(2)[OF w] by (simp add: writes_def)
    ultimately show ?thesis using that ok N' by auto
  next
    case False
    then have "tr_node T r = Some x" using that N' by simp
    then have "node_ok x \<and> (linked (tr_routes T) r \<longrightarrow> links x \<subseteq> tr_routes T \<and> starts_at (tr_low T x) x)"
      using I unfolding links_inv_def by blast
    then show ?thesis using G' writes_linked[OF w] writes_low(2)[OF w] by auto
  qed
  then show "links_inv T'" by (simp add: links_inv_def)
  have "(q, tr_low T' x) \<in> tr_routes T' \<and> (\<forall>k. (q, k) \<in> tr_routes T' \<longrightarrow> tr_low T' x \<le> k)"
    if q: "tr_node T' (Some q) = Some x" "linked (tr_routes T') (Some q)" for q x
  proof -
    obtain y where y: "tr_node T (Some q) = Some y" "tr_low T' x = tr_low T y"
      using q(1) n w writes_low(2)[OF w] N' by (cases "Some q = p") (auto simp: writes_def)
    moreover have "linked (tr_routes T) (Some q)" using q(2) writes_linked[OF w] by simp
    ultimately have r: "(q, tr_low T y) \<in> tr_routes T" "\<forall>k. (q, k) \<in> tr_routes T \<longrightarrow> tr_low T y \<le> k"
      using I unfolding routes_inv_def by blast+
    have "tr_low T y \<le> k" if "(q, k) \<in> tr_routes T'" for k
      using old[OF that] r(2) order.trans by blast
    then show ?thesis using r(1) G' y(2) by auto
  qed
  then show "routes_inv T'" by (simp add: routes_inv_def)
qed

lemma splits_put:
  assumes inv: "state_inv T" and N': "tr_node T' = (tr_node T)(p \<mapsto> n')" and p: "linked (tr_routes T) p"
    and lk: "\<And>q. linked (tr_routes T') q \<longleftrightarrow> linked (tr_routes T) q"
    and same: "tr_splits T' = tr_splits T" "tr_ids T' = tr_ids T"
    and g: "tr_gated T' = tr_gated T \<or> (\<exists>v s. tr_gated T v = None \<and> tr_gated T' = (tr_gated T)(v \<mapsto> s))"
    and fresh: "\<And>v s. tr_gated T v = Some (p, s) \<Longrightarrow> n' \<noteq> s"
  shows "splits_inv T'"
proof -
  note I = inv[unfolded state_inv_def]
  have gated: "tr_gated T v = Some x" if "(v, sp) \<in> tr_splits T" "tr_gated T' v = Some x" for v sp x
  proof -
    have "split_kept T v sp" using I that(1) by (auto simp: era_inv_def)
    then show ?thesis using g that(2) by (auto simp: split_kept_def split: if_splits)
  qed
  have "i \<in> tr_ids T \<and> (tr_node T' r = Some s \<longrightarrow> tr_node T' (Some i) = Some c \<and> \<not> linked (tr_routes T) (Some i))"
    if "(v, sp) \<in> tr_splits T" "tr_gated T' v = Some (r, s)" "(i, c) \<in> set (sp_created sp)" for v sp r s i c
  proof -
    have v: "tr_gated T v = Some (r, s)" using gated that(1,2) by blast
    then have o: "i \<in> tr_ids T" "tr_node T r = Some s \<longrightarrow> tr_node T (Some i) = Some c \<and> \<not> linked (tr_routes T) (Some i)"
      using I that(1,3) unfolding splits_inv_def by blast+
    have "r \<noteq> p" if "tr_node T' r = Some s" using fresh[of v s] v that N' by auto
    then show ?thesis using o p N' by auto
  qed
  moreover have "created_once (tr_splits T)" using I by (simp add: splits_inv_def)
  ultimately show ?thesis unfolding splits_inv_def same lk by blast
qed

lemma writes_merges:
  assumes w: "writes T p n n' H T'" and inv: "state_inv T"
    and fresh: "\<And>v s. tr_gated T v = Some (p, s) \<Longrightarrow> n' \<noteq> s"
    and gen: "p \<noteq> None \<Longrightarrow> generation n \<le> generation n'"
      "generation n' = generation n \<Longrightarrow> reservation n = None \<Longrightarrow> nd_low_key n' = nd_low_key n \<and> reservation n' = None"
    and resv: "\<And>i. reservation n' = Some i \<Longrightarrow>
      \<exists>m. tr_plans T i = Some m \<and> p = Some (mt_node_id (mp_target m)) \<and> reserved_by T' i m n'"
    and keep: "\<And>i m. reservation n = Some i \<Longrightarrow> tr_plans T i = Some m \<Longrightarrow>
      tr_node T (Some (mp_source m)) = Some (mp_gated m) \<Longrightarrow> reservation n' = Some i"
    and new: "\<And>i m. i \<in> tr_absorbed T' \<Longrightarrow> i \<notin> tr_absorbed T \<Longrightarrow> tr_plans T i = Some m \<Longrightarrow>
      p = Some (mt_node_id (mp_target m)) \<and> reservation n' = Some i"
  shows "merges_inv T'"
proof -
  note I = inv[unfolded state_inv_def]
  have N': "tr_node T' = (tr_node T)(p \<mapsto> n')" and n: "tr_node T p = Some n"
    and same: "tr_plans T' = tr_plans T" "tr_drained T' = tr_drained T" "tr_absorbed T \<subseteq> tr_absorbed T'"
    using w by (auto simp: writes_def)
  have plan: "plan_ok T' m" if "tr_plans T i = Some m" for i m
  proof -
    have "plan_ok T m" using I that by (auto simp: merges_inv_def)
    moreover have "mt_generation (mp_target m) \<le> generation n' \<and> (generation n' = mt_generation (mp_target m) \<longrightarrow>
        reservation n' = None \<and> nd_low_key n' = mt_boundary (mp_target m))"
      if "p = Some (mt_node_id (mp_target m))"
    proof -
      have *: "mt_generation (mp_target m) \<le> generation n" "generation n = mt_generation (mp_target m) \<longrightarrow>
          reservation n = None \<and> nd_low_key n = mt_boundary (mp_target m)" "generation n \<le> generation n'"
        using \<open>plan_ok T m\<close> n that gen(1) by (auto simp: plan_ok_def)
      then show ?thesis using gen(2) by auto
    qed
    ultimately show ?thesis using writes_linked[OF w] N' by (simp add: plan_ok_def)
  qed
  have res: "\<exists>m. tr_plans T i = Some m \<and> r = Some (mt_node_id (mp_target m)) \<and> reserved_by T' i m x"
    if r: "tr_node T' r = Some x" "reservation x = Some i" for r x i
  proof (cases "r = p")
    case True
    then show ?thesis using r resv N' by simp
  next
    case False
    then have "tr_node T r = Some x" using r(1) N' by simp
    from reserved_plan[OF inv this r(2)] obtain m where
      "tr_plans T i = Some m" "r = Some (mt_node_id (mp_target m))" "reserved_by T i m x" by metis
    then show ?thesis using same writes_low(1)[OF w] by (auto simp: reserved_by_def)
  qed
  have abs: "\<exists>r. tr_node T' (Some (mt_node_id (mp_target m))) = Some r \<and> reservation r = Some i"
    if i: "tr_plans T i = Some m" "i \<in> tr_absorbed T'" "tr_node T' (Some (mp_source m)) = Some (mp_gated m)" for i m
  proof -
    have "tr_gated T (mp_worker m) = Some (Some (mp_source m), mp_gated m)"
      using I i(1) unfolding era_inv_def plan_kept_def by blast
    then have s: "tr_node T (Some (mp_source m)) = Some (mp_gated m)"
      using fresh i(3) N' by (auto split: if_splits)
    show ?thesis
    proof (cases "i \<in> tr_absorbed T")
      case True
      then obtain r where "tr_node T (Some (mt_node_id (mp_target m))) = Some r" "reservation r = Some i"
        using I i(1) s unfolding merges_inv_def by blast
      then show ?thesis using keep[OF _ i(1) s] N' n by auto
    next
      case False
      then show ?thesis using new[OF i(2) _ i(1)] N' by auto
    qed
  qed
  show ?thesis unfolding merges_inv_def same using plan res abs by blast
qed

lemma tree_inv_writes:
  assumes w: "writes T p n n' H T'" and inv: "tree_inv T" and era: "era_inv T'" and gated: "gated_inv T'"
    and h: "tr_history T' = tr_history T @ [(tr_node T', tr_routes T')]"
    and ok: "node_ok n'" "links n' \<subseteq> tr_routes T'" "starts_at (tr_low T n) n'" "p = None \<Longrightarrow> root_shape n'"
    and g: "tr_gated T' = tr_gated T \<or> (\<exists>v s. tr_gated T v = None \<and> tr_gated T' = (tr_gated T)(v \<mapsto> s))"
    and fresh: "\<And>v s. tr_gated T v = Some (p, s) \<Longrightarrow> n' \<noteq> s"
    and gen: "p \<noteq> None \<Longrightarrow> generation n \<le> generation n'"
      "generation n' = generation n \<Longrightarrow> reservation n = None \<Longrightarrow> nd_low_key n' = nd_low_key n \<and> reservation n' = None"
    and resv: "\<And>i. reservation n' = Some i \<Longrightarrow>
      \<exists>m. tr_plans T i = Some m \<and> p = Some (mt_node_id (mp_target m)) \<and> reserved_by T' i m n'"
    and keep: "\<And>i m. reservation n = Some i \<Longrightarrow> tr_plans T i = Some m \<Longrightarrow>
      tr_node T (Some (mp_source m)) = Some (mp_gated m) \<Longrightarrow> reservation n' = Some i"
    and new: "\<And>i m. i \<in> tr_absorbed T' \<Longrightarrow> i \<notin> tr_absorbed T \<Longrightarrow> tr_plans T i = Some m \<Longrightarrow>
      p = Some (mt_node_id (mp_target m)) \<and> reservation n' = Some i"
  shows "tree_inv T'"
proof -
  have s: "state_inv T" using inv by (simp add: tree_inv_state)
  have "splits_inv T'"
    by (rule splits_put[OF s _ _ writes_linked[OF w] _ _ g fresh]) (use w in \<open>simp_all add: writes_def\<close>)
  moreover have "merges_inv T'"
    by (rule writes_merges[OF w s]) (fact fresh gen resv keep new)+
  ultimately have s': "state_inv T'" unfolding state_inv_def
    using era gated writes_routes[OF w s ok] by blast
  have low: "nd_low_key n' = nd_low_key n" if "nd_drained n"
  proof -
    have "nd_drained n'" "tr_node T p = Some n" using w that by (simp_all add: writes_def)
    have "reservation n \<noteq> Some i" for i
      using reserved_plan[OF s \<open>tr_node T p = Some n\<close>, of i] that unfolding reserved_by_def by blast
    moreover have "reservation n' \<noteq> Some i" for i
      using resv[of i] \<open>nd_drained n'\<close> unfolding reserved_by_def by blast
    ultimately have "reservation n = None" "reservation n' = None" by auto
    then show ?thesis using w by (simp add: writes_def owned_low_free)
  qed
  show ?thesis
  proof (rule tree_inv_step[OF inv s' h])
    fix q x
    assume "tr_node T q = Some x" "nd_drained x"
    then show "\<exists>x'. tr_node T' q = Some x' \<and> nd_drained x' \<and> nd_low_key x' = nd_low_key x"
      using w low by (cases "q = p") (simp_all add: writes_def)
  qed (use w in \<open>auto simp: writes_def\<close>)
qed

lemma gated_fine_mono: "gated_fine G p s \<Longrightarrow> G \<subseteq> G' \<Longrightarrow> gated_fine G' p s"
  unfolding gated_fine_def by (cases p) auto

lemma gated_inv_same:
  assumes "gated_inv T" "tr_gated T' = tr_gated T" "tr_routes T \<subseteq> tr_routes T'"
  shows "gated_inv T'"
  using assms gated_fine_mono unfolding gated_inv_def by metis

text \<open>Rewriting a node that no merge reserves, with its range and links kept.\<close>

definition same_frame :: "node \<Rightarrow> node \<Rightarrow> bool" where
  "same_frame n n' \<longleftrightarrow> nd_low_key n' = nd_low_key n \<and> nd_high_key n' = nd_high_key n
     \<and> nd_right_sibling n' = nd_right_sibling n \<and> nd_drained n' = nd_drained n \<and> reservation n' = reservation n"

lemma same_frame_low: "same_frame n n' \<Longrightarrow> owned_low plans N n' = owned_low plans N n"
  by (auto simp: same_frame_def owned_low_def split: option.splits)

lemma tree_inv_rewrite:
  assumes inv: "tree_inv T" and n: "tr_node T p = Some n" "linked (tr_routes T) p" "reservation n = None"
    and f: "same_frame n n'" and T': "tr_node T' = (tr_node T)(p \<mapsto> n')" "tr_routes T' = tr_routes T \<union> H"
      "tr_plans T' = tr_plans T" "tr_splits T' = tr_splits T" "tr_ids T' = tr_ids T" "tr_drained T' = tr_drained T"
      "tr_absorbed T' = tr_absorbed T" "tr_history T' = tr_history T @ [(tr_node T', tr_routes T')]"
    and H: "\<forall>(q, k) \<in> H. routed (tr_routes T) q k"
    and era: "era_inv T'" and gated: "gated_inv T'"
    and ok: "node_ok n'" "links n' \<subseteq> tr_routes T'" "starts_at (nd_low_key n) n'"
    and g: "tr_gated T' = tr_gated T \<or> (\<exists>v s. tr_gated T v = None \<and> tr_gated T' = (tr_gated T)(v \<mapsto> s))"
    and fresh: "\<And>v s. tr_gated T v = Some (p, s) \<Longrightarrow> n' \<noteq> s"
    and gen: "generation n \<le> generation n'"
  shows "tree_inv T'"
proof (rule tree_inv_writes[OF _ inv era gated T'(8) ok(1,2) _ _ g fresh])
  show "writes T p n n' H T'"
    using n f T' H same_frame_low[OF f] by (auto simp: writes_def same_frame_def)
  show "starts_at (tr_low T n) n'" using ok(3) n(3) by (simp add: owned_low_free)
  show "p = None \<Longrightarrow> root_shape n'"
    using inv n(1) f by (auto simp: tree_inv_def root_inv_def root_shape_def same_frame_def)
qed (use n(3) f gen T'(7) in \<open>simp_all add: same_frame_def\<close>)

section \<open>Steps that keep the range of a node\<close>

lemma linked_node:
  assumes "state_inv T" "tr_node T p = Some n" "linked (tr_routes T) p"
  shows "node_ok n" "links n \<subseteq> tr_routes T" "starts_at (tr_low T n) n"
  using assms unfolding state_inv_def links_inv_def by blast+

lemma free_node:
  assumes "state_inv T" "tr_node T p = Some n" "linked (tr_routes T) p" "reservation n = None"
  shows "starts_at (nd_low_key n) n" "p = Some q \<Longrightarrow> (q, nd_low_key n) \<in> tr_routes T"
proof -
  show "starts_at (nd_low_key n) n" using linked_node(3)[OF assms(1-3)] assms(4) by (simp add: owned_low_free)
  assume "p = Some q"
  then have "(q, tr_low T n) \<in> tr_routes T" using assms(1-3) unfolding state_inv_def routes_inv_def by blast
  then show "(q, nd_low_key n) \<in> tr_routes T" using assms(4) by (simp add: owned_low_free)
qed

lemma gated_node:
  assumes "state_inv T" "tr_gated T w = Some (p, s)"
  shows "gate_holders s = [w]" "reservation s = None" "linked (tr_routes T) p"
    "gated_fine (tr_routes T) p s"
  using assms unfolding state_inv_def era_inv_def gated_ok_def gated_inv_def by blast+

lemma ungated_fresh:
  "state_inv T \<Longrightarrow> gate_holders n' = [] \<Longrightarrow> tr_gated T v = Some (p, x) \<Longrightarrow> n' \<noteq> x"
  using gated_node(1) by fastforce

lemma root_node: "state_inv T \<Longrightarrow> tr_node T None = Some n \<Longrightarrow> root_shape n"
  by (auto simp: state_inv_def root_inv_def)

lemma links_leaf:
  "nd_body n = Leaf b \<Longrightarrow> nd_body n' = Leaf b' \<Longrightarrow> same_frame n n' \<Longrightarrow> links n' = links n"
  by (simp add: links_def link_key_def same_frame_def)

lemma node_ok_frame:
  assumes "same_frame n n'" "node_ok n" "body_wf (nd_body n')" "\<forall>k \<in> set (body_keys (nd_body n')). in_range n k"
    "nd_drained n \<Longrightarrow> body_keys (nd_body n') = []"
  shows "node_ok n'"
proof -
  have f: "nd_low_key n' = nd_low_key n" "nd_high_key n' = nd_high_key n"
    "nd_right_sibling n' = nd_right_sibling n" "nd_drained n' = nd_drained n"
    using assms(1) by (simp_all add: same_frame_def)
  show ?thesis using assms(2-5) unfolding node_ok_def range_wf_def in_range_def f by (simp split: if_splits)
qed

lemma root_frame:
  assumes "state_inv T" "tr_node T p = Some n" "p = None" "same_frame n n'"
  shows "root_shape n'"
  using root_node[of T n] assms by (simp add: root_shape_def same_frame_def)

lemma gated_inv_put: "state_inv T \<Longrightarrow> gated_inv (put p n H T)"
  by (rule gated_inv_same[of T]) (simp_all add: state_inv_def)

lemma routed_ref_low:
  assumes inv: "state_inv T" and n: "tr_node T p = Some n" and r: "routed_ref (tr_routes T) p k"
  shows "tr_low T n \<le> k"
proof (cases p)
  case None
  then have "root_shape n" using inv n by (auto simp: state_inv_def root_inv_def)
  then show ?thesis by (simp add: root_shape_def owned_low_free)
next
  case (Some q)
  then obtain k' where k': "k' \<le> k" "(q, k') \<in> tr_routes T" using r by (auto simp: routed_ref_def routed_def)
  then have "tr_low T n \<le> k'"
    using inv n Some linked_route[OF k'(2)] unfolding state_inv_def routes_inv_def by blast
  then show ?thesis using k'(1) by (rule order.trans)
qed

lemma body_below_eq:
  assumes "lb_wf b" "lb_wf b'" "\<And>k. k < h \<Longrightarrow> lb_lookup b' k = lb_lookup b k"
  shows "body_below h (Leaf b') = body_below h (Leaf b)"
proof -
  have "om_below h (lb_entries b') = om_below h (lb_entries b)"
    using assms by (intro om_eqI) (auto simp: lb_wf_def entries_wf_om map_of_om_below lb_lookup_def)
  then show ?thesis by (simp add: body_below_def)
qed

lemma inv_write_entries:
  assumes inv: "tree_inv T" and n: "tr_node T p = Some n" "linked (tr_routes T) p" "nd_body n = Leaf b" "gate_holders n = []"
    and keys: "\<forall>k \<in> keys. covers n k \<and> routed_ref (tr_routes T) p k"
    and b': "lb_wf b'" "\<forall>k. k \<notin> keys \<longrightarrow> lb_lookup b' k = lb_lookup b k"
    and l: "nl_merge_reservation locks = reservation n" "generation n \<le> nl_generation locks"
      "nl_structure locks = nl_structure (nd_locks n)"
    and era: "era_inv (put p (n\<lparr>nd_body := Leaf b', nd_locks := locks\<rparr>) {} T)"
  shows "tree_inv (put p (n\<lparr>nd_body := Leaf b', nd_locks := locks\<rparr>) {} T)"
proof -
  let ?n' = "n\<lparr>nd_body := Leaf b', nd_locks := locks\<rparr>" and ?T' = "put p (n\<lparr>nd_body := Leaf b', nd_locks := locks\<rparr>) {} T"
  have s: "state_inv T" using inv by (simp add: tree_inv_state)
  note I = s[unfolded state_inv_def]
  have f: "same_frame n ?n'" using l(1) by (simp add: same_frame_def)
  have low: "tr_low T n \<le> k" if "k \<in> keys" for k using routed_ref_low[OF s n(1)] keys that by blast
  note okn = linked_node(1,2)[OF s n(1,2)]
  have wb: "lb_wf b" using okn(1) n(3) by (simp add: node_ok_def body_wf_def)
  have "in_range n k" if "k \<in> set (body_keys (Leaf b'))" for k
  proof (cases "k \<in> keys")
    case True
    then have "nd_low_key n \<le> k" "covers n k" using low low_le_owned[OF s n(1)] keys by (auto intro: order.trans)
    then show ?thesis by (auto simp: in_range_def covers_def split: if_splits)
  next
    case False
    then have "k \<in> set (body_keys (nd_body n))"
      using that b'(2) lb_lookup_keys[of b k] lb_lookup_keys[of b' k] by (simp add: n(3) body_keys_def)
    then show ?thesis using okn(1) by (simp add: node_ok_def range_wf_def)
  qed
  moreover have "body_keys (Leaf b') = []" if "nd_drained n"
  proof -
    have "keys = {}" using keys that by (auto simp: covers_def)
    moreover have "om_keys (lb_entries b) = []" using okn(1) n(3) that by (simp add: node_ok_def body_keys_def)
    ultimately have n: "lb_lookup b' k = None" for k using b'(2) by (simp add: lb_lookup_def)
    show ?thesis
    proof (cases "lb_entries b'")
      case (Cons x xs)
      then show ?thesis using n[of "fst x"] by (simp add: lb_lookup_def)
    qed (simp add: body_keys_def)
  qed
  ultimately have ok: "node_ok ?n'"
    using b'(1) by (intro node_ok_frame[OF f okn(1)]) (auto simp: body_wf_def)
  have w: "writes T p n ?n' {} ?T'"
    using n same_frame_low[OF f] by (simp add: writes_def)
  show ?thesis
  proof (rule tree_inv_writes[OF w inv era gated_inv_put[OF s] _ ok])
    show "links ?n' \<subseteq> tr_routes ?T'" using links_leaf[OF n(3) _ f] okn(2) by simp
    show "starts_at (tr_low T n) ?n'" by (simp add: starts_at_def)
    show "p = None \<Longrightarrow> root_shape ?n'" by (rule root_frame[OF s n(1) _ f])
    show "?n' \<noteq> x" if "tr_gated T v = Some (p, x)" for v x
      using ungated_fresh[OF s _ that, of ?n'] n(4) l(3) by simp
    show "\<exists>m. tr_plans T i = Some m \<and> p = Some (mt_node_id (mp_target m)) \<and> reserved_by ?T' i m ?n'"
      if "reservation ?n' = Some i" for i
    proof -
      have r: "reservation n = Some i" using that l(1) by simp
      from reserved_plan[OF s n(1) r] obtain m where m: "tr_plans T i = Some m"
        "p = Some (mt_node_id (mp_target m))" "reserved_by T i m n" by metis
      have "body_below (mt_boundary (mp_target m)) (Leaf b') = body_below (mt_boundary (mp_target m)) (Leaf b)"
        if "\<not> drained_into (tr_node T) m"
      proof (rule body_below_eq[OF wb b'(1)])
        fix k assume "k < mt_boundary (mp_target m)"
        moreover have "tr_low T n = mt_boundary (mp_target m)" using that r m(1) by (simp add: owned_low_def)
        ultimately have "k \<notin> keys" using low[of k] by auto
        then show "lb_lookup b' k = lb_lookup b k" using b'(2) by blast
      qed
      moreover have "same_level (Leaf b') x = same_level (Leaf b) x" for x
        by (simp add: same_level_def split: NodeBody.splits)
      moreover have "mt_generation (mp_target m) < nl_generation locks"
        using m(3) l(2) unfolding reserved_by_def by (blast intro: order.strict_trans2)
      ultimately have "reserved_by ?T' i m ?n'"
        using m(3) n(3) l(2) unfolding reserved_by_def writes_low(1)[OF w] by (simp split: if_splits)
      then show ?thesis using m by blast
    qed
  qed (simp_all add: l)
qed

lemma inv_gate:
  assumes inv: "tree_inv T" and n: "tr_node T p = Some n" "linked (tr_routes T) p" "tr_gated T w = None"
      "gate_holders n = []" "reservation n = None"
    and l: "nl_structure locks = nl_structure (nd_locks n)" "nl_merge_reservation locks = None"
      "generation n \<le> nl_generation locks" "nl_generation locks + 1 \<noteq> 0"
    and n': "n' = n\<lparr>nd_locks := nl_set_structural_gate w locks\<rparr>"
    and T': "T' = (put p n' {} T)\<lparr>tr_gated := (tr_gated T)(w \<mapsto> (p, n'))\<rparr>" and era: "era_inv T'"
  shows "tree_inv T'"
proof -
  have s: "state_inv T" using inv by (simp add: tree_inv_state)
  note I = s[unfolded state_inv_def]
  have h: "gate_holders n' = [w]" "reservation n' = None" "generation n' = nl_generation locks + 1"
    using n(4) l(1,2) n' set_gate_frame[of locks w] by simp_all
  have f: "same_frame n n'" "nd_body n' = nd_body n" using n' h(2) n(5) by (simp_all add: same_frame_def)
  note okn = linked_node(1,2)[OF s n(1,2)] free_node(1)[OF s n(1,2,5)]
  have links: "links n' = links n" using f by (simp add: links_def link_key_def same_frame_def)
  have ok: "node_ok n'" using okn(1) f(2)
    by (intro node_ok_frame[OF f(1) okn(1)]) (auto simp: node_ok_def range_wf_def)
  have st: "starts_at (nd_low_key n) n'" using okn(3) f by (simp add: starts_at_def same_frame_def)
  have "gated_fine (tr_routes T) p n'"
  proof (cases p)
    case None
    then have "root_shape n" using root_node[OF s] n(1) by simp
    then show ?thesis using None ok okn(2) links st f(1) by (simp add: gated_fine_def root_shape_def same_frame_def)
  next
    case (Some q)
    then show ?thesis using free_node(2)[OF s n(1,2,5)] ok okn(2) links st f(1) by (simp add: gated_fine_def same_frame_def)
  qed
  then have gated: "gated_inv T'" using I T' by (auto simp: gated_inv_def)
  show ?thesis
  proof (rule tree_inv_rewrite[OF inv n(1,2,5) f(1), where H = "{}"])
    show "generation n \<le> generation n'" using h(3) l(3) word_less_Suc[OF l(4)] by simp
    show "n' \<noteq> x" if g: "tr_gated T v = Some (p, x)" for v x
      using gated_node(1)[OF s g] h(1) n(3) g by auto
    show "tr_gated T' = tr_gated T \<or> (\<exists>v s. tr_gated T v = None \<and> tr_gated T' = (tr_gated T)(v \<mapsto> s))"
      using T' n(3) by auto
  qed (use T' era gated ok okn(2) links st in simp_all)
qed

lemma inv_ungate:
  assumes inv: "tree_inv T" and n: "tr_gated T w = Some (p, s)" "tr_node T p = Some n" "gate_holders n = [w]"
    and x: "same_frame n x" "nd_locks x = nd_locks n" "body_wf (nd_body x)"
      "\<forall>k \<in> set (body_keys (nd_body x)). in_range n k" "starts_at (nd_low_key n) x"
      "nd_drained n \<Longrightarrow> body_keys (nd_body x) = []"
    and H: "links x \<subseteq> tr_routes T \<union> H" "\<forall>(q, k) \<in> H. routed (tr_routes T) q k"
    and era: "era_inv (put p (ungate w x) H T)"
  shows "tree_inv (put p (ungate w x) H T)"
proof -
  have st: "state_inv T" using inv by (simp add: tree_inv_state)
  note I = st[unfolded state_inv_def]
  have lk: "linked (tr_routes T) p" by (rule gated_node(3)[OF st n(1)])
  have "gates_ok n" using I n(2) unfolding era_inv_def by blast
  then have r: "reservation n = None" using n(3) by (auto simp: gates_ok_def)
  note okn = linked_node(1)[OF st n(2) lk]
  have u: "gate_holders (ungate w x) = []" using x(2) n(3) by (simp add: ungate_holder)
  have f: "same_frame n (ungate w x)" using x(1) by (simp add: same_frame_def)
  have links: "links (ungate w x) = links x" by (simp add: links_def link_key_def)
  show ?thesis
  proof (rule tree_inv_rewrite[OF inv n(2) lk r f])
    show "node_ok (ungate w x)" using x by (intro node_ok_frame[OF f okn]) simp_all
    show "starts_at (nd_low_key n) (ungate w x)" using x(5) by (simp add: starts_at_def)
    show "gated_inv (put p (ungate w x) H T)" by (rule gated_inv_put[OF st])
    show "ungate w x \<noteq> y" if "tr_gated T v = Some (p, y)" for v y using ungated_fresh[OF st u that] .
  qed (use H links era x(2) in simp_all)
qed

lemma compact_links:
  assumes "body_wf (nd_body n)"
  shows "links (compact n) = links n" "starts_at k (compact n) = starts_at k n"
proof -
  consider "nd_body (compact n) = nd_body n" | b b' where "nd_body n = Leaf b" "nd_body (compact n) = Leaf b'"
    using compact_body(2)[OF assms] compact_index
    by (cases "nd_body n") (auto simp: same_level_def split: NodeBody.splits)
  then have "links (compact n) = links n \<and> starts_at k (compact n) = starts_at k n"
    by cases (simp_all add: links_def link_key_def starts_at_def)
  then show "links (compact n) = links n" "starts_at k (compact n) = starts_at k n" by simp_all
qed

lemma inv_reclaim:
  assumes inv: "tree_inv T" and n: "tr_gated T w = Some (p, n)" "tr_node T p = Some n"
    and era: "era_inv (put p (ungate w (compact n)) {} T)"
  shows "tree_inv (put p (ungate w (compact n)) {} T)"
proof -
  have s: "state_inv T" using inv by (simp add: tree_inv_state)
  note g = gated_node(1,3,2)[OF s n(1)]
  note ok = linked_node(1,2)[OF s n(2) g(2)] free_node(1)[OF s n(2) g(2,3)]
  then have b: "body_wf (nd_body n)" "range_wf n" by (simp_all add: node_ok_def)
  show ?thesis using ok compact_body[OF b(1)] compact_links[OF b(1)] b(2)
    by (intro inv_ungate[OF inv n g(1) _ _ _ _ _ _ _ _ era]) (auto simp: same_frame_def range_wf_def node_ok_def)
qed

section \<open>Reconciling a parent\<close>

text \<open>Versions read along right links.\<close>

fun read_chain :: "tree \<Rightarrow> (node_id \<times> node) list \<Rightarrow> bool" where
  "read_chain T [] = True"
| "read_chain T [(q, n)] = was_version T q n"
| "read_chain T ((q, n) # (q', n') # rest) =
     (was_version T q n \<and> nd_right_sibling n = Some q' \<and> read_chain T ((q', n') # rest))"

lemma read_chain_tl: "read_chain T (x # rest) \<Longrightarrow> read_chain T rest"
  by (cases x; cases rest) auto

lemma version_links:
  assumes inv: "tree_inv T" and v: "was_version T q n" "nd_right_sibling n = Some q'"
  shows "nd_drained n \<Longrightarrow> routed (tr_routes T) q k \<Longrightarrow> routed (tr_routes T) q' k"
    "\<not> nd_drained n \<Longrightarrow> nd_high_key n = Some k \<Longrightarrow> routed (tr_routes T) q' k"
proof -
  obtain N G where P: "(N, G) \<in> set (tr_history T)" "N (Some q) = Some n" "linked G (Some q)"
    using v(1) by (auto simp: was_version_def)
  have ok: "past_ok T (N, G)" using inv P(1) by (simp add: tree_inv_def)
  then have l: "links n \<subseteq> tr_routes T" and G: "G \<subseteq> tr_routes T"
    and d: "nd_drained n \<Longrightarrow> \<exists>c. tr_node T (Some q) = Some c \<and> nd_drained c \<and> nd_low_key c = nd_low_key n"
    using P(2,3) unfolding past_ok_def prod.case by blast+
  have s: "state_inv T" using inv by (simp add: tree_inv_state)
  have key: "(q', link_key n) \<in> tr_routes T" using l v(2) by (auto simp: links_def)
  show "routed (tr_routes T) q' k" if "\<not> nd_drained n" "nd_high_key n = Some k"
    using key that by (auto simp: routed_def link_key_def)
  assume dr: "nd_drained n" and r: "routed (tr_routes T) q k"
  obtain c where c: "tr_node T (Some q) = Some c" "nd_drained c" "nd_low_key c = nd_low_key n" using d dr by blast
  have "tr_low T c \<le> k" using routed_ref_low[OF s c(1)] r by (simp add: routed_ref_def)
  then have "nd_low_key n \<le> k" using low_le_owned[OF s c(1)] c(3) by simp
  then show "routed (tr_routes T) q' k" using key dr by (auto simp: routed_def link_key_def)
qed

lemma read_chain_live:
  assumes inv: "tree_inv T" and "read_chain T ((q, n) # rest)" "nd_drained n" "routed (tr_routes T) q k"
    "find (\<lambda>(_, m). \<not> nd_drained m) rest = Some (t, v)"
  shows "routed (tr_routes T) t k"
  using assms(2-)
proof (induction rest arbitrary: q n)
  case (Cons x rest)
  obtain q' n' where x: "x = (q', n')" by (cases x)
  have "routed (tr_routes T) q' k" using version_links(1)[OF inv, of q n q'] Cons.prems x by simp
  then show ?case using Cons x by (cases "nd_drained n'") auto
qed simp

lemma redirect_id_routed:
  assumes inv: "tree_inv T"
  shows "read_chain T path \<Longrightarrow> routed (tr_routes T) c k \<Longrightarrow> routed (tr_routes T) (redirect_id path c) k"
proof (induction path arbitrary: c)
  case (Cons x path)
  obtain q n where x: "x = (q, n)" by (cases x)
  show ?case
    using Cons read_chain_tl[OF Cons.prems(1)] read_chain_live[OF inv, of q n path k] x
    by (auto split: option.splits)
qed simp

fun separators_routed :: "routes \<Rightarrow> (node_id \<times> node) list \<Rightarrow> bool" where
  "separators_routed G ((_, previous) # (q, n) # rest) =
     ((\<forall>k. nd_high_key previous = Some k \<longrightarrow> routed G q k) \<and> separators_routed G ((q, n) # rest))"
| "separators_routed G _ = True"

lemma find_filter: "find P xs = (case filter P xs of [] \<Rightarrow> None | x # _ \<Rightarrow> Some x)"
  by (induction xs) auto

lemma live_separators:
  assumes inv: "tree_inv T"
  shows "read_chain T path \<Longrightarrow> separators_routed (tr_routes T) (filter (\<lambda>(_, m). \<not> nd_drained m) path)"
proof (induction path)
  case (Cons x path)
  obtain q n where x: "x = (q, n)" by (cases x)
  have IH: "separators_routed (tr_routes T) (filter (\<lambda>(_, m). \<not> nd_drained m) path)"
    using Cons.IH read_chain_tl[OF Cons.prems] by blast
  have "routed (tr_routes T) t k"
    if t: "\<not> nd_drained n" "nd_high_key n = Some k" "filter (\<lambda>(_, m). \<not> nd_drained m) path = (t, v) # live" for t v k live
  proof -
    obtain q' n' rest where p: "path = (q', n') # rest" using t(3) by (cases path) auto
    have r: "routed (tr_routes T) q' k" using version_links(2)[OF inv, of q n q'] t(1,2) Cons.prems x p by simp
    have "find (\<lambda>(_, m). \<not> nd_drained m) path = Some (t, v)" using t(3) by (simp add: find_filter)
    then show ?thesis
      using r read_chain_live[OF inv read_chain_tl[OF Cons.prems, unfolded p] _ r, of t v] p
      by (cases "nd_drained n'") auto
  qed
  then show ?case using IH x by (cases "filter (\<lambda>(_, m). \<not> nd_drained m) path") auto
qed simp

lemma insert_separators_routed:
  "separators_routed G live \<Longrightarrow> \<forall>(s, c) \<in> set m. routed G c s \<Longrightarrow> \<forall>(s, c) \<in> set (insert_separators live m). routed G c s"
proof (induction live m rule: insert_separators.induct)
  case (1 u previous i n rest children)
  have "\<forall>(s, c) \<in> set (case nd_high_key previous of None \<Rightarrow> children | Some s \<Rightarrow>
      (case map_of children s of None \<Rightarrow> om_insert s i children | Some _ \<Rightarrow> children)). routed G c s"
    using 1(2,3) om_insert_set by (fastforce split: option.splits)
  then show ?case using 1 by simp
qed auto

lemma drop_repeated_set: "set (drop_repeated d m) \<subseteq> set m"
  by (induction d m rule: drop_repeated.induct) auto

lemma om_wf_drop_repeated: "om_wf m \<Longrightarrow> om_wf (drop_repeated d m)"
  by (induction d m rule: drop_repeated.induct) (use drop_repeated_set in fastforce)+

lemma reconcile_om_wf: "om_wf (in_children i) \<Longrightarrow> om_wf (in_children (reconcile path i))"
  by (simp add: reconcile_def Let_def om_wf_drop_repeated om_wf_insert_separators om_wf_redirect)

lemma reconcile_routed:
  assumes inv: "tree_inv T" and p: "read_chain T path"
    and i: "\<forall>(s, c) \<in> set (in_children i). routed (tr_routes T) c s"
  shows "\<forall>(s, c) \<in> set (in_children (reconcile path i)). routed (tr_routes T) c s"
proof -
  have "\<forall>(s, c) \<in> set (redirect_drained path (in_children i)). routed (tr_routes T) c s"
    using i redirect_id_routed[OF inv p] by (fastforce simp: redirect_drained_map)
  from insert_separators_routed[OF live_separators[OF inv p] this] drop_repeated_set
  show ?thesis by (auto simp: reconcile_def Let_def)
qed

lemma reconcile_keeps_first:
  assumes "om_wf (in_children i)" "\<exists>p \<in> set (in_children i). fst p \<le> k"
  shows "\<exists>p \<in> set (in_children (reconcile path i)). fst p \<le> k"
proof -
  let ?m = "insert_separators (filter (\<lambda>(_, m). \<not> nd_drained m) path) (redirect_drained path (in_children i))"
  have "\<exists>p \<in> set (redirect_drained path (in_children i)). fst p \<le> k"
    using assms(2) by (force simp: redirect_drained_map)
  then have "\<exists>p \<in> set ?m. fst p \<le> k" using insert_separators_keys by (rule ex_key_mono)
  moreover have "om_wf ?m" using assms(1) by (simp add: om_wf_insert_separators om_wf_redirect)
  ultimately obtain s c m where m: "?m = (s, c) # m" "s \<le> k" by (cases ?m) (auto dest: order.strict_implies_order)
  then show ?thesis by (simp add: reconcile_def Let_def m(1))
qed

lemma child_chain_read:
  assumes "\<forall>h q v. load h q = Some v \<longrightarrow> was_version T q v" "child_chain_from hops load key i = Inr chain"
  shows "read_chain T chain \<and> chain \<noteq> [] \<and> fst (hd chain) = i"
  using assms(2)
proof (induction hops arbitrary: i chain)
  case (Suc hops)
  from Suc.prems obtain n where n: "load hops i = Some n" by (auto split: option.splits)
  then have v: "was_version T i n" using assms(1) by blast
  show ?case
  proof (cases "nd_right_sibling n")
    case None
    then show ?thesis using Suc.prems n v by auto
  next
    case (Some q)
    show ?thesis
    proof (cases "covers n key")
      case True
      then show ?thesis using Suc.prems n v Some by auto
    next
      case False
      then obtain rest where r: "child_chain_from hops load key q = Inr rest" "chain = (i, n) # rest"
        using Suc.prems n Some by (auto simp: map_r_ok_iff)
      then obtain x rest' where "rest = x # rest'" "fst x = q" "read_chain T rest"
        using Suc.IH[OF r(1)] by (cases rest) auto
      then show ?thesis using r(2) v Some by (cases x) simp
    qed
  qed
qed simp

lemma reconcile_keys_facts:
  assumes inv: "tree_inv T" and l: "\<forall>j h q v. load j h q = Some v \<longrightarrow> was_version T q v"
    and i: "om_wf (in_children i)" "\<forall>(s, c) \<in> set (in_children i). routed (tr_routes T) c s"
    and r: "reconcile_keys load index keys i = Inr i'"
  shows "om_wf (in_children i') \<and> (\<forall>(s, c) \<in> set (in_children i'). routed (tr_routes T) c s)
    \<and> ((\<exists>p \<in> set (in_children i). fst p \<le> k) \<longrightarrow> (\<exists>p \<in> set (in_children i'). fst p \<le> k))"
  using i r
proof (induction keys arbitrary: i)
  case (Cons key keys)
  obtain chain where c: "child_chain (load (length keys)) index key = Inr chain"
    and k: "reconcile_keys load index keys (reconcile chain i) = Inr i'"
    using Cons.prems(3) by (auto simp: bind_r_ok_iff)
  have "read_chain T chain"
    using c child_chain_read[of "load (length keys)" T] l by (auto simp: child_chain_def split: option.splits)
  then show ?case
    using Cons.IH[OF reconcile_om_wf reconcile_routed[OF inv] k] reconcile_keeps_first Cons.prems(1,2) by blast
qed simp

lemma reconcile_empty: "in_children i = [] \<Longrightarrow> in_children (reconcile [] i) = []"
  by (simp add: reconcile_def)

lemma reconcile_keys_empty:
  "in_children index = [] \<Longrightarrow> in_children i = [] \<Longrightarrow> reconcile_keys load index keys i = Inr i' \<Longrightarrow> in_children i' = []"
proof (induction keys arbitrary: i)
  case (Cons key keys)
  have "child_before index key = None" using Cons.prems(1) by (simp add: child_before_def last_child_def first_child_def)
  then have "reconcile_keys load index keys (reconcile [] i) = Inr i'" using Cons.prems(3) by (simp add: child_chain_def)
  then show ?case using Cons.IH Cons.prems(1,2) reconcile_empty by blast
qed simp

lemma inv_reconcile:
  assumes inv: "tree_inv T" and n: "tr_gated T w = Some (p, n)" "tr_node T p = Some n" "nd_body n = Index idx"
    and l: "\<forall>j h q v. load j h q = Some v \<longrightarrow> was_version T q v" and r: "reconciled_index load idx keys = Inr idx'"
    and rng: "\<forall>(s, c) \<in> set (in_children idx'). in_range n s"
    and n': "n' = ungate w (n\<lparr>nd_body := Index idx'\<rparr>)" and era: "era_inv (put p n' (links n') T)"
  shows "tree_inv (put p n' (links n') T)"
proof -
  let ?x = "n\<lparr>nd_body := Index idx'\<rparr>"
  have s: "state_inv T" using inv by (simp add: tree_inv_state)
  note g = gated_node[OF s n(1)]
  note ok = linked_node(1,2)[OF s n(2) g(3)] free_node(1)[OF s n(2) g(3,2)]
  have w: "om_wf (in_children idx)" using ok(1) n(3) by (simp add: node_ok_def body_wf_def in_wf_def)
  have rt: "\<forall>(s, c) \<in> set (in_children idx). routed (tr_routes T) c s"
    using ok(2) n(3) by (auto simp: links_def routed_def)
  note f = reconcile_keys_facts[OF inv l w rt r[unfolded reconciled_index_def], of "nd_low_key n"]
  have links: "links n' = links ?x" using n' by (simp add: links_def link_key_def)
  have lk: "\<forall>(q, k) \<in> links ?x. routed (tr_routes T) q k"
    using f ok(2) by (auto simp: links_def link_key_def routed_def)
  have "id_ok (nid_bytes c)" if "routed (tr_routes T) c s" for c s
    using that s by (auto simp: routed_def state_inv_def ids_inv_def)
  then have wf: "in_wf idx'" using f by (auto simp: in_wf_def)
  have st: "starts_at (nd_low_key n) ?x"
  proof (cases "nd_drained n")
    case False
    then have "nd_low_key n \<in> fst ` set (in_children idx)" using ok(3) n(3) by (simp add: starts_at_def)
    then obtain p where p: "p \<in> set (in_children idx')" "fst p \<le> nd_low_key n" using f by fastforce
    then have "fst p = nd_low_key n" using rng by (auto simp: in_range_def intro: antisym)
    then have "nd_low_key n \<in> fst ` set (in_children idx')" using p(1) by (metis imageI)
    then show ?thesis by (simp add: starts_at_def)
  qed (simp add: starts_at_def)
  have e: "in_children idx' = []" if "nd_drained n"
    using that ok(1) n(3) reconcile_keys_empty[OF _ _ r[unfolded reconciled_index_def]]
    by (simp add: node_ok_def body_keys_def)
  show ?thesis unfolding n'
    by (rule inv_ungate[OF inv n(1,2) g(1)])
      (use wf rng st lk era links n' e in \<open>auto simp: same_frame_def body_wf_def body_keys_def\<close>)
qed

end
