(* ===== verification/Tree_Merge.thy ===== *)
theory Tree_Merge
  imports Tree_Safe
begin

text \<open>
  The steps of merges and splits keep the invariant: a merge moves the owned range of
  its source to its target with the one write that drains the source, and a split
  hands part of the range to nodes that no route led to before.
\<close>

section \<open>Planning a merge\<close>

lemma search_target_linked:
  assumes inv: "state_inv T"
  shows "search_target hops (\<lambda>q. tr_node T (Some q)) nxt = Inr (Some (t, r)) \<Longrightarrow>
    (\<And>q. nxt = Some q \<Longrightarrow> linked (tr_routes T) (Some q)) \<Longrightarrow>
    tr_node T (Some t) = Some r \<and> linked (tr_routes T) (Some t) \<and> \<not> nd_drained r"
proof (induction hops arbitrary: nxt)
  case (Suc hops)
  then obtain q n where q: "nxt = Some q" "tr_node T (Some q) = Some n"
    by (auto split: option.splits)
  have lq: "linked (tr_routes T) (Some q)" using Suc.prems(2) q(1) by simp
  show ?case
  proof (cases "nd_drained n")
    case True
    then have "linked (tr_routes T) (Some c)" if "nd_right_sibling n = Some c" for c
      using that linked_node(2)[OF inv q(2) lq] by (force simp: links_def linked_def)
    then show ?thesis using Suc.IH[of "nd_right_sibling n"] Suc.prems(1) q True by simp
  next
    case False
    then show ?thesis using Suc.prems(1) q lq by simp
  qed
qed simp

lemma inv_merge_ready:
  assumes inv: "tree_inv T" and g: "tr_gated T w = Some (Some source, n)" and i: "tr_plans T i = None" "i \<notin> tr_absorbed T"
    and m: "merge_plan_for (\<lambda>q. tr_node T (Some q)) source w n = Some m"
    and adj: "\<forall>r. tr_node T (Some (mt_node_id (mp_target m))) = Some r \<longrightarrow> nd_low_key r = mt_boundary (mp_target m)"
    and T': "T' = moment (T\<lparr>tr_plans := (tr_plans T)(i \<mapsto> m)\<rparr>)" and era: "era_inv T'"
  shows "tree_inv T'"
proof -
  have s: "state_inv T" using inv by (simp add: tree_inv_state)
  note I = s[unfolded state_inv_def]
  note e = merge_plan_for_effect[OF m]
  let ?R = "mt_node_id (mp_target m)"
  obtain r0 where r0: "search_target MAX_TARGET_SEARCH_HOPS (\<lambda>q. tr_node T (Some q)) (nd_right_sibling n) = Inr (Some (?R, r0))"
    "reservation r0 = None" "mt_generation (mp_target m) = generation r0" using e(7) by blast
  note f = gated_node(4)[OF s g]
  have "linked (tr_routes T) (Some c)" if "nd_right_sibling n = Some c" for c
    using that f by (force simp: gated_fine_def links_def linked_def)
  from search_target_linked[OF s r0(1) this]
  have R: "tr_node T (Some ?R) = Some r0" "linked (tr_routes T) (Some ?R)" by auto
  have low: "nd_low_key r0 = mt_boundary (mp_target m)" using adj R(1) by blast
  have "?R \<noteq> source"
  proof
    assume "?R = source"
    then have "routed_ref (tr_routes T) (Some ?R) (nd_low_key n)"
      using f by (auto simp: routed_ref_def routed_def gated_fine_def)
    then have "tr_low T r0 \<le> nd_low_key n" using routed_ref_low[OF s R(1)] by blast
    moreover have "nd_low_key n < mt_boundary (mp_target m)" using f e(5) by (simp add: gated_fine_def node_ok_def)
    ultimately show False using low r0(2) by (simp add: owned_low_free)
  qed
  then have plan: "plan_ok T m" using R r0(2,3) low e(1) by (simp add: plan_ok_def)
  have same: "tr_node T' = tr_node T" "tr_routes T' = tr_routes T" "tr_gated T' = tr_gated T" "tr_splits T' = tr_splits T"
    "tr_ids T' = tr_ids T" "tr_absorbed T' = tr_absorbed T" "tr_drained T' = tr_drained T"
    "tr_plans T' = (tr_plans T)(i \<mapsto> m)" using T' by simp_all
  have res: "reservation x \<noteq> Some i" if "tr_node T p = Some x" for p x
    using reserved_plan[OF s that, of i] i(1) by fastforce
  have tl: "tr_low T' x = tr_low T x" if "tr_node T p = Some x" for p x
    using res[OF that] by (auto simp: owned_low_def same split: option.splits)
  have "links_inv T'" using I tl unfolding links_inv_def same by metis
  moreover have "routes_inv T'" using I tl unfolding routes_inv_def same by metis
  moreover have "ids_inv T'" "root_inv T'" "gated_inv T'" "splits_inv T'"
    using I unfolding ids_inv_def root_inv_def gated_inv_def splits_inv_def same by blast+
  moreover have "merges_inv T'"
  proof -
    have "plan_ok T' m' = plan_ok T m'" for m' unfolding plan_ok_def same by (rule refl)
    moreover have "reserved_by T' j m' x = reserved_by T j m' x" for j m' x unfolding reserved_by_def same by (rule refl)
    ultimately show ?thesis using I plan res i unfolding merges_inv_def same by (auto split: if_splits)
  qed
  ultimately have "state_inv T'" using era by (simp add: state_inv_def)
  then show ?thesis by (rule tree_inv_step[OF inv]) (use T' in \<open>auto simp: T'\<close>)
qed

section \<open>Absorbing, abandoning and releasing\<close>

lemma body_join_facts:
  assumes "body_wf l" "body_wf r" "same_level r l"
    and "\<forall>a \<in> set (body_keys l). a < b" "\<forall>a \<in> set (body_keys r). b \<le> a"
  shows "body_wf (body_join l r)" "set (body_keys (body_join l r)) = set (body_keys l) \<union> set (body_keys r)"
    "body_below b (body_join l r) = l" "same_level (body_join l r) l"
proof -
  have "body_wf (body_join l r) \<and> set (body_keys (body_join l r)) = set (body_keys l) \<union> set (body_keys r)
    \<and> body_below b (body_join l r) = l \<and> same_level (body_join l r) l"
  proof (cases l)
    case (Leaf lb)
    then obtain rb where r: "r = Leaf rb" using assms(3) by (auto simp: same_level_def split: NodeBody.splits)
    have w: "entries_wf (lb_entries lb)" "entries_wf (lb_entries rb)" using assms(1,2) Leaf r by (simp_all add: body_wf_def lb_wf_def)
    have k: "\<forall>a \<in> set (om_keys (lb_entries lb)). a < b" "\<forall>a \<in> set (om_keys (lb_entries rb)). b \<le> a"
      using assms(4,5) Leaf r by (simp_all add: body_keys_def)
    have "x < y" if "x \<in> set (om_keys (lb_entries lb))" "y \<in> set (om_keys (lb_entries rb))" for x y
      using k that by (metis order.strict_trans2)
    then have "om_wf (lb_entries lb @ lb_entries rb)" unfolding om_wf_append using w by (simp add: entries_wf_def)
    then have "entries_wf (lb_entries lb @ lb_entries rb)" using w by (auto simp: entries_wf_def)
    moreover have "om_below b (lb_entries lb @ lb_entries rb) = lb_entries lb" using k by (intro om_split_append(1)) simp_all
    ultimately show ?thesis using Leaf r
      by (simp add: body_wf_def lb_wf_def body_join_def body_keys_def body_below_def same_level_def)
  next
    case (Index li)
    then obtain ri where r: "r = Index ri" using assms(3) by (auto simp: same_level_def split: NodeBody.splits)
    have w: "in_wf li" "in_wf ri" using assms(1,2) Index r by (simp_all add: body_wf_def)
    have k: "\<forall>a \<in> set (om_keys (in_children li)). a < b" "\<forall>a \<in> set (om_keys (in_children ri)). b \<le> a"
      using assms(4,5) Index r by (simp_all add: body_keys_def)
    have "x < y" if "x \<in> set (om_keys (in_children li))" "y \<in> set (om_keys (in_children ri))" for x y
      using k that by (metis order.strict_trans2)
    then have "om_wf (in_children li @ in_children ri)" unfolding om_wf_append using w by (simp add: in_wf_def)
    then have "in_wf (IndexNode (in_children li @ in_children ri))" using w by (auto simp: in_wf_def)
    moreover have "om_below b (in_children li @ in_children ri) = in_children li" using k by (intro om_split_append(1)) simp_all
    ultimately show ?thesis using Index r
      by (simp add: body_wf_def body_join_def body_keys_def body_below_def same_level_def)
  qed
  then show "body_wf (body_join l r)" "set (body_keys (body_join l r)) = set (body_keys l) \<union> set (body_keys r)"
    "body_below b (body_join l r) = l" "same_level (body_join l r) l" by auto
qed

lemma links_join:
  assumes "body_wf (nd_body l)" "body_wf (nd_body r)" "same_level (nd_body r) (nd_body l)"
    "nd_body x = body_join (nd_body l) (nd_body r)" "nd_right_sibling x = nd_right_sibling r" "link_key x = link_key r"
  shows "links x \<subseteq> links l \<union> links r"
  using assms by (auto simp: links_def body_join_def same_level_def split: NodeBody.splits)

lemma plan_left:
  assumes "state_inv T" "tr_plans T i = Some m"
  shows "body_wf (nd_body (mp_left m))" "links (mp_left m) \<subseteq> tr_routes T"
    "\<forall>k \<in> set (body_keys (nd_body (mp_left m))). nd_low_key (mp_left m) \<le> k \<and> k < mt_boundary (mp_target m)"
    "plan_kept T m" "plan_ok T m" "starts_at (nd_low_key (mp_left m)) (mp_left m)" "\<not> nd_drained (mp_left m)"
proof -
  show k: "plan_kept T m" "plan_ok T m" using assms unfolding state_inv_def era_inv_def merges_inv_def by blast+
  have p: "node_ok (mp_gated m)" "links (mp_gated m) \<subseteq> tr_routes T" "starts_at (nd_low_key (mp_gated m)) (mp_gated m)"
    using plan_low(3-5)[OF _ k(1)] assms(1) by (simp_all add: state_inv_def)
  have c: "mp_left m = compact (mp_gated m)" "nd_high_key (mp_gated m) = Some (mt_boundary (mp_target m))"
    "\<not> nd_drained (mp_gated m)" using k(1) by (simp_all add: plan_kept_def)
  have b: "body_wf (nd_body (mp_gated m))" "range_wf (mp_gated m)" using p(1) by (simp_all add: node_ok_def)
  show "body_wf (nd_body (mp_left m))" using compact_body(1)[OF b(1)] c(1) by simp
  show "\<forall>k \<in> set (body_keys (nd_body (mp_left m))). nd_low_key (mp_left m) \<le> k \<and> k < mt_boundary (mp_target m)"
    using compact_body(3)[OF b(1)] b(2) c(1,2) by (auto simp: range_wf_def in_range_def)
  show "links (mp_left m) \<subseteq> tr_routes T" "starts_at (nd_low_key (mp_left m)) (mp_left m)"
    using p(2,3) c(1) compact_links[OF b(1)] by simp_all
  show "\<not> nd_drained (mp_left m)" using c by simp
qed

text \<open>A planned merge whose target still has the planned generation has not landed.\<close>

lemma not_drained_into:
  assumes inv: "state_inv T" and m: "tr_plans T i = Some m" "tr_node T (Some (mt_node_id (mp_target m))) = Some r"
    "generation r = mt_generation (mp_target m)"
  shows "\<not> drained_into (tr_node T) m"
proof
  assume "drained_into (tr_node T) m"
  then obtain x where x: "tr_node T (Some (mp_source m)) = Some x" "nd_drained x"
    "nd_right_sibling x = Some (mt_node_id (mp_target m))" by (auto simp: drained_into_def)
  note p = plan_left(4,5)[OF inv m(1)]
  have g: "gated_inv T" using inv by (simp add: state_inv_def)
  note low = plan_low[OF g p(1)]
  have r: "reservation r = None" "nd_low_key r = mt_boundary (mp_target m)" using p(2) m(2,3) by (auto simp: plan_ok_def)
  have lx: "linked (tr_routes T) (Some (mp_source m))" using linked_route[OF low(6)] .
  have "(mt_node_id (mp_target m), nd_low_key x) \<in> tr_routes T"
    using linked_node(2)[OF inv x(1) lx] x(2,3) by (auto simp: links_def link_key_def)
  then have "routed_ref (tr_routes T) (Some (mt_node_id (mp_target m))) (nd_low_key x)" by (auto simp: routed_ref_def routed_def)
  from routed_ref_low[OF inv m(2) this] have "mt_boundary (mp_target m) \<le> nd_low_key x"
    using r by (simp add: owned_low_free)
  moreover have "routed_ref (tr_routes T) (Some (mp_source m)) (nd_low_key (mp_gated m))"
    using low(6) by (auto simp: routed_ref_def routed_def)
  from routed_ref_low[OF inv x(1) this] low_le_owned[OF inv x(1)] have "nd_low_key x \<le> nd_low_key (mp_gated m)" by simp
  ultimately show False using low(2) by simp
qed

lemma node_ok_locks: "node_ok (n\<lparr>nd_locks := l\<rparr>) = node_ok n"
  by (simp add: node_ok_def range_wf_def in_range_def cong: option.case_cong)

lemma links_locks: "links (n\<lparr>nd_locks := l\<rparr>) = links n"
  by (simp add: links_def link_key_def)

text \<open>What an absorb that lands finds and leaves.\<close>

lemma absorb_facts:
  assumes s: "state_inv T" and m: "tr_plans T i = Some m" and r: "tr_node T (Some (mt_node_id (mp_target m))) = Some r"
    and a: "absorb_attempt pb_len policy final i m r = Some r'"
  shows "linked (tr_routes T) (Some (mt_node_id (mp_target m)))" "nd_low_key r = mt_boundary (mp_target m)"
    "length (gate_holders r) \<le> 1" "\<not> drained_into (tr_node T) m"
    "tr_low T r = mt_boundary (mp_target m)" "tr_low T r' = mt_boundary (mp_target m)"
    "same_level (nd_body (compact r)) (nd_body (mp_left m))"
    "\<forall>k \<in> set (body_keys (nd_body (mp_left m))). k < mt_boundary (mp_target m)"
    "\<forall>k \<in> set (body_keys (nd_body (compact r))). mt_boundary (mp_target m) \<le> k"
    "nd_body r' = body_join (nd_body (mp_left m)) (nd_body (compact r))"
proof -
  let ?B = "mt_boundary (mp_target m)" and ?R = "mt_node_id (mp_target m)"
  note p = plan_left[OF s m]
  show g: "length (gate_holders r) \<le> 1" using s r unfolding state_inv_def era_inv_def gates_ok_def by blast
  note e = absorb_attempt_effect[OF a g]
  show R: "linked (tr_routes T) (Some ?R)" and low: "nd_low_key r = ?B" using p(5) r e(3) by (auto simp: plan_ok_def)
  show nd: "\<not> drained_into (tr_node T) m" using not_drained_into[OF s m r e(3)] .
  show "tr_low T r = ?B" "tr_low T r' = ?B" using low e(2,8) m nd by (simp_all add: owned_low_def)
  have br: "body_wf (nd_body r)" "range_wf r" using linked_node(1)[OF s r R] by (simp_all add: node_ok_def)
  note cr = compact_body(1,3)[OF br(1)]
  show lvl: "same_level (nd_body (compact r)) (nd_body (mp_left m))" using e(11) absorb_body_ok_iff by (metis is_ok.simps(2))
  show kl: "\<forall>k \<in> set (body_keys (nd_body (mp_left m))). k < ?B" and kr: "\<forall>k \<in> set (body_keys (nd_body (compact r))). ?B \<le> k"
    using p(3) cr(2) br(2) low by (auto simp: range_wf_def in_range_def)
  have "\<forall>x \<in> set (body_keys (nd_body (mp_left m))). \<forall>y \<in> set (body_keys (nd_body (compact r))). x < y"
    using kl kr by (meson order.strict_trans2)
  from absorb_body_join[OF p(1) cr(1) lvl this]
  show "nd_body r' = body_join (nd_body (mp_left m)) (nd_body (compact r))" using e(11) by simp
qed

lemma inv_absorb:
  assumes inv: "tree_inv T" and m: "tr_plans T i = Some m" and r: "tr_node T (Some (mt_node_id (mp_target m))) = Some r"
    and a: "absorb_attempt pb_len policy final i m r = Some r'" and ov: "generation r + 1 \<noteq> 0"
    and T': "T' = (put (Some (mt_node_id (mp_target m))) r' {} T)\<lparr>tr_absorbed := insert i (tr_absorbed T)\<rparr>"
    and era: "era_inv T'"
  shows "tree_inv T'"
proof -
  let ?B = "mt_boundary (mp_target m)" and ?R = "mt_node_id (mp_target m)"
  have s: "state_inv T" using inv by (simp add: tree_inv_state)
  note p = plan_left[OF s m] and f = absorb_facts[OF s m r a]
  note R = f(1) and low = f(2) and nd = f(4) and tl = f(5,6) and lvl = f(7) and kl = f(8) and kr = f(9) and body = f(10)
  note e = absorb_attempt_effect[OF a f(3)]
  note ok = linked_node(1,2)[OF s r R] free_node(1)[OF s r R e(2)]
  have br: "body_wf (nd_body r)" "range_wf r" using ok(1) by (simp_all add: node_ok_def)
  note cr = compact_body(1,3)[OF br(1)]
  note j = body_join_facts[OF p(1) cr(1) lvl kl kr]
  have lowl: "nd_low_key (mp_left m) < ?B" using plan_low(1,2)[OF _ p(4)] s by (simp add: state_inv_def)
  have high: "case nd_high_key r of None \<Rightarrow> True | Some h \<Rightarrow> ?B < h" using ok(1) low by (simp add: node_ok_def split: option.splits)
  have ok': "node_ok r'"
  proof -
    have "in_range r' k" if "k \<in> set (body_keys (nd_body r'))" for k
      using that p(3) cr(2) br(2) low lowl high e(4,5)
      unfolding body j(2) by (fastforce simp: range_wf_def in_range_def split: option.splits)
    moreover have "case nd_high_key r' of None \<Rightarrow> True | Some h \<Rightarrow> nd_low_key r' < h"
      using high lowl e(4,5) by (auto split: option.splits)
    ultimately show ?thesis using ok(1) e(1,5,6,7) j(1) body by (simp add: node_ok_def range_wf_def)
  qed
  have "links r' \<subseteq> links (mp_left m) \<union> links (compact r)"
    using e(1,5,6,7) by (intro links_join[OF p(1) cr(1) lvl body]) (simp_all add: link_key_def)
  then have lk: "links r' \<subseteq> tr_routes T" using p(2) ok(2) compact_links(1)[OF br(1)] by auto
  have "starts_at ?B (compact r)" using ok(3) low compact_links(2)[OF br(1)] by simp
  then have st: "starts_at ?B r'" using e(1) body lvl
    by (auto simp: starts_at_def body_join_def same_level_def image_Un split: NodeBody.splits)
  have w: "writes T (Some ?R) r r' {} T'" using r R tl e(1,6,7) T' by (auto simp: writes_def)
  have gen: "generation r < generation r'" using word_less_Suc[OF ov] e(10) by simp
  have rb: "reserved_by T' i m r'" unfolding reserved_by_def writes_low(1)[OF w]
    using T' e(4,5,7) nd high j(3,4) body e(3) gen by simp
  show ?thesis
  proof (rule tree_inv_writes[OF w inv era _ _ ok'])
    show "gated_inv T'" by (rule gated_inv_same[of T]) (use s T' in \<open>simp_all add: state_inv_def\<close>)
    show "r' \<noteq> x" if "tr_gated T v = Some (Some ?R, x)" for v x using ungated_fresh[OF s e(9) that] .
    show "\<exists>m'. tr_plans T j = Some m' \<and> Some ?R = Some (mt_node_id (mp_target m')) \<and> reserved_by T' j m' r'"
      if "reservation r' = Some j" for j using that e(8) m rb by auto
    show "generation r \<le> generation r'" using gen by simp
    show "links r' \<subseteq> tr_routes T'" "starts_at (tr_low T r) r'" using T' lk st tl(1) by simp_all
    show "Some ?R = Some (mt_node_id (mp_target m')) \<and> reservation r' = Some j"
      if "j \<in> tr_absorbed T'" "j \<notin> tr_absorbed T" "tr_plans T j = Some m'" for j m'
      using that T' m e(8) by simp
  qed (use T' e(2) gen in simp_all)
qed

lemma inv_release:
  assumes inv: "tree_inv T" and m: "tr_plans T i = Some m" and d: "drained_into (tr_node T) m"
    and r: "tr_node T (Some (mt_node_id (mp_target m))) = Some r" and c: "remove_reservation_change i r = Some r'"
    and era: "era_inv (put (Some (mt_node_id (mp_target m))) r' {} T)"
  shows "tree_inv (put (Some (mt_node_id (mp_target m))) r' {} T)"
proof -
  let ?R = "mt_node_id (mp_target m)"
  have s: "state_inv T" using inv by (simp add: tree_inv_state)
  note p = plan_left[OF s m]
  have e: "reservation r = Some i" "r' = r\<lparr>nd_locks := (nd_locks r)\<lparr>nl_merge_reservation := None\<rparr>\<rparr>"
    using c by (simp_all add: remove_reservation_change_effect)
  have R: "linked (tr_routes T) (Some ?R)" using p(5) by (simp add: plan_ok_def)
  note ok = linked_node[OF s r R]
  have tl: "tr_low T r = nd_low_key r" "tr_low T r' = nd_low_key r" using e m d by (simp_all add: owned_low_def)
  have w: "writes T (Some ?R) r r' {} (put (Some ?R) r' {} T)" using r R tl e(2) by (simp add: writes_def)
  have g: "gate_holders r' = []" using s r e unfolding state_inv_def era_inv_def gates_ok_def by fastforce
  show ?thesis
  proof (rule tree_inv_writes[OF w inv era gated_inv_put[OF s]])
    show "node_ok r'" using ok(1) e(2) by (simp add: node_ok_locks)
    show "links r' \<subseteq> tr_routes (put (Some ?R) r' {} T)" using ok(2) e(2) by (simp add: links_locks)
    show "starts_at (tr_low T r) r'" using ok(3) e(2) by (simp add: starts_at_def)
    show "r' \<noteq> x" if "tr_gated T v = Some (Some ?R, x)" for v x using ungated_fresh[OF s g that] .
    show "reservation r' = Some j" if "reservation r = Some j" "tr_plans T j = Some m'"
      "tr_node T (Some (mp_source m')) = Some (mp_gated m')" for j m'
      using that e(1) m d p(4) by (auto simp: drained_into_def plan_kept_def)
  qed (use e in simp_all)
qed

lemma inv_abandon:
  assumes inv: "tree_inv T" and m: "tr_plans T i = Some m"
    and g: "i \<in> tr_absorbed T \<and> i \<notin> tr_drained T \<and> tr_node T (Some (mp_source m)) \<noteq> Some (mp_gated m)
      \<or> tr_node T (Some (mp_source m)) \<noteq> Some (mp_gated m) \<and> \<not> drained_into (tr_node T) m"
    and r: "tr_node T (Some (mt_node_id (mp_target m))) = Some r"
    and c: "abandon_change i (mp_target m) r = Some r'" and ov: "generation r + 1 \<noteq> 0"
    and era: "era_inv (put (Some (mt_node_id (mp_target m))) r' {} T)"
  shows "tree_inv (put (Some (mt_node_id (mp_target m))) r' {} T)"
proof -
  let ?R = "mt_node_id (mp_target m)" and ?B = "mt_boundary (mp_target m)"
  let ?T' = "put (Some ?R) r' {} T"
  have s: "state_inv T" using inv by (simp add: tree_inv_state)
  note p = plan_left[OF s m]
  have R: "linked (tr_routes T) (Some ?R)" using p(5) by (simp add: plan_ok_def)
  note ok = linked_node[OF s r R]
  have b: "body_wf (nd_body r)" "range_wf r" using ok(1) by (simp_all add: node_ok_def)
  from c b(1) show ?thesis
  proof (cases rule: abandon_change_cases)
    case abandoned
    from reserved_plan[OF s r abandoned(1)] m have rb: "reserved_by T i m r" by auto
    then have nd: "\<not> drained_into (tr_node T) m" using g unfolding reserved_by_def by auto
    have tl: "tr_low T r = ?B" "tr_low T r' = ?B" using abandoned m nd by (simp_all add: owned_low_def)
    have w: "writes T (Some ?R) r r' {} ?T'" using r R tl abandoned(2) by (simp add: writes_def)
    have gh: "gate_holders r' = []" using s r abandoned unfolding state_inv_def era_inv_def gates_ok_def by fastforce
    have high: "nd_high_key r = Some h \<Longrightarrow> ?B < h" for h using rb by (simp add: reserved_by_def)
    show ?thesis
    proof (rule tree_inv_writes[OF w inv era gated_inv_put[OF s]])
      have "\<forall>k \<in> set (body_keys (nd_body r')). in_range r' k"
        using b(2) abandoned(2) by (auto simp: body_keys_split range_wf_def in_range_def)
      moreover have "\<not> nd_drained r" using rb by (simp add: reserved_by_def)
      ultimately show "node_ok r'" using ok(1) abandoned(2) high body_wf_split(2)[OF b(1)]
        by (auto simp: node_ok_def range_wf_def split: option.splits)
      have "links r' \<subseteq> links r" using abandoned(2) rb
        by (auto simp: links_def link_key_def body_from_def om_from_def reserved_by_def split: NodeBody.splits)
      then show "links r' \<subseteq> tr_routes ?T'" using ok(2) by auto
      show "starts_at (tr_low T r) r'" using ok(3) tl abandoned(2)
        by (auto simp: starts_at_def body_from_def om_from_def split: NodeBody.splits)
      show "r' \<noteq> x" if "tr_gated T v = Some (Some ?R, x)" for v x using ungated_fresh[OF s gh that] .
      show "reservation r' = Some j" if "reservation r = Some j" "tr_plans T j = Some m'"
        "tr_node T (Some (mp_source m')) = Some (mp_gated m')" for j m'
        using that abandoned(1) m g by auto
    qed (use abandoned in simp_all)
  next
    case fenced
    have f: "same_frame r r'" using fenced(4) by (simp add: same_frame_def)
    have w: "writes T (Some ?R) r r' {} ?T'" using r R same_frame_low[OF f] fenced(4) by (simp add: writes_def)
    have gen: "generation r < generation r'" using word_less_Suc[OF ov] fenced(4) by simp
    show ?thesis
    proof (rule tree_inv_writes[OF w inv era gated_inv_put[OF s]])
      show "node_ok r'" using ok(1) fenced(4) by (simp add: node_ok_locks)
      show "links r' \<subseteq> tr_routes ?T'" using ok(2) fenced(4) by (simp add: links_locks)
      show "starts_at (tr_low T r) r'" using ok(3) fenced(4) by (simp add: starts_at_def)
      show "r' \<noteq> x" if "tr_gated T v = Some (Some ?R, x)" for v x
      proof -
        have "gated_ok T v (Some ?R) x" using s that unfolding state_inv_def era_inv_def by blast
        then have "r = x \<or> past x v r" "gate_holders x = [v]" using r by (auto simp: gated_ok_def)
        moreover have "gate_holders r' = gate_holders r" using fenced(4) by simp
        ultimately show ?thesis using gen by (auto simp: past_def)
      qed
      show "\<exists>m'. tr_plans T j = Some m' \<and> Some ?R = Some (mt_node_id (mp_target m')) \<and> reserved_by ?T' j m' r'"
        if j: "reservation r' = Some j" for j
      proof -
        have "reservation r = Some j" using j fenced(4) by simp
        from reserved_plan[OF s r this] obtain m' where m': "tr_plans T j = Some m'"
          "Some ?R = Some (mt_node_id (mp_target m'))" "reserved_by T j m' r" by metis
        then have "reserved_by ?T' j m' r'" unfolding reserved_by_def writes_low(1)[OF w]
          using gen fenced(4) by auto
        then show ?thesis using m' by blast
      qed
    qed (use f gen in \<open>simp_all add: same_frame_def\<close>)
  qed
qed

section \<open>Draining the source\<close>

lemma links_drain: "links (drain t n) = {(t, nd_low_key n)}"
  by (auto simp: links_def link_key_def drain_def split: NodeBody.splits)

lemma node_ok_drain: "node_ok n \<Longrightarrow> node_ok (drain t n)"
  by (auto simp: node_ok_def drain_def range_wf_def body_wf_def body_keys_def lb_new_def lb_wf_def in_wf_def
      entries_wf_def in_range_def split: NodeBody.splits option.splits)

lemma drained_into_drain:
  assumes "N (Some q) = Some s" "\<not> nd_drained s"
  shows "drained_into (N(Some q \<mapsto> drain t x)) m' \<longleftrightarrow>
    (if mp_source m' = q then mt_node_id (mp_target m') = t else drained_into N m')"
  using assms by (auto simp: drained_into_def)

lemma node_ok_compact:
  assumes "node_ok n"
  shows "node_ok (compact n)"
proof (rule node_ok_frame[OF _ assms])
  have b: "body_wf (nd_body n)" "range_wf n" using assms by (simp_all add: node_ok_def)
  show "body_wf (nd_body (compact n))" by (rule compact_body(1)[OF b(1)])
  show "\<forall>k \<in> set (body_keys (nd_body (compact n))). in_range n k"
    using compact_body(3)[OF b(1)] b(2) by (auto simp: range_wf_def)
  show "body_keys (nd_body (compact n)) = []" if "nd_drained n"
    using compact_body(3)[OF b(1)] assms that by (simp add: node_ok_def)
qed (simp add: same_frame_def)

lemma drain_merges:
  assumes s: "state_inv T" and m: "tr_plans T i = Some m" and L: "tr_node T (Some (mp_source m)) = Some (mp_gated m)"
    and n': "gate_holders n' = []" "reservation n' = None" "nd_low_key n' = nd_low_key (mp_gated m)"
      "generation n' = generation (mp_gated m)"
    and r: "tr_node T (Some (mt_node_id (mp_target m))) = Some r" "reservation r = Some i"
    and N': "tr_node T' = (tr_node T)(Some (mp_source m) \<mapsto> n')"
    and lk: "\<And>q. linked (tr_routes T') q \<longleftrightarrow> linked (tr_routes T) q"
    and di: "\<And>m'. drained_into (tr_node T') m' \<longleftrightarrow> (if mp_source m' = mp_source m
      then mt_node_id (mp_target m') = mt_node_id (mp_target m) else drained_into (tr_node T) m')"
    and same: "tr_plans T' = tr_plans T" "tr_absorbed T' = tr_absorbed T" "tr_drained T' = insert i (tr_drained T)"
  shows "merges_inv T'"
proof -
  have pk: "plan_kept T m" using plan_left(4)[OF s m] .
  have g: "reservation (mp_gated m) = None" "\<not> nd_drained (mp_gated m)"
    using pk gated_node(2)[OF s] by (auto simp: plan_kept_def)
  have nds: "mp_source m' = mp_source m \<Longrightarrow> \<not> drained_into (tr_node T) m'" for m'
    using L g(2) by (simp add: drained_into_def)
  have plan: "plan_ok T' m'" if "tr_plans T j = Some m'" for j m'
    using plan_left(5)[OF s that] L n'(2-4) lk N'
    by (cases "mt_node_id (mp_target m') = mp_source m") (auto simp: plan_ok_def)
  have res: "\<exists>m'. tr_plans T j = Some m' \<and> q = Some (mt_node_id (mp_target m')) \<and> reserved_by T' j m' x"
    if x: "tr_node T' q = Some x" "reservation x = Some j" for q x j
  proof -
    have xq: "tr_node T q = Some x" using x N' n'(2) by (auto split: if_splits)
    from reserved_plan[OF s xq x(2)] obtain m' where
      m': "tr_plans T j = Some m'" "q = Some (mt_node_id (mp_target m'))" "reserved_by T j m' x" by metis
    have "drained_into (tr_node T') m' \<longrightarrow> drained_into (tr_node T) m' \<or> j = i"
      using m'(2) xq x(2) r by (auto simp: di)
    moreover have "drained_into (tr_node T) m' \<longrightarrow> drained_into (tr_node T') m'"
      using nds[of m'] by (simp add: di)
    ultimately have "reserved_by T' j m' x"
      using m'(3) unfolding reserved_by_def same by (auto split: if_splits)
    then show ?thesis using m' by blast
  qed
  have abs: "\<exists>x. tr_node T' (Some (mt_node_id (mp_target m'))) = Some x \<and> reservation x = Some j"
    if j: "tr_plans T j = Some m'" "j \<in> tr_absorbed T" "tr_node T' (Some (mp_source m')) = Some (mp_gated m')" for j m'
  proof -
    have "tr_gated T (mp_worker m') = Some (Some (mp_source m'), mp_gated m')"
      using plan_left(4)[OF s j(1)] by (simp add: plan_kept_def)
    then have "n' \<noteq> mp_gated m'" using ungated_fresh[OF s n'(1)] by blast
    then have "tr_node T (Some (mp_source m')) = Some (mp_gated m')" using j(3) N' by (auto split: if_splits)
    then obtain x where x: "tr_node T (Some (mt_node_id (mp_target m'))) = Some x" "reservation x = Some j"
      using s j(1,2) unfolding state_inv_def merges_inv_def by blast
    then have "mt_node_id (mp_target m') \<noteq> mp_source m" using L g(1) by auto
    then show ?thesis using x N' by simp
  qed
  show ?thesis unfolding merges_inv_def same using plan res abs by blast
qed

lemma drain_facts:
  assumes s: "state_inv T" and m: "tr_plans T i = Some m" and a: "i \<in> tr_absorbed T"
    and L: "tr_node T (Some (mp_source m)) = Some (mp_gated m)"
    and N': "tr_node T' = (tr_node T)(Some (mp_source m) \<mapsto> drain (mt_node_id (mp_target m)) (mp_left m))"
    and same: "tr_plans T' = tr_plans T"
  obtains r where "tr_node T (Some (mt_node_id (mp_target m))) = Some r" "reservation r = Some i" "reserved_by T i m r"
    "nd_body (mp_left m) = body_below (mt_boundary (mp_target m)) (nd_body r)"
    "\<And>m'. drained_into (tr_node T') m' \<longleftrightarrow> (if mp_source m' = mp_source m
       then mt_node_id (mp_target m') = mt_node_id (mp_target m) else drained_into (tr_node T) m')"
    "\<And>q x. tr_node T q = Some x \<Longrightarrow> q \<noteq> Some (mt_node_id (mp_target m)) \<Longrightarrow> tr_low T' x = tr_low T x"
    "tr_low T' r = nd_low_key (mp_gated m)" "tr_low T r = mt_boundary (mp_target m)"
proof -
  let ?R = "mt_node_id (mp_target m)"
  note I = s[unfolded state_inv_def] and p = plan_left[OF s m]
  have k: "\<not> nd_drained (mp_gated m)" using p(4) by (simp add: plan_kept_def)
  have low: "nd_low_key (mp_left m) = nd_low_key (mp_gated m)" using plan_low(1)[OF _ p(4)] I by simp
  obtain r where r: "tr_node T (Some ?R) = Some r" "reservation r = Some i"
    using I m a L unfolding merges_inv_def by blast
  from reserved_plan[OF s r] m have rb: "reserved_by T i m r" by auto
  have nd: "\<not> drained_into (tr_node T) m" using L k by (simp add: drained_into_def)
  have di: "drained_into (tr_node T') m' \<longleftrightarrow>
      (if mp_source m' = mp_source m then mt_node_id (mp_target m') = ?R else drained_into (tr_node T) m')" for m'
    unfolding N' using drained_into_drain[of "tr_node T", OF L k] by blast
  have nds: "mp_source m' = mp_source m \<Longrightarrow> \<not> drained_into (tr_node T) m'" for m'
    using L k by (simp add: drained_into_def)
  have tl: "tr_low T' x = tr_low T x" if x: "tr_node T q = Some x" "q \<noteq> Some ?R" for q x
  proof (cases "reservation x")
    case (Some j)
    from reserved_plan[OF s x(1) this] obtain m' where m': "tr_plans T j = Some m'" "q = Some (mt_node_id (mp_target m'))" by metis
    have "drained_into (tr_node T') m' = drained_into (tr_node T) m'"
      using m'(2) x(2) nds[of m'] by (simp add: di)
    then show ?thesis using Some m'(1) same by (simp add: owned_low_def)
  qed (simp add: owned_low_free)
  have lows: "tr_low T' r = nd_low_key (mp_gated m)" "tr_low T r = mt_boundary (mp_target m)"
    using r(2) m same rb low nd by (simp_all add: owned_low_def di reserved_by_def)
  have body: "nd_body (mp_left m) = body_below (mt_boundary (mp_target m)) (nd_body r)"
    using rb nd by (simp add: reserved_by_def)
  show thesis by (rule that[OF r rb body di]) (erule (1) tl | fact lows)+
qed

lemma inv_drain:
  assumes inv: "tree_inv T" and m: "tr_plans T i = Some m" and a: "i \<in> tr_absorbed T"
    and L: "tr_node T (Some (mp_source m)) = Some (mp_gated m)" and n': "n' = drain (mt_node_id (mp_target m)) (mp_left m)"
    and T': "T' = (put (Some (mp_source m)) n' (links n') T)\<lparr>tr_drained := insert i (tr_drained T)\<rparr>" and era: "era_inv T'"
  shows "tree_inv T'"
proof -
  let ?R = "mt_node_id (mp_target m)" and ?L = "Some (mp_source m)" and ?low = "nd_low_key (mp_gated m)"
  have s: "state_inv T" using inv by (simp add: tree_inv_state)
  note I = s[unfolded state_inv_def] and p = plan_left[OF s m]
  have k: "\<not> nd_drained (mp_gated m)" "mp_left m = compact (mp_gated m)" using p(4) by (simp_all add: plan_kept_def)
  have gi: "gated_inv T" using I by simp
  note low = plan_low[OF gi p(4)]
  have lL: "linked (tr_routes T) ?L" using linked_route[OF low(6)] .
  have RL: "?R \<noteq> mp_source m" and lR: "linked (tr_routes T) (Some ?R)" using p(5) by (simp_all add: plan_ok_def)
  have N': "tr_node T' = (tr_node T)(?L \<mapsto> n')" and G': "tr_routes T' = insert (?R, ?low) (tr_routes T)"
    and same: "tr_plans T' = tr_plans T" "tr_gated T' = tr_gated T" "tr_splits T' = tr_splits T" "tr_ids T' = tr_ids T"
      "tr_absorbed T' = tr_absorbed T" "tr_drained T' = insert i (tr_drained T)"
    using T' n' low(1) by (simp_all add: links_drain)
  obtain r where r: "tr_node T (Some ?R) = Some r" "reservation r = Some i" and rb: "reserved_by T i m r"
    and body: "nd_body (mp_left m) = body_below (mt_boundary (mp_target m)) (nd_body r)"
    and di: "\<And>m'. drained_into (tr_node T') m' \<longleftrightarrow>
      (if mp_source m' = mp_source m then mt_node_id (mp_target m') = ?R else drained_into (tr_node T) m')"
    and tl: "\<And>q x. tr_node T q = Some x \<Longrightarrow> q \<noteq> Some ?R \<Longrightarrow> tr_low T' x = tr_low T x"
    and tlr: "tr_low T' r = ?low" "tr_low T r = mt_boundary (mp_target m)"
    by (rule drain_facts[OF s m a L N'[unfolded n'] same(1)]) blast
  have lk: "linked (tr_routes T') q \<longleftrightarrow> linked (tr_routes T) q" for q
    using lR by (auto simp: G' linked_def split: option.splits)
  have n'f: "reservation n' = None" "nd_drained n'" "nd_low_key n' = ?low" "gate_holders n' = []" "node_ok n'"
    using n' low(1,3) k node_ok_drain[OF node_ok_compact] by simp_all
  have ids: "ids_inv T'" using I r(1) N' G' same(4) RL L by (auto simp: ids_inv_def)
  have root: "root_inv T'" using I N' by (simp add: root_inv_def)
  have gated: "gated_inv T'" by (rule gated_inv_same[OF gi same(2)]) (use G' in auto)
  have st: "starts_at ?low r" using body p(6,7) low(1)
    by (cases "nd_body r") (auto simp: starts_at_def body_below_def om_below_def)
  have links: "links_inv T'" unfolding links_inv_def
  proof (intro allI impI conjI)
    fix q x assume x: "tr_node T' q = Some x"
    consider "q = ?L" "x = n'" | "q = Some ?R" "x = r" | "q \<noteq> ?L" "q \<noteq> Some ?R" "tr_node T q = Some x"
      using x N' r(1) RL by (cases "q = ?L"; cases "q = Some ?R") auto
    then have "node_ok x \<and> (linked (tr_routes T) q \<longrightarrow> links x \<subseteq> tr_routes T' \<and> starts_at (tr_low T' x) x)"
    proof cases
      case 1
      then show ?thesis using n'f(2,5) n' G' low(1) by (simp add: links_drain starts_at_def)
    next
      case 2
      then show ?thesis using linked_node(1,2)[OF s r(1) lR] st tlr(1) G' by auto
    next
      case 3
      then show ?thesis using linked_node[OF s 3(3)] I tl[OF 3(3,2)] G' unfolding links_inv_def by auto
    qed
    then show "node_ok x" "linked (tr_routes T') q \<Longrightarrow> links x \<subseteq> tr_routes T'"
      "linked (tr_routes T') q \<Longrightarrow> starts_at (tr_low T' x) x" using lk by blast+
  qed
  have routes: "routes_inv T'" unfolding routes_inv_def
  proof (intro allI impI)
    fix q x assume x: "tr_node T' (Some q) = Some x" "linked (tr_routes T') (Some q)"
    have old: "(q, tr_low T y) \<in> tr_routes T" "(q, k) \<in> tr_routes T \<Longrightarrow> tr_low T y \<le> k"
      if "tr_node T (Some q) = Some y" for y k
      using I that x(2) lk unfolding routes_inv_def by blast+
    show "(q, tr_low T' x) \<in> tr_routes T' \<and> (\<forall>k. (q, k) \<in> tr_routes T' \<longrightarrow> tr_low T' x \<le> k)"
    proof (cases "q = ?R")
      case True
      then have "x = r" using x(1) N' r(1) RL by simp
      moreover have "?low \<le> k" if "(q, k) \<in> tr_routes T" for k
        using old(2)[of r k] that r(1) True tlr(2) low(2) by (auto intro: order.strict_implies_order order.strict_trans2)
      ultimately show ?thesis using True tlr(1) G' by auto
    next
      case False
      have "\<exists>y. tr_node T (Some q) = Some y \<and> tr_low T' x = tr_low T y"
      proof (cases "q = mp_source m")
        case True
        then have "x = n'" using x(1) N' by simp
        moreover have "reservation (mp_gated m) = None" using gated_node(2)[OF s] p(4) by (auto simp: plan_kept_def)
        ultimately have "tr_low T' x = tr_low T (mp_gated m)" using n'f(1,3) by (simp add: owned_low_free)
        then show ?thesis using True L by blast
      next
        case False
        then show ?thesis using x(1) N' tl[of "Some q" x] \<open>q \<noteq> ?R\<close> by auto
      qed
      then show ?thesis using old False G' by auto
    qed
  qed
  have merges: "merges_inv T'" 
    by (rule drain_merges[OF s m L n'f(4,1,3) _ r N' lk di same(1,5,6)]) (use n' k(2) in simp)
  have splits: "splits_inv T'"
    by (rule splits_put[OF s N' lL lk same(3,4)]) (use same(2) ungated_fresh[OF s n'f(4)] in blast)+
  have "state_inv T'" using era ids root gated links routes merges splits by (simp add: state_inv_def)
  then show ?thesis
  proof (rule tree_inv_step[OF inv])
    fix q x assume "tr_node T q = Some x" "nd_drained x"
    then show "\<exists>y. tr_node T' q = Some y \<and> nd_drained y \<and> nd_low_key y = nd_low_key x"
      using N' L k(1) by (cases "q = ?L") simp_all
  qed (use T' in auto)
qed

section \<open>Splits\<close>

lemma links_split:
  assumes "splits_at right_id n left right k" "\<not> nd_drained n"
    and hi: "nd_right_sibling n = None \<longleftrightarrow> nd_high_key n = None"
  shows "links left \<subseteq> insert (right_id, k) (links n)" "links right \<subseteq> links n" "(right_id, k) \<in> links left"
  using assms(2,3) splits_at_parts[OF assms(1)]
  by (auto simp: links_def link_key_def body_below_def body_from_def om_below_def om_from_def split: NodeBody.splits)

lemma node_ok_split:
  assumes s: "splits_at right_id n left right k" and n: "node_ok n"
  shows "\<not> nd_drained n" "node_ok left" "node_ok right"
proof -
  note p = splits_at_parts[OF s]
  have b: "body_wf (nd_body n)" "range_wf n" using n by (simp_all add: node_ok_def)
  have "set (body_keys (nd_body left)) \<noteq> {}" using s by (simp add: splits_at_def)
  moreover have "set (body_keys (nd_body left)) \<subseteq> set (body_keys (nd_body n))"
    unfolding p(1) body_keys_split by blast
  ultimately have "body_keys (nd_body n) \<noteq> []" by (metis list.set(1) subset_empty)
  then show d: "\<not> nd_drained n" using n by (auto simp: node_ok_def)
  note kr = splits_at_key_range[OF s b(2)]
  have k: "k' \<in> set (body_keys (nd_body n)) \<Longrightarrow> in_range n k'" for k' using b(2) by (simp add: range_wf_def)
  have r: "range_wf left" "range_wf right"
    using k unfolding range_wf_def in_range_def p body_keys_split by (auto split: option.splits)
  have w: "body_wf (nd_body left)" "body_wf (nd_body right)" using b(1) unfolding p by (auto intro: wf_intros)
  show "node_ok left" using r(1) w(1) d kr(1) unfolding node_ok_def by (simp add: p(3,5,7,11))
  show "node_ok right" using r(2) w(2) d n kr(2) unfolding node_ok_def by (simp add: p(4,6,8,12) split: option.splits)
qed

lemma starts_at_split:
  assumes s: "splits_at right_id n left right k" and n: "node_ok n" "starts_at (nd_low_key n) n"
    and k: "\<And>i. nd_body n = Index i \<Longrightarrow> k \<in> fst ` set (in_children i)"
  shows "starts_at (nd_low_key left) left" "starts_at (nd_low_key right) right"
proof -
  note p = splits_at_parts[OF s] and d = node_ok_split(1)[OF s n(1)]
  have "nd_low_key n < k" using splits_at_key_range(1)[OF s] n(1) by (simp add: node_ok_def)
  then show "starts_at (nd_low_key left) left" using n(2) d
    by (force simp: starts_at_def p body_below_def om_below_def split: NodeBody.splits)
  show "starts_at (nd_low_key right) right" using k d
    by (force simp: starts_at_def p body_from_def om_from_def split: NodeBody.splits)
qed

lemma divide_index_key:
  assumes "body_wf (nd_body n)" "divide at right_id n = Some (left, right, k)" "nd_body n = Index i"
  shows "k \<in> fst ` set (in_children i)"
  using assms split_splits_at(2)[of n right_id left right k]
  by (auto simp: divide_def split_leaf_at_def body_keys_def split: option.splits)

text \<open>What the plan of a split of a gated node creates and links.\<close>

definition split_fine :: "routes \<Rightarrow> node_ref \<Rightarrow> node \<Rightarrow> split_plan \<Rightarrow> bool" where
  "split_fine G p n sp \<longleftrightarrow>
     (\<forall>(i, c) \<in> set (sp_created sp). node_ok c \<and> starts_at (nd_low_key c) c \<and> reservation c = None \<and> gate_holders c = []
        \<and> \<not> nd_drained c
        \<and> links c \<subseteq> G \<union> {(i, nd_low_key c) |i c. (i, c) \<in> set (sp_created sp)}
        \<and> (i, nd_low_key c) \<in> links (sp_source sp))
     \<and> \<not> nd_drained n \<and> \<not> nd_drained (sp_source sp) \<and> node_ok (sp_source sp) \<and> nd_low_key (sp_source sp) = nd_low_key n
     \<and> starts_at (nd_low_key n) (sp_source sp) \<and> reservation (sp_source sp) = None \<and> gate_holders (sp_source sp) = []
     \<and> links (sp_source sp) \<subseteq> G \<union> {(i, nd_low_key c) |i c. (i, c) \<in> set (sp_created sp)}
     \<and> (case p of None \<Rightarrow> root_shape (sp_source sp) | Some _ \<Rightarrow> generation (sp_source sp) = generation n)"

lemma ungate_node:
  "node_ok (ungate w n) = node_ok n" "starts_at k (ungate w n) = starts_at k n" "links (ungate w n) = links n"
  by (simp_all add: node_ok_def range_wf_def in_range_def starts_at_def links_def link_key_def cong: option.case_cong)

lemma root_split_index:
  assumes "k \<noteq> []" "id_ok (nid_bytes l)" "id_ok (nid_bytes r)"
  shows "node_ok (node_index (in_from_children [([], l), (k, r)]))"
    "starts_at [] (node_index (in_from_children [([], l), (k, r)]))"
    "links (node_index (in_from_children [([], l), (k, r)])) = {(l, []), (r, k)}"
    "root_shape (node_index (in_from_children [([], l), (k, r)]))"
    "gate_holders (node_index i) = []"
proof -
  have "[] < k" using assms(1) by (cases k) auto
  then have c: "in_children (in_from_children [([], l), (k, r)]) = [([], l), (k, r)]"
    by (simp add: in_from_children_def om_of_list_def)
  show "node_ok (node_index (in_from_children [([], l), (k, r)]))"
    using \<open>[] < k\<close> assms(2,3)
    by (auto simp: node_ok_def node_index_def body_wf_def in_wf_def c range_wf_def in_range_def body_keys_def)
  show "starts_at [] (node_index (in_from_children [([], l), (k, r)]))"
    by (simp add: starts_at_def node_index_def c)
  show "links (node_index (in_from_children [([], l), (k, r)])) = {(l, []), (r, k)}"
    by (auto simp: links_def node_index_def c)
  show "root_shape (node_index (in_from_children [([], l), (k, r)]))"
    by (simp add: root_shape_def node_index_def nl_default_def)
  show "gate_holders (node_index i) = []" by (simp add: node_index_def nl_default_def eg_defs ls_default_def)
qed

lemma split_kept_fine:
  assumes s: "state_inv T" and k: "split_kept T w sp" and g: "tr_gated T w = Some (p, n)"
    and ids: "\<forall>(i, c) \<in> set (sp_created sp). id_ok (nid_bytes i)"
  shows "split_fine (tr_routes T) p n sp"
proof -
  note gn = gated_node[OF s g]
  have n: "node_ok n" "links n \<subseteq> tr_routes T" "starts_at (nd_low_key n) n" "p = None \<Longrightarrow> root_shape n"
    using gn(4) by (auto simp: gated_fine_def)
  have b: "body_wf (nd_body n)" using n(1) by (simp add: node_ok_def)
  note ok = node_ok_compact[OF n(1)] and bc = compact_body(1)[OF b] and lc = compact_links[OF b]
  from k g obtain at left_id right_id where plan: "(case p of
       Some _ \<Rightarrow> nonroot_split_plan at right_id w (compact n)
     | None \<Rightarrow> root_split_plan at left_id right_id w (compact n)) = Some sp"
    by (auto simp: split_kept_def)
  obtain left right key where d: "divide at right_id (compact n) = Some (left, right, key)"
    using plan by (auto simp: nonroot_split_plan_def root_split_plan_def split: option.splits)
  have sp: "splits_at right_id (compact n) left right key" by (rule divide_splits_at[OF bc d])
  note q = splits_at_parts[OF sp] and ns = node_ok_split[OF sp ok]
  have st: "starts_at (nd_low_key left) left" "starts_at (nd_low_key right) right"
    using starts_at_split[OF sp ok] n(3) lc(2) divide_index_key[OF bc d] by simp_all
  have hi: "nd_right_sibling (compact n) = None \<longleftrightarrow> nd_high_key (compact n) = None"
    using ok ns(1) by (simp add: node_ok_def)
  note lk = links_split[OF sp ns(1) hi]
  have lks: "links left \<subseteq> insert (right_id, key) (tr_routes T)" "links right \<subseteq> tr_routes T"
    using lk(1,2) n(2) lc(1) by auto
  have u: "gate_holders (ungate w left) = []" using q(9) gn(1) by (simp add: ungate_holder)
  have low: "[] \<noteq> key" using splits_at_key_range(1)[OF sp] ok by (auto simp: node_ok_def)
  show ?thesis
  proof (cases p)
    case (Some r)
    then have "sp = \<lparr>sp_created = [(right_id, right)], sp_source = ungate w left, sp_split_key = key\<rparr>"
      using plan d by (simp add: nonroot_split_plan_def)
    then show ?thesis using Some ns st lks lk(3) u q(3,4,9-12) gn(2)
      by (auto simp: split_fine_def ungate_node)
  next
    case None
    then have e: "sp = \<lparr>sp_created = [(left_id, ungate w left), (right_id, right)],
        sp_source = node_index (in_from_children [([], left_id), (key, right_id)]), sp_split_key = key\<rparr>"
      using plan d by (simp add: root_split_plan_def)
    then have i: "id_ok (nid_bytes left_id)" "id_ok (nid_bytes right_id)" using ids by auto
    note ri = root_split_index[OF low[symmetric] i]
    have "nd_low_key n = []" using n(4) None by (simp add: root_shape_def)
    then show ?thesis using None ns st lks u q(3,4,9-12) gn(2) ri ri(4)[unfolded root_shape_def]
      by (auto simp: split_fine_def ungate_node e) (metis ungate_frame(1))
  qed
qed

lemma link_merges:
  assumes s: "state_inv T" and g: "tr_gated T w = Some (p, n)" and n: "tr_node T p = Some n"
    and N': "tr_node T' = (tr_node T)(p \<mapsto> x)"
    and x: "nd_low_key x = nd_low_key n" "reservation x = None" "gate_holders x = []" "p \<noteq> None \<Longrightarrow> generation x = generation n"
    and lk: "\<And>q. linked (tr_routes T) q \<Longrightarrow> linked (tr_routes T') q"
    and di: "\<And>m. drained_into (tr_node T') m = drained_into (tr_node T) m"
    and same: "tr_plans T' = tr_plans T" "tr_absorbed T' = tr_absorbed T" "tr_drained T' = tr_drained T"
  shows "merges_inv T'"
proof -
  have plan: "plan_ok T' m" if "tr_plans T i = Some m" for i m
    using plan_left(5)[OF s that] n x lk N' by (cases "p = Some (mt_node_id (mp_target m))") (auto simp: plan_ok_def)
  have res: "\<exists>m. tr_plans T i = Some m \<and> q = Some (mt_node_id (mp_target m)) \<and> reserved_by T' i m y"
    if y: "tr_node T' q = Some y" "reservation y = Some i" for q y i
  proof -
    have yq: "tr_node T q = Some y" using y N' x(2) by (auto split: if_splits)
    from reserved_plan[OF s yq y(2)] obtain m where
      m: "tr_plans T i = Some m" "q = Some (mt_node_id (mp_target m))" "reserved_by T i m y" by metis
    then show ?thesis unfolding reserved_by_def same di by blast
  qed
  have abs: "\<exists>r. tr_node T' (Some (mt_node_id (mp_target m))) = Some r \<and> reservation r = Some i"
    if i: "tr_plans T i = Some m" "i \<in> tr_absorbed T" "tr_node T' (Some (mp_source m)) = Some (mp_gated m)" for i m
  proof -
    have "tr_gated T (mp_worker m) = Some (Some (mp_source m), mp_gated m)"
      using plan_left(4)[OF s i(1)] by (simp add: plan_kept_def)
    then have "x \<noteq> mp_gated m" using ungated_fresh[OF s x(3)] by blast
    then have "tr_node T (Some (mp_source m)) = Some (mp_gated m)" using i(3) N' by (auto split: if_splits)
    then obtain r where r: "tr_node T (Some (mt_node_id (mp_target m))) = Some r" "reservation r = Some i"
      using s i(1,2) unfolding state_inv_def merges_inv_def by blast
    then have "Some (mt_node_id (mp_target m)) \<noteq> p" using n gated_node(2)[OF s g] by auto
    then show ?thesis using r N' by auto
  qed
  show ?thesis unfolding merges_inv_def same using plan res abs by blast
qed

lemma created_onceD:
  assumes "created_once S" "a \<in> S" "b \<in> S" "(i, c) \<in> set (sp_created (snd a))" "(i, c') \<in> set (sp_created (snd b))"
  shows "a = b"
  using assms unfolding created_once_def by (metis fst_conv imageI)

lemma link_facts:
  assumes s: "state_inv T" and sp: "(w, sp) \<in> tr_splits T" and g: "tr_gated T w = Some (p, n)" and n: "tr_node T p = Some n"
    and T': "T' = put p (sp_source sp) (links (sp_source sp) \<union> \<Union> (links ` snd ` set (sp_created sp))) T"
  shows "split_kept T w sp" "distinct (map fst (sp_created sp))" "split_fine (tr_routes T) p n sp"
    "\<And>i c. (i, c) \<in> set (sp_created sp) \<Longrightarrow>
       i \<in> tr_ids T \<and> tr_node T (Some i) = Some c \<and> \<not> linked (tr_routes T) (Some i) \<and> p \<noteq> Some i"
    "tr_routes T' = tr_routes T \<union> {(i, nd_low_key c) |i c. (i, c) \<in> set (sp_created sp)}"
    "\<And>m. drained_into (tr_node T') m = drained_into (tr_node T) m" "\<And>y. tr_low T' y = tr_low T y"
    "\<And>q. linked (tr_routes T') q \<longleftrightarrow> linked (tr_routes T) q \<or> (\<exists>i c. (i, c) \<in> set (sp_created sp) \<and> q = Some i)"
proof -
  let ?x = "sp_source sp" and ?C = "set (sp_created sp)"
  note I = s[unfolded state_inv_def]
  show kept: "split_kept T w sp" "distinct (map fst (sp_created sp))" using I sp unfolding era_inv_def by blast+
  show cr: "i \<in> tr_ids T \<and> tr_node T (Some i) = Some c \<and> \<not> linked (tr_routes T) (Some i) \<and> p \<noteq> Some i"
    if "(i, c) \<in> ?C" for i c
  proof -
    have "i \<in> tr_ids T" "tr_node T (Some i) = Some c" "\<not> linked (tr_routes T) (Some i)"
      using I sp g n that unfolding splits_inv_def by blast+
    then show ?thesis using gated_node(3)[OF s g] by auto
  qed
  then have "\<forall>(i, c) \<in> ?C. id_ok (nid_bytes i)" using I by (auto simp: ids_inv_def)
  from split_kept_fine[OF s kept(1) g this] show sf: "split_fine (tr_routes T) p n sp" .
  note f = sf[unfolded split_fine_def]
  show G': "tr_routes T' = tr_routes T \<union> {(i, nd_low_key c) |i c. (i, c) \<in> ?C}"
  proof -
    have "(i, nd_low_key c) \<in> links ?x" if "(i, c) \<in> ?C" for i c using f that by blast
    moreover have "links ?x \<subseteq> tr_routes T \<union> {(i, nd_low_key c) |i c. (i, c) \<in> ?C}" using f by blast
    moreover have "links c \<subseteq> tr_routes T \<union> {(i, nd_low_key c) |i c. (i, c) \<in> ?C}" if "(i, c) \<in> ?C" for i c
      using f that by blast
    ultimately show ?thesis using T' by fastforce
  qed
  show di: "drained_into (tr_node T') m = drained_into (tr_node T) m" for m
    using T' n f by (auto simp: drained_into_def)
  show "tr_low T' y = tr_low T y" for y using T' di by (simp add: owned_low_def split: option.splits)
  show "linked (tr_routes T') q \<longleftrightarrow> linked (tr_routes T) q \<or> (\<exists>i c. (i, c) \<in> ?C \<and> q = Some i)" for q
    unfolding G' linked_def by (auto split: option.splits)
qed

lemma inv_split_link:
  assumes inv: "tree_inv T" and sp: "(w, sp) \<in> tr_splits T" and g: "tr_gated T w = Some (p, n)" and n: "tr_node T p = Some n"
    and T': "T' = put p (sp_source sp) (links (sp_source sp) \<union> \<Union> (links ` snd ` set (sp_created sp))) T"
    and era: "era_inv T'"
  shows "tree_inv T'"
proof -
  let ?x = "sp_source sp" and ?C = "set (sp_created sp)"
  have s: "state_inv T" using inv by (simp add: tree_inv_state)
  note I = s[unfolded state_inv_def] and gn = gated_node[OF s g]
  note lf = link_facts[OF s sp g n T']
  note kept = lf(1,2) and f = lf(3)[unfolded split_fine_def] and G' = lf(5) and di = lf(6) and tl = lf(7) and lkd = lf(8)
  have cr: "i \<in> tr_ids T" "tr_node T (Some i) = Some c" "\<not> linked (tr_routes T) (Some i)" and pC: "p \<noteq> Some i"
    if "(i, c) \<in> ?C" for i c using lf(4)[OF that] by simp_all
  have N': "tr_node T' = (tr_node T)(p \<mapsto> ?x)"
    and same: "tr_gated T' = tr_gated T" "tr_plans T' = tr_plans T" "tr_splits T' = tr_splits T" "tr_ids T' = tr_ids T"
      "tr_absorbed T' = tr_absorbed T" "tr_drained T' = tr_drained T" and G: "tr_routes T \<subseteq> tr_routes T'"
    using T' by auto
  have fp: "node_ok ?x" "nd_low_key ?x = nd_low_key n" "starts_at (nd_low_key n) ?x" "reservation ?x = None" "gate_holders ?x = []"
    "p = None \<Longrightarrow> root_shape ?x" "p \<noteq> None \<Longrightarrow> generation ?x = generation n" using f by (auto split: option.splits)
  have fc: "node_ok c" "starts_at (nd_low_key c) c" "reservation c = None" "links c \<subseteq> tr_routes T'" if "(i, c) \<in> ?C" for i c
    using f that unfolding G' by blast+
  have lx: "links ?x \<subseteq> tr_routes T'" using T' by auto
  have fresh: "?x \<noteq> y" if "tr_gated T v = Some (p, y)" for v y using ungated_fresh[OF s fp(5) that] .
  have cases: "q = p \<and> y = ?x \<or> (\<exists>i. q = Some i \<and> (i, y) \<in> ?C) \<or> q \<noteq> p \<and> (\<forall>i c. (i, c) \<in> ?C \<longrightarrow> q \<noteq> Some i) \<and> tr_node T q = Some y"
    if "tr_node T' q = Some y" for q y
    using that N' cr(2) by (cases "q = p") auto
  have ids: "ids_inv T'"
  proof -
    have "tr_node T' (Some q) \<noteq> None" if "(q, k) \<in> tr_routes T'" for q k
      using that I N' cr(2) unfolding G' by (auto simp: ids_inv_def)
    moreover have "q \<in> tr_ids T" if "tr_node T' (Some q) \<noteq> None" for q
      using that I N' n by (cases "Some q = p") (auto simp: ids_inv_def)
    ultimately show ?thesis using I unfolding ids_inv_def same by auto
  qed
  have root: "root_inv T'" using I N' fp(6) by (auto simp: root_inv_def)
  have gated: "gated_inv T'" by (rule gated_inv_same[OF _ same(1) G]) (use I in simp)
  have links: "links_inv T'" unfolding links_inv_def
  proof (intro allI impI)
    fix q y assume "tr_node T' q = Some y"
    from cases[OF this] consider "q = p" "y = ?x" | i where "q = Some i" "(i, y) \<in> ?C"
      | "\<forall>i c. (i, c) \<in> ?C \<longrightarrow> q \<noteq> Some i" "tr_node T q = Some y" by blast
    then show "node_ok y \<and> (linked (tr_routes T') q \<longrightarrow> links y \<subseteq> tr_routes T' \<and> starts_at (tr_low T' y) y)"
    proof cases
      case 1
      then show ?thesis using fp lx by (simp add: owned_low_free)
    next
      case 2
      then show ?thesis using fc by (simp add: owned_low_free)
    next
      case 3
      have "linked (tr_routes T') q \<Longrightarrow> linked (tr_routes T) q" using lkd 3(1) by blast
      then show ?thesis using I 3(2) G unfolding links_inv_def tl by blast
    qed
  qed
  have routes: "routes_inv T'" unfolding routes_inv_def
  proof (intro allI impI)
    fix q y assume y: "tr_node T' (Some q) = Some y" "linked (tr_routes T') (Some q)"
    from cases[OF y(1)] consider "Some q = p" "y = ?x" | "(q, y) \<in> ?C"
      | "\<forall>i c. (i, c) \<in> ?C \<longrightarrow> q \<noteq> i" "tr_node T (Some q) = Some y" by blast
    then show "(q, tr_low T' y) \<in> tr_routes T' \<and> (\<forall>k. (q, k) \<in> tr_routes T' \<longrightarrow> tr_low T' y \<le> k)"
    proof cases
      case 1
      have "(q, tr_low T n) \<in> tr_routes T \<and> (\<forall>k. (q, k) \<in> tr_routes T \<longrightarrow> tr_low T n \<le> k)"
        using I 1(1) n gn(3) unfolding routes_inv_def by blast
      then show ?thesis using 1 pC fp(2,4) gn(2) unfolding G' by (auto simp: owned_low_free)
    next
      case 2
      have low: "tr_low T' y = nd_low_key y" using fc(3)[OF 2] by (simp add: owned_low_free)
      have "k = nd_low_key y" if k: "(q, k) \<in> tr_routes T'" for k
      proof -
        have "(q, k) \<notin> tr_routes T" using cr(3)[OF 2] linked_route by blast
        then obtain c where "(q, c) \<in> ?C" "k = nd_low_key c" using k unfolding G' by blast
        then show ?thesis using 2 kept(2) by (metis eq_key_imp_eq_value)
      qed
      moreover have "(q, nd_low_key y) \<in> tr_routes T'" using 2 unfolding G' by blast
      ultimately show ?thesis unfolding low by blast
    next
      case 3
      then have "linked (tr_routes T) (Some q)" using y(2) lkd by blast
      then show ?thesis using I 3 unfolding routes_inv_def tl G' by blast
    qed
  qed
  have merges: "merges_inv T'"
    by (rule link_merges[OF s g n N' fp(2,4,5) fp(7) _ di same(2,5,6)]) (use lkd in auto)
  have splits: "splits_inv T'" unfolding splits_inv_def same
  proof (intro conjI allI impI ballI)
    show "created_once (tr_splits T)" using I by (simp add: splits_inv_def)
    fix v sp' r y x assume v: "(v, sp') \<in> tr_splits T" "tr_gated T v = Some (r, y)" and x: "x \<in> set (sp_created sp')"
    obtain i c where xi: "x = (i, c)" by (cases x)
    have o: "i \<in> tr_ids T" "tr_node T r = Some y \<Longrightarrow> tr_node T (Some i) = Some c \<and> \<not> linked (tr_routes T) (Some i)"
      using I v x xi unfolding splits_inv_def by blast+
    have "tr_node T' (Some i) = Some c \<and> \<not> linked (tr_routes T') (Some i)" if "tr_node T' r = Some y"
    proof -
      have "r \<noteq> p" using that N' fresh v(2) by auto
      then have q: "tr_node T (Some i) = Some c" "\<not> linked (tr_routes T) (Some i)" using o(2) that N' by auto
      have "(i, c') \<notin> ?C" for c'
      proof
        assume "(i, c') \<in> ?C"
        moreover have "created_once (tr_splits T)" using I by (simp add: splits_inv_def)
        ultimately have "(v, sp') = (w, sp)" using created_onceD[OF _ v(1) sp] x xi by simp
        then show False using v(2) g \<open>r \<noteq> p\<close> by simp
      qed
      then have "\<not> linked (tr_routes T') (Some i)" using q(2) lkd by blast
      moreover have "Some i \<noteq> p" using q(2) gn(3) by blast
      ultimately show ?thesis using q(1) N' by simp
    qed
    then show "case x of (i, c) \<Rightarrow> i \<in> tr_ids T \<and> (tr_node T' r = Some y \<longrightarrow>
        tr_node T' (Some i) = Some c \<and> \<not> linked (tr_routes T') (Some i))" using o(1) xi by simp
  qed
  have "state_inv T'" using era ids root gated links routes merges splits by (simp add: state_inv_def)
  then show ?thesis
  proof (rule tree_inv_step[OF inv])
    fix q y assume "tr_node T q = Some y" "nd_drained y"
    then show "\<exists>z. tr_node T' q = Some z \<and> nd_drained z \<and> nd_low_key z = nd_low_key y"
      using N' n f by (cases "q = p") simp_all
  qed (use T' in auto)
qed

text \<open>Nodes that no route leads to come and go freely.\<close>

lemma inv_unlinked:
  assumes inv: "tree_inv T" and era: "era_inv T'"
    and N': "\<And>q. linked (tr_routes T) q \<Longrightarrow> tr_node T' q = tr_node T q"
    and new: "\<And>q x. tr_node T' q = Some x \<Longrightarrow> tr_node T q = Some x \<or> node_ok x \<and> reservation x = None"
    and same: "tr_routes T' = tr_routes T" "tr_plans T' = tr_plans T" "tr_gated T' = tr_gated T"
      "tr_absorbed T' = tr_absorbed T" "tr_drained T' = tr_drained T"
    and ids: "\<forall>q \<in> tr_ids T'. id_ok (nid_bytes q)" "\<And>q. tr_node T' (Some q) \<noteq> None \<Longrightarrow> q \<in> tr_ids T'"
    and splits: "splits_inv T'" and h: "tr_history T' = tr_history T @ [(tr_node T', tr_routes T')]"
  shows "tree_inv T'"
proof -
  have s: "state_inv T" using inv by (simp add: tree_inv_state)
  note I = s[unfolded state_inv_def]
  have src: "linked (tr_routes T) (Some (mp_source m))" "linked (tr_routes T) (Some (mt_node_id (mp_target m)))"
    if "tr_plans T i = Some m" for i m
    using plan_left(4,5)[OF s that] gated_node(3)[OF s] by (auto simp: plan_kept_def plan_ok_def)
  have di: "drained_into (tr_node T') m = drained_into (tr_node T) m" if "tr_plans T i = Some m" for i m
    using N'[OF src(1)[OF that]] by (simp add: drained_into_def)
  have tl: "tr_low T' x = tr_low T x" for x using di same(2) by (simp add: owned_low_def split: option.splits)
  have "ids_inv T'"
  proof -
    have "tr_node T' (Some q) \<noteq> None" if "(q, k) \<in> tr_routes T" for q k
      using N'[OF linked_route[OF that]] I that by (auto simp: ids_inv_def)
    then show ?thesis using ids unfolding ids_inv_def same by blast
  qed
  moreover have "links_inv T'" unfolding links_inv_def tl unfolding same
  proof (intro allI impI)
    fix q x assume x: "tr_node T' q = Some x"
    have "node_ok x" using new[OF x] I unfolding links_inv_def by blast
    moreover have "links x \<subseteq> tr_routes T \<and> starts_at (tr_low T x) x" if "linked (tr_routes T) q"
      using linked_node(2,3)[OF s, of q x] N' x that by simp
    ultimately show "node_ok x \<and> (linked (tr_routes T) q \<longrightarrow> links x \<subseteq> tr_routes T \<and> starts_at (tr_low T x) x)" by blast
  qed
  moreover have "routes_inv T'" unfolding routes_inv_def tl unfolding same
  proof (intro allI impI)
    fix q x assume "tr_node T' (Some q) = Some x" and l: "linked (tr_routes T) (Some q)"
    then have "tr_node T (Some q) = Some x" using N' by simp
    then show "(q, tr_low T x) \<in> tr_routes T \<and> (\<forall>k. (q, k) \<in> tr_routes T \<longrightarrow> tr_low T x \<le> k)"
      using I l unfolding routes_inv_def by blast
  qed
  moreover have "root_inv T'" using I N'[of None] by (simp add: root_inv_def linked_def)
  moreover have "gated_inv T'" using I unfolding gated_inv_def same by blast
  moreover have "merges_inv T'"
  proof -
    have "plan_ok T' m" if "tr_plans T i = Some m" for i m
      using plan_left(5)[OF s that] N'[OF src(2)[OF that]] unfolding plan_ok_def same by simp
    moreover have "\<exists>m. tr_plans T i = Some m \<and> q = Some (mt_node_id (mp_target m)) \<and> reserved_by T' i m x"
      if x: "tr_node T' q = Some x" "reservation x = Some i" for q x i
    proof -
      have "tr_node T q = Some x" using new[OF x(1)] x(2) by auto
      from reserved_plan[OF s this x(2)] obtain m where
        m: "tr_plans T i = Some m" "q = Some (mt_node_id (mp_target m))" "reserved_by T i m x" by metis
      then show ?thesis using di[OF m(1)] unfolding reserved_by_def same by auto
    qed
    moreover have "\<exists>r. tr_node T' (Some (mt_node_id (mp_target m))) = Some r \<and> reservation r = Some i"
      if "tr_plans T i = Some m" "i \<in> tr_absorbed T" "tr_node T' (Some (mp_source m)) = Some (mp_gated m)" for i m
      using that N'[OF src(1)[OF that(1)]] N'[OF src(2)[OF that(1)]] I unfolding merges_inv_def by simp
    ultimately show ?thesis unfolding merges_inv_def same by blast
  qed
  ultimately have "state_inv T'" using era splits by (simp add: state_inv_def)
  then show ?thesis
    by (rule tree_inv_step[OF inv _ h]) (use N' same(1) in auto)
qed

lemma inv_split_undo:
  assumes inv: "tree_inv T" and sp: "(w, sp) \<in> tr_splits T" "tr_gated T w = Some (p, n)" "tr_node T p \<noteq> Some n"
    and i: "i \<in> fst ` set (sp_created sp)" "\<not> linked (tr_routes T) (Some i)"
    and T': "T' = moment (T\<lparr>tr_node := (tr_node T)(Some i := None)\<rparr>)" and era: "era_inv T'"
  shows "tree_inv T'"
proof (rule inv_unlinked[OF inv era])
  have s: "state_inv T" using inv by (simp add: tree_inv_state)
  note I = s[unfolded state_inv_def]
  show "splits_inv T'" unfolding splits_inv_def
  proof (intro conjI allI impI ballI)
    show "created_once (tr_splits T')" using I T' by (simp add: splits_inv_def)
    fix v sp' r y x assume v: "(v, sp') \<in> tr_splits T'" "tr_gated T' v = Some (r, y)" and x: "x \<in> set (sp_created sp')"
    obtain j c where xj: "x = (j, c)" by (cases x)
    have v': "(v, sp') \<in> tr_splits T" "tr_gated T v = Some (r, y)" using v T' by simp_all
    have o: "j \<in> tr_ids T" "tr_node T r = Some y \<longrightarrow> tr_node T (Some j) = Some c \<and> \<not> linked (tr_routes T) (Some j)"
      using I v' x xj unfolding splits_inv_def by blast+
    have "tr_node T' (Some j) = Some c \<and> \<not> linked (tr_routes T) (Some j)" if "tr_node T' r = Some y"
    proof -
      have r: "tr_node T r = Some y" using that T' by (auto split: if_splits)
      have "j \<noteq> i"
      proof
        assume "j = i"
        then obtain c' where "(j, c') \<in> set (sp_created sp)" using i(1) by auto
        moreover have "created_once (tr_splits T)" using I by (simp add: splits_inv_def)
        ultimately have "(v, sp') = (w, sp)" using created_onceD[OF _ v'(1) sp(1)] x xj by simp
        then show False using v'(2) sp(2,3) r by simp
      qed
      then show ?thesis using o(2) r T' by simp
    qed
    then show "case x of (i, c) \<Rightarrow> i \<in> tr_ids T' \<and> (tr_node T' r = Some y \<longrightarrow>
        tr_node T' (Some i) = Some c \<and> \<not> linked (tr_routes T') (Some i))" using o(1) xj T' by simp
  qed
  show "\<forall>q \<in> tr_ids T'. id_ok (nid_bytes q)" using I T' by (simp add: ids_inv_def)
  show "q \<in> tr_ids T'" if "tr_node T' (Some q) \<noteq> None" for q
    using that I T' by (auto simp: ids_inv_def split: if_splits)
  show "tr_node T' q = tr_node T q" if "linked (tr_routes T) q" for q using that i(2) T' by auto
  show "tr_node T q = Some x \<or> node_ok x \<and> reservation x = None" if "tr_node T' q = Some x" for q x
    using that T' by (auto split: if_splits)
qed (use T' in simp_all)

lemma inv_split_create:
  assumes inv: "tree_inv T" and g: "tr_gated T w = Some (p, n)"
    and plan: "(case p of
       Some _ \<Rightarrow> nonroot_split_plan at right_id w (compact n)
     | None \<Rightarrow> root_split_plan at left_id right_id w (compact n)) = Some sp"
    and d: "distinct (map fst (sp_created sp))"
    and new: "\<forall>i \<in> fst ` set (sp_created sp). i \<notin> tr_ids T \<and> tr_node T (Some i) = None \<and> id_ok (nid_bytes i)"
    and T': "T' = moment (T\<lparr>tr_node := (\<lambda>q. case q of None \<Rightarrow> tr_node T None
           | Some i \<Rightarrow> (case map_of (sp_created sp) i of None \<Rightarrow> tr_node T q | Some c \<Rightarrow> Some c)),
         tr_ids := tr_ids T \<union> fst ` set (sp_created sp), tr_splits := insert (w, sp) (tr_splits T)\<rparr>)"
    and era: "era_inv T'"
  shows "tree_inv T'"
proof (rule inv_unlinked[OF inv era])
  let ?C = "set (sp_created sp)"
  have s: "state_inv T" using inv by (simp add: tree_inv_state)
  note I = s[unfolded state_inv_def]
  have kept: "split_kept T w sp" using g plan unfolding split_kept_def by blast
  have "\<forall>(i, c) \<in> ?C. id_ok (nid_bytes i)" using new by force
  note f = split_kept_fine[OF s kept g this, unfolded split_fine_def]
  have at: "tr_node T' (Some i) = Some c" if "(i, c) \<in> ?C" for i c using that d T' by simp
  have old: "tr_node T' q = tr_node T q" if "\<And>i. q = Some i \<Longrightarrow> i \<notin> fst ` ?C" for q
  proof (cases q)
    case (Some i)
    then have "map_of (sp_created sp) i = None" using that by (simp add: map_of_eq_None_iff)
    then show ?thesis using Some T' by simp
  qed (simp add: T')
  have unl: "\<not> linked (tr_routes T) (Some i)" if "i \<in> fst ` ?C" for i
  proof
    assume "linked (tr_routes T) (Some i)"
    then have "tr_node T (Some i) \<noteq> None" using I by (auto simp: ids_inv_def linked_def)
    then show False using bspec[OF new that] by simp
  qed
  have fresh: "i \<notin> tr_ids T" if "i \<in> fst ` ?C" for i using bspec[OF new that] by simp
  have keep: "tr_node T' q = tr_node T q" if "linked (tr_routes T) q" for q
    by (rule old) (use unl that in blast)
  then show "tr_node T' q = tr_node T q" if "linked (tr_routes T) q" for q using that .
  show "tr_node T q = Some x \<or> node_ok x \<and> reservation x = None" if x: "tr_node T' q = Some x" for q x
  proof (cases "\<exists>i c. q = Some i \<and> (i, c) \<in> ?C")
    case True
    then obtain i c where c: "q = Some i" "(i, c) \<in> ?C" by blast
    then have "x = c" using at[OF c(2)] x by simp
    moreover have "node_ok c \<and> reservation c = None" using f c(2) by blast
    ultimately show ?thesis by simp
  next
    case False
    then have "tr_node T' q = tr_node T q" by (intro old) force
    then show ?thesis using x by simp
  qed
  show "splits_inv T'" unfolding splits_inv_def
  proof (intro conjI allI impI ballI)
    have ids: "i \<in> tr_ids T" if ai: "a \<in> tr_splits T" "i \<in> fst ` set (sp_created (snd a))" for a i
    proof -
      obtain v sp' c where a: "a = (v, sp')" "(i, c) \<in> set (sp_created sp')" using ai(2) by (cases a) auto
      have "split_kept T v sp'" using I ai(1) a(1) by (auto simp: era_inv_def)
      then obtain r y where "tr_gated T v = Some (r, y)" unfolding split_kept_def by blast
      then show ?thesis using I ai(1) a unfolding splits_inv_def by blast
    qed
    have "created_once (tr_splits T)" using I by (simp add: splits_inv_def)
    then have "created_once (insert (w, sp) (tr_splits T))" using ids fresh unfolding created_once_def by (metis insert_iff snd_conv)
    then show "created_once (tr_splits T')" using T' by simp
    fix v sp' r y x assume v: "(v, sp') \<in> tr_splits T'" "tr_gated T' v = Some (r, y)" and x: "x \<in> set (sp_created sp')"
    obtain j c where xj: "x = (j, c)" by (cases x)
    have v': "(v, sp') = (w, sp) \<or> (v, sp') \<in> tr_splits T" "tr_gated T v = Some (r, y)" using v T' by auto
    have "j \<in> tr_ids T' \<and> (tr_node T' r = Some y \<longrightarrow> tr_node T' (Some j) = Some c \<and> \<not> linked (tr_routes T) (Some j))"
      using v'(1)
    proof
      assume "(v, sp') = (w, sp)"
      then have "(j, c) \<in> ?C" using x xj by simp
      then have "j \<in> tr_ids T'" "tr_node T' (Some j) = Some c" "\<not> linked (tr_routes T) (Some j)"
        using at unl[of j] T' by force+
      then show ?thesis by simp
    next
      assume o: "(v, sp') \<in> tr_splits T"
      then have j: "j \<in> tr_ids T" "tr_node T r = Some y \<longrightarrow> tr_node T (Some j) = Some c \<and> \<not> linked (tr_routes T) (Some j)"
        using I v'(2) x xj unfolding splits_inv_def by blast+
      have "tr_node T' r = tr_node T r" by (rule keep[OF gated_node(3)[OF s v'(2)]])
      moreover have "tr_node T' (Some j) = tr_node T (Some j)" by (rule old) (use j(1) fresh in blast)
      ultimately show ?thesis using j T' by simp
    qed
    then show "case x of (i, c) \<Rightarrow> i \<in> tr_ids T' \<and> (tr_node T' r = Some y \<longrightarrow>
        tr_node T' (Some i) = Some c \<and> \<not> linked (tr_routes T') (Some i))" using xj T' by simp
  qed
  show "\<forall>q \<in> tr_ids T'. id_ok (nid_bytes q)" using I new T' by (auto simp: ids_inv_def)
  show "q \<in> tr_ids T'" if "tr_node T' (Some q) \<noteq> None" for q
  proof (cases "q \<in> fst ` ?C")
    case False
    then have "tr_node T' (Some q) = tr_node T (Some q)" by (intro old) simp
    then show ?thesis using that I T' by (simp add: ids_inv_def)
  qed (simp add: T')
qed (use T' in simp_all)

section \<open>Every step keeps the invariant\<close>

lemma tree_inv_keeps:
  assumes "tree_step pb_len policy True T T'" "tree_inv T"
  shows "tree_inv T'"
proof -
  have era: "era_inv T'" using era_keeps[OF assms(1)] assms(2) by (simp add: tree_inv_def)
  note inv = assms(2)
  show ?thesis using assms(1)
  proof cases
    case write_entries
    then show ?thesis using inv_write_entries[OF inv write_entries(2-8)] era by simp
  next
    case gate
    show ?thesis by (rule inv_gate[OF inv gate(2-) gate(1) era])
  next
    case (lose_gate w p s n)
    have st: "state_inv T" using inv by (simp add: tree_inv_state)
    have lk: "linked (tr_routes T) p" by (rule gated_node(3)[OF st lose_gate(2)])
    have "reservation n = None" using st lose_gate(3,4) unfolding state_inv_def era_inv_def gates_ok_def by fastforce
    note ok = linked_node[OF st lose_gate(3) lk] free_node(1)[OF st lose_gate(3) lk this]
    show ?thesis unfolding lose_gate(1)
      by (rule inv_ungate[OF inv lose_gate(2-4)])
        (use ok era lose_gate(1) in \<open>auto simp: same_frame_def node_ok_def range_wf_def\<close>)
  next
    case reclaim_only
    show ?thesis unfolding reclaim_only(1) by (rule inv_reclaim[OF inv reclaim_only(2-) era[unfolded reclaim_only(1)]])
  next
    case (split_create w p n decisions reason left_id right_id change sp)
    show ?thesis
      by (rule split_step_plan[OF split_create(3)]) (rule inv_split_create[OF inv split_create(2) _ split_create(4-5) split_create(1) era])
  next
    case split_link
    show ?thesis by (rule inv_split_link[OF inv split_link(2-) split_link(1) era])
  next
    case split_undo
    show ?thesis by (rule inv_split_undo[OF inv split_undo(2-) split_undo(1) era])
  next
    case merge_ready
    show ?thesis using merge_ready(3,5) by (intro inv_merge_ready[OF inv merge_ready(2) _ _ merge_prepare_ready(2)[OF merge_ready(4)] _ merge_ready(1) era]) simp_all
  next
    case absorb
    show ?thesis by (rule inv_absorb[OF inv absorb(2-) absorb(1) era])
  next
    case drain
    show ?thesis by (rule inv_drain[OF inv drain(2-) drain(1) era])
  next
    case release
    show ?thesis unfolding release(1) by (rule inv_release[OF inv release(2-) era[unfolded release(1)]])
  next
    case abandon
    show ?thesis unfolding abandon(1) by (rule inv_abandon[OF inv abandon(2-) era[unfolded abandon(1)]])
  next
    case reconcile_parent
    show ?thesis unfolding reconcile_parent(1) using reconcile_parent(6) by (intro inv_reconcile[OF inv reconcile_parent(2-5,6) _ reconcile_parent(8) era[unfolded reconcile_parent(1)]]) (use reconcile_parent(7) in simp)
  qed
qed

end
