(* ===== verification/Tree_Contents.thy ===== *)
theory Tree_Contents
  imports Tree_Merge
begin

text \<open>
  What a collection tree holds. Every key belongs to exactly one linked leaf, and the
  structural steps hand keys over from leaf to leaf without changing what is stored
  under them. Without the check of the boundary a merge can lose entries.
\<close>

section \<open>Owners\<close>

inductive tree_reach :: "(pb_node \<Rightarrow> nat) \<Rightarrow> node_size_policy \<Rightarrow> bool \<Rightarrow> tree \<Rightarrow> bool"
  for pb_len policy checked where
  init: "tree_reach pb_len policy checked tree_init"
| step: "tree_reach pb_len policy checked T \<Longrightarrow> tree_step pb_len policy checked T T' \<Longrightarrow>
    tree_reach pb_len policy checked T'"

definition is_leaf :: "node \<Rightarrow> bool" where
  "is_leaf n \<longleftrightarrow> as_leaf n \<noteq> None"

definition owns :: "tree \<Rightarrow> node_ref \<Rightarrow> node \<Rightarrow> bytes \<Rightarrow> bool" where
  "owns T p n k \<longleftrightarrow> tr_node T p = Some n \<and> linked (tr_routes T) p \<and> is_leaf n \<and> tr_low T n \<le> k \<and> covers n k"

text \<open>What the tree stores under a key: the visible entry of the leaf that owns it.\<close>

definition holds :: "tree \<Rightarrow> bytes \<Rightarrow> leaf_entry \<Rightarrow> bool" where
  "holds T k e \<longleftrightarrow> (\<exists>p n. owns T p n k \<and> visible n k = Some e)"

lemma tree_inv_init: "tree_inv tree_init"
proof -
  have "state_inv tree_init"
    unfolding state_inv_def
    by (auto simp: tree_init_def era_inv_def ids_inv_def links_inv_def routes_inv_def root_inv_def gated_inv_def
        merges_inv_def splits_inv_def created_once_def gates_ok_def node_leaf_def nl_default_def eg_defs ls_default_def
        root_shape_def node_ok_def range_wf_def body_keys_def lb_new_def body_wf_def lb_wf_def entries_wf_def links_def
        starts_at_def linked_def split: option.splits)
  then show ?thesis using past_now[of tree_init] by (simp add: tree_inv_state) (simp add: tree_init_def)
qed

lemma tree_inv_reach: "tree_reach pb_len policy True T \<Longrightarrow> tree_inv T"
  by (induction rule: tree_reach.induct) (auto intro: tree_inv_init tree_inv_keeps)

text \<open>Keys change hands by a function of the key and its owner.\<close>

definition hands_over :: "tree \<Rightarrow> tree \<Rightarrow> (bytes \<Rightarrow> node_ref \<Rightarrow> node \<Rightarrow> node_ref \<times> node) \<Rightarrow> bool" where
  "hands_over T T' f \<longleftrightarrow> (\<forall>k p' n'. owns T' p' n' k \<longleftrightarrow> (\<exists>p n. owns T p n k \<and> f k p n = (p', n')))"

lemma hands_over_unique:
  assumes "hands_over T T' f" "\<exists>!x. owns T (fst x) (snd x) k"
  shows "\<exists>!x. owns T' (fst x) (snd x) k"
proof -
  obtain p n where o: "owns T p n k" "\<And>q x. owns T q x k \<Longrightarrow> q = p \<and> x = n"
    using assms(2) by (metis fst_conv snd_conv prod.collapse)
  have "owns T' (fst (f k p n)) (snd (f k p n)) k" using assms(1) o(1) unfolding hands_over_def by auto
  moreover have "x = f k p n" if "owns T' (fst x) (snd x) k" for x
    using assms(1) that o(2) unfolding hands_over_def by (metis prod.collapse)
  ultimately show ?thesis by blast
qed

lemma hands_over_holds:
  assumes "hands_over T T' f" "\<And>p n. owns T p n k \<Longrightarrow> visible (snd (f k p n)) k = visible n k"
  shows "holds T' k e \<longleftrightarrow> holds T k e"
  using assms unfolding hands_over_def holds_def by (metis snd_conv prod.collapse)

section \<open>Steps that keep owners\<close>

lemma same_level_leaf: "same_level (nd_body a) (nd_body b) \<Longrightarrow> is_leaf a = is_leaf b"
  by (auto simp: same_level_def is_leaf_def as_leaf_def split: NodeBody.splits)

lemma is_leaf_body: "nd_body a = nd_body b \<Longrightarrow> is_leaf a = is_leaf b"
  by (simp add: is_leaf_def as_leaf_def)

definition replaces :: "node_ref \<Rightarrow> node \<Rightarrow> bytes \<Rightarrow> node_ref \<Rightarrow> node \<Rightarrow> node_ref \<times> node" where
  "replaces p n' k q x = (if q = p then (p, n') else (q, x))"

lemma writes_hand_over:
  assumes w: "writes T p n n' H T'" and f: "nd_high_key n' = nd_high_key n" "is_leaf n' = is_leaf n"
  shows "hands_over T T' (replaces p n')"
proof -
  have "tr_low T' n' = tr_low T n" using writes_low(2)[OF w] w by (simp add: writes_def)
  moreover have "covers n' k = covers n k" for k using f(1) w by (simp add: covers_def writes_def)
  ultimately have p: "owns T' p x k \<longleftrightarrow> x = n' \<and> owns T p n k" for x k
    using w f(2) writes_linked[OF w] by (auto simp: owns_def writes_def)
  have q: "owns T' q x k \<longleftrightarrow> owns T q x k" if "q \<noteq> p" for q x k
    using w that writes_linked[OF w] writes_low(2)[OF w] by (simp add: owns_def writes_def)
  have n: "owns T p x k \<Longrightarrow> x = n" for x k using w by (simp add: owns_def writes_def)
  show ?thesis unfolding hands_over_def
  proof (intro allI iffI)
    fix k q x assume "owns T' q x k"
    then show "\<exists>r y. owns T r y k \<and> replaces p n' k r y = (q, x)"
      using p[of x k] q[of q x k] by (cases "q = p") (auto simp: replaces_def)
  next
    fix k q x assume "\<exists>r y. owns T r y k \<and> replaces p n' k r y = (q, x)"
    then obtain r y where r: "owns T r y k" "replaces p n' k r y = (q, x)" by blast
    then show "owns T' q x k" using p[of n' k] q[of r y k] n[of y k] by (cases "r = p") (auto simp: replaces_def)
  qed
qed

lemma same_frame_writes:
  assumes "tr_node T p = Some n" "linked (tr_routes T) p" "same_frame n n'" "tr_node T' = (tr_node T)(p \<mapsto> n')"
    "tr_routes T' = tr_routes T \<union> H" "\<forall>(q, k) \<in> H. routed (tr_routes T) q k"
    "tr_plans T' = tr_plans T" "tr_splits T' = tr_splits T" "tr_ids T' = tr_ids T" "tr_drained T' = tr_drained T"
    "tr_absorbed T' = tr_absorbed T"
  shows "writes T p n n' H T'"
  using assms same_frame_low[OF assms(3)] by (simp add: writes_def same_frame_def)

definition keeps_contents :: "tree \<Rightarrow> tree \<Rightarrow> bytes set \<Rightarrow> bool" where
  "keeps_contents T T' keys \<longleftrightarrow> (\<exists>f. hands_over T T' f
     \<and> (\<forall>k p n. k \<notin> keys \<longrightarrow> owns T p n k \<longrightarrow> visible (snd (f k p n)) k = visible n k))"

lemma replaces_keeps:
  assumes "writes T p n n' H T'" "nd_high_key n' = nd_high_key n" "is_leaf n' = is_leaf n"
    and "\<And>k. k \<notin> keys \<Longrightarrow> owns T p n k \<Longrightarrow> visible n' k = visible n k"
  shows "keeps_contents T T' keys"
proof -
  have "visible (snd (replaces p n' k q x)) k = visible x k" if "k \<notin> keys" "owns T q x k" for k q x
  proof (cases "q = p")
    case True
    then have "x = n" using that(2) assms(1) by (simp add: owns_def writes_def)
    then show ?thesis using assms(4) that True by (simp add: replaces_def)
  qed (simp add: replaces_def)
  then show ?thesis unfolding keeps_contents_def using writes_hand_over[OF assms(1-3)] by blast
qed

lemma visible_from:
  assumes "body_from b (nd_body n') = body_from b (nd_body n)" "b \<le> k"
  shows "visible n' k = visible n k"
proof (cases "nd_body n")
  case (Leaf l)
  then obtain l' where l': "nd_body n' = Leaf l'" using assms(1) by (cases "nd_body n'") (auto simp: body_from_def)
  then have "lb_lookup l' k = lb_lookup l k"
    using assms Leaf lb_lookup_split(2)[of b l k] lb_lookup_split(2)[of b l' k] by (simp add: body_from_def)
  then show ?thesis using Leaf l' by (simp add: visible_def)
next
  case (Index i)
  then show ?thesis using assms(1) by (cases "nd_body n'") (auto simp: body_from_def visible_def)
qed

lemma visible_below:
  assumes "body_below b (nd_body n') = body_below b (nd_body n)" "k < b"
  shows "visible n' k = visible n k"
proof (cases "nd_body n")
  case (Leaf l)
  then obtain l' where l': "nd_body n' = Leaf l'" using assms(1) by (cases "nd_body n'") (auto simp: body_below_def)
  then have "lb_lookup l' k = lb_lookup l k"
    using assms Leaf lb_lookup_split(1)[of b l k] lb_lookup_split(1)[of b l' k] by (simp add: body_below_def)
  then show ?thesis using Leaf l' by (simp add: visible_def)
next
  case (Index i)
  then show ?thesis using assms(1) by (cases "nd_body n'") (auto simp: body_below_def visible_def)
qed

lemma body_from_all: "\<forall>k \<in> set (body_keys body). b \<le> k \<Longrightarrow> body_from b body = body"
  by (cases body; rename_tac x; case_tac x) (auto simp: body_keys_def body_from_def om_from_def filter_id_conv)

lemma body_below_twice: "body_below b (body_below b body) = body_below b body"
  by (cases body) (simp_all add: body_below_def om_below_def)

lemma body_from_twice: "body_from b (body_from b body) = body_from b body"
  by (cases body) (simp_all add: body_from_def om_from_def)

lemma ungate_keeps:
  assumes inv: "tree_inv T" and n: "tr_gated T w = Some (p, s)" "tr_node T p = Some n"
    and x: "same_frame n x" "is_leaf x = is_leaf n" "\<And>k. visible x k = visible n k"
    and H: "\<forall>(q, k) \<in> H. routed (tr_routes T) q k"
  shows "keeps_contents T (put p (ungate w x) H T) {}"
proof (rule replaces_keeps)
  have "linked (tr_routes T) p" using gated_node(3)[OF _ n(1)] inv by (simp add: tree_inv_state)
  then show "writes T p n (ungate w x) H (put p (ungate w x) H T)"
    using n(2) H x(1) by (intro same_frame_writes) (auto simp: same_frame_def)
  show "nd_high_key (ungate w x) = nd_high_key n" using x(1) by (simp add: same_frame_def)
  show "is_leaf (ungate w x) = is_leaf n" using x(2) is_leaf_body[of "ungate w x" x] by simp
  show "visible (ungate w x) k = visible n k" for k using x(3) by simp
qed

lemma absorb_keeps:
  assumes inv: "tree_inv T" and m: "tr_plans T i = Some m" and r: "tr_node T (Some (mt_node_id (mp_target m))) = Some r"
    and a: "absorb_attempt pb_len policy final i m r = Some r'"
  shows "keeps_contents T ((put (Some (mt_node_id (mp_target m))) r' {} T)\<lparr>tr_absorbed := insert i (tr_absorbed T)\<rparr>) {}"
proof (rule replaces_keeps)
  have s: "state_inv T" using inv by (simp add: tree_inv_state)
  note f = absorb_facts[OF s m r a] and p = plan_left[OF s m]
  note e = absorb_attempt_effect[OF a f(3)]
  have b: "body_wf (nd_body r)" using linked_node(1)[OF s r f(1)] by (simp add: node_ok_def)
  note c = compact_body[OF b]
  show "writes T (Some (mt_node_id (mp_target m))) r r' {}
      ((put (Some (mt_node_id (mp_target m))) r' {} T)\<lparr>tr_absorbed := insert i (tr_absorbed T)\<rparr>)"
    using r f(1,5,6) e(1,6,7) by (auto simp: writes_def)
  show "nd_high_key r' = nd_high_key r" by (rule e(5))
  have "same_level (nd_body r') (nd_body (mp_left m))" using body_join_facts(4)[OF p(1) c(1) f(7-9)] f(10) by simp
  then show "is_leaf r' = is_leaf r" using f(7) c(2) by (metis same_level_leaf)
  fix k assume "owns T (Some (mt_node_id (mp_target m))) r k"
  then have k: "mt_boundary (mp_target m) \<le> k" using f(5) by (simp add: owns_def)
  have "body_from (mt_boundary (mp_target m)) (nd_body r') = nd_body (compact r)"
    using body_join_from[OF p(1) c(1) f(7-9)] f(10) by simp
  moreover have "body_from (mt_boundary (mp_target m)) (nd_body (compact r)) = nd_body (compact r)"
    by (rule body_from_all[OF f(9)])
  ultimately show "visible r' k = visible r k" using visible_from[OF _ k, of r' "compact r"] c(4) by simp
qed

lemma release_keeps:
  assumes inv: "tree_inv T" and m: "tr_plans T i = Some m" and d: "drained_into (tr_node T) m"
    and r: "tr_node T (Some (mt_node_id (mp_target m))) = Some r" and c: "remove_reservation_change i r = Some r'"
  shows "keeps_contents T (put (Some (mt_node_id (mp_target m))) r' {} T) {}"
proof (rule replaces_keeps)
  have s: "state_inv T" using inv by (simp add: tree_inv_state)
  have e: "reservation r = Some i" "r' = r\<lparr>nd_locks := (nd_locks r)\<lparr>nl_merge_reservation := None\<rparr>\<rparr>"
    using c by (simp_all add: remove_reservation_change_effect)
  have "tr_low T r = nd_low_key r" "tr_low T r' = nd_low_key r" using e m d by (simp_all add: owned_low_def)
  then show "writes T (Some (mt_node_id (mp_target m))) r r' {} (put (Some (mt_node_id (mp_target m))) r' {} T)"
    using r e(2) plan_left(5)[OF s m] by (simp add: writes_def plan_ok_def)
  show "nd_high_key r' = nd_high_key r" "is_leaf r' = is_leaf r" "visible r' k = visible r k" for k
    using e(2) by (simp_all add: is_leaf_def as_leaf_def visible_def)
qed

lemma abandon_keeps:
  assumes inv: "tree_inv T" and m: "tr_plans T i = Some m"
    and g: "i \<in> tr_absorbed T \<and> i \<notin> tr_drained T \<and> tr_node T (Some (mp_source m)) \<noteq> Some (mp_gated m)
      \<or> tr_node T (Some (mp_source m)) \<noteq> Some (mp_gated m) \<and> \<not> drained_into (tr_node T) m"
    and r: "tr_node T (Some (mt_node_id (mp_target m))) = Some r" and c: "abandon_change i (mp_target m) r = Some r'"
  shows "keeps_contents T (put (Some (mt_node_id (mp_target m))) r' {} T) {}"
proof -
  let ?R = "mt_node_id (mp_target m)" and ?B = "mt_boundary (mp_target m)"
  have s: "state_inv T" using inv by (simp add: tree_inv_state)
  have R: "linked (tr_routes T) (Some ?R)" using plan_left(5)[OF s m] by (simp add: plan_ok_def)
  have b: "body_wf (nd_body r)" using linked_node(1)[OF s r R] by (simp add: node_ok_def)
  from c b show ?thesis
  proof (cases rule: abandon_change_cases)
    case abandoned
    from reserved_plan[OF s r abandoned(1)] m have rb: "reserved_by T i m r" by auto
    then have nd: "\<not> drained_into (tr_node T) m" using g unfolding reserved_by_def by auto
    have tl: "tr_low T r = ?B" "tr_low T r' = ?B" using abandoned m nd by (simp_all add: owned_low_def)
    show ?thesis
    proof (rule replaces_keeps)
      show "writes T (Some ?R) r r' {} (put (Some ?R) r' {} T)" using r R tl abandoned(2) by (simp add: writes_def)
      show "nd_high_key r' = nd_high_key r" "is_leaf r' = is_leaf r"
        using abandoned(2) by (auto simp: is_leaf_def as_leaf_def body_from_def split: NodeBody.splits)
      fix k assume "owns T (Some ?R) r k"
      then have "?B \<le> k" using tl(1) by (simp add: owns_def)
      moreover have "body_from ?B (nd_body r') = body_from ?B (nd_body r)"
        using abandoned(2) body_from_all[of "body_from ?B (nd_body r)" ?B] by (simp add: body_keys_split)
      ultimately show "visible r' k = visible r k" by (intro visible_from)
    qed
  next
    case fenced
    have f: "same_frame r r'" using fenced(4) by (simp add: same_frame_def)
    show ?thesis
    proof (rule replaces_keeps)
      show "writes T (Some ?R) r r' {} (put (Some ?R) r' {} T)" by (rule same_frame_writes[OF r R f]) simp_all
    qed (use fenced(4) in \<open>simp_all add: is_leaf_def as_leaf_def visible_def\<close>)
  qed
qed

lemma unlinked_keeps:
  assumes inv: "tree_inv T" and N': "\<And>q. linked (tr_routes T) q \<Longrightarrow> tr_node T' q = tr_node T q"
    and same: "tr_routes T' = tr_routes T"
      "\<And>p n. linked (tr_routes T) p \<Longrightarrow> tr_node T p = Some n \<Longrightarrow> tr_low T' n = tr_low T n"
  shows "keeps_contents T T' {}"
proof -
  have "owns T' p n k \<longleftrightarrow> owns T p n k" for p n k
    unfolding owns_def same(1) using N'[of p] same(2)[of p n] by metis
  then have "hands_over T T' (\<lambda>k. Pair)" unfolding hands_over_def by simp
  then show ?thesis unfolding keeps_contents_def by fastforce
qed

lemma merge_ready_keeps:
  assumes inv: "tree_inv T" and i: "tr_plans T i = None"
  shows "keeps_contents T (moment (T\<lparr>tr_plans := (tr_plans T)(i \<mapsto> m)\<rparr>)) {}"
proof (rule unlinked_keeps[OF inv])
  have s: "state_inv T" using inv by (simp add: tree_inv_state)
  fix p n assume n: "tr_node T p = Some n"
  have "reservation n \<noteq> Some i" using reserved_plan[OF s n, of i] i by fastforce
  then show "tr_low (moment (T\<lparr>tr_plans := (tr_plans T)(i \<mapsto> m)\<rparr>)) n = tr_low T n"
    by (auto simp: owned_low_def split: option.splits)
qed simp_all

lemma nodes_kept_low:
  assumes inv: "tree_inv T" and N': "\<And>q. linked (tr_routes T) q \<Longrightarrow> tr_node T' q = tr_node T q"
    and same: "tr_plans T' = tr_plans T"
  shows "tr_low T' n = tr_low T n"
proof -
  have s: "state_inv T" using inv by (simp add: tree_inv_state)
  have "drained_into (tr_node T') m = drained_into (tr_node T) m" if "tr_plans T i = Some m" for i m
  proof -
    have "linked (tr_routes T) (Some (mp_source m))"
      using plan_left(4)[OF s that] gated_node(3)[OF s] by (auto simp: plan_kept_def)
    then show ?thesis using N' by (simp add: drained_into_def)
  qed
  then show ?thesis using same by (simp add: owned_low_def split: option.splits)
qed

section \<open>Steps that hand keys over\<close>

lemma drain_keeps:
  assumes inv: "tree_inv T" and m: "tr_plans T i = Some m" and a: "i \<in> tr_absorbed T"
    and L: "tr_node T (Some (mp_source m)) = Some (mp_gated m)" and n': "n' = drain (mt_node_id (mp_target m)) (mp_left m)"
    and T': "T' = (put (Some (mp_source m)) n' (links n') T)\<lparr>tr_drained := insert i (tr_drained T)\<rparr>"
  shows "keeps_contents T T' {}"
proof -
  let ?R = "Some (mt_node_id (mp_target m))" and ?L = "Some (mp_source m)" and ?B = "mt_boundary (mp_target m)"
  have s: "state_inv T" using inv by (simp add: tree_inv_state)
  note p = plan_left[OF s m]
  have k: "\<not> nd_drained (mp_gated m)" "mp_left m = compact (mp_gated m)" "nd_high_key (mp_gated m) = Some ?B"
    using p(4) by (simp_all add: plan_kept_def)
  have gi: "gated_inv T" using s by (simp add: state_inv_def)
  note low = plan_low[OF gi p(4)]
  have lL: "linked (tr_routes T) ?L" using linked_route[OF low(6)] .
  have RL: "?R \<noteq> ?L" and lR: "linked (tr_routes T) ?R" using p(5) by (simp_all add: plan_ok_def)
  have N': "tr_node T' = (tr_node T)(?L \<mapsto> n')" and G': "tr_routes T' = insert (mt_node_id (mp_target m), nd_low_key (mp_gated m)) (tr_routes T)"
    and same: "tr_plans T' = tr_plans T"
    using T' n' low(1) by (simp_all add: links_drain)
  obtain r where r: "tr_node T ?R = Some r" and rb: "reserved_by T i m r"
    and body: "nd_body (mp_left m) = body_below ?B (nd_body r)"
    and tl: "\<And>q x. tr_node T q = Some x \<Longrightarrow> q \<noteq> ?R \<Longrightarrow> tr_low T' x = tr_low T x"
    and tlr: "tr_low T' r = nd_low_key (mp_gated m)" "tr_low T r = ?B"
    by (rule drain_facts[OF s m a L N'[unfolded n'] same]) blast
  have lk: "linked (tr_routes T') q \<longleftrightarrow> linked (tr_routes T) q" for q
    using lR by (auto simp: G' linked_def split: option.splits)
  have b: "body_wf (nd_body (mp_gated m))" using low(3) by (simp add: node_ok_def)
  have leaf: "is_leaf r = is_leaf (mp_gated m)"
    using same_level_leaf compact_body(2)[OF b] rb k(2) by (metis reserved_by_def)
  have tg: "tr_low T (mp_gated m) = nd_low_key (mp_gated m)"
    using gated_node(2)[OF s] p(4) by (auto simp: plan_kept_def owned_low_free)
  have ownL: "owns T ?L x k \<longleftrightarrow> x = mp_gated m \<and> is_leaf r \<and> nd_low_key (mp_gated m) \<le> k \<and> k < ?B" for x k
    using L lL leaf tg k by (auto simp: owns_def covers_def)
  have cr: "k < ?B \<Longrightarrow> covers r k" for k using rb by (auto simp: covers_def reserved_by_def split: option.splits)
  have ownR: "owns T' ?R x k \<longleftrightarrow> x = r \<and> (owns T ?R r k \<or> owns T ?L (mp_gated m) k)" for x k
  proof -
    have "owns T' ?R x k \<longleftrightarrow> x = r \<and> is_leaf r \<and> nd_low_key (mp_gated m) \<le> k \<and> covers r k"
      using N' RL r lk lR tlr(1) by (auto simp: owns_def)
    moreover have "owns T ?R r k \<longleftrightarrow> is_leaf r \<and> ?B \<le> k \<and> covers r k" using r lR tlr(2) by (simp add: owns_def)
    ultimately show ?thesis using ownL[of "mp_gated m" k] low(2) cr[of k] by (cases "k < ?B") auto
  qed
  have noL: "\<not> owns T' ?L x k" for x k using N' n' by (auto simp: owns_def covers_def)
  have rest: "owns T' q x k \<longleftrightarrow> owns T q x k" if "q \<noteq> ?R" "q \<noteq> ?L" for q x k
    using that N' lk tl[of q x] by (auto simp: owns_def)
  let ?f = "\<lambda>k q x. if q = ?L then (?R, r) else (q, x)"
  have "hands_over T T' ?f" unfolding hands_over_def
  proof (intro allI iffI)
    fix k q x assume "owns T' q x k"
    then show "\<exists>c y. owns T c y k \<and> ?f k c y = (q, x)"
      using ownR[of x k] noL[of x k] rest[of q x k] RL by (cases "q = ?R"; cases "q = ?L") auto
  next
    fix k q x assume "\<exists>c y. owns T c y k \<and> ?f k c y = (q, x)"
    then obtain c y where c: "owns T c y k" "?f k c y = (q, x)" by blast
    show "owns T' q x k"
    proof (cases "c = ?L")
      case True
      then show ?thesis using c ownR[of r k] ownL[of y k] by auto
    next
      case False
      then have "q = c" "x = y" using c(2) by auto
      then show ?thesis using c(1) False ownR[of y k] rest[of c y k] r by (cases "c = ?R") (auto simp: owns_def)
    qed
  qed
  moreover have "visible (snd (?f k q x)) k = visible x k" if o: "owns T q x k" for k q x
  proof (cases "q = ?L")
    case True
    then have x: "x = mp_gated m" "k < ?B" using ownL[of x k] o by auto
    have "body_below ?B (nd_body r) = body_below ?B (nd_body (compact (mp_gated m)))"
      using body k(2) body_below_twice by metis
    then have "visible r k = visible (compact (mp_gated m)) k" using x(2) by (rule visible_below)
    then show ?thesis using True x(1) compact_body(4)[OF b] by simp
  qed simp
  ultimately show ?thesis unfolding keeps_contents_def by blast
qed

lemma split_link_keeps:
  assumes inv: "tree_inv T" and sp: "(w, sp) \<in> tr_splits T" and g: "tr_gated T w = Some (p, n)" and n: "tr_node T p = Some n"
    and T': "T' = put p (sp_source sp) (links (sp_source sp) \<union> \<Union> (links ` snd ` set (sp_created sp))) T"
  shows "keeps_contents T T' {}"
proof -
  have s: "state_inv T" using inv by (simp add: tree_inv_state)
  note gn = gated_node[OF s g] and lf = link_facts[OF s sp g n T']
  have ok: "node_ok n" using gn(4) by (simp add: gated_fine_def)
  then have b: "body_wf (nd_body n)" "range_wf n" by (simp_all add: node_ok_def)
  obtain at left_id right_id where plan: "(case p of
       Some _ \<Rightarrow> nonroot_split_plan at right_id w (compact n)
     | None \<Rightarrow> root_split_plan at left_id right_id w (compact n)) = Some sp"
    using lf(1) g by (auto simp: split_kept_def)
  let ?key = "sp_split_key sp"
  obtain left right pl where sa: "splits_at right_id (compact n) left right ?key"
    and pl: "pl = p \<and> sp_source sp = ungate w left \<and> sp_created sp = [(right_id, right)]
       \<or> p = None \<and> pl = Some left_id \<and> sp_created sp = [(left_id, ungate w left), (right_id, right)]
         \<and> \<not> is_leaf (sp_source sp)"
  proof (cases rule: plan_split_source[OF plan compact_body(1)[OF b(1)]])
    case (1 q left right)
    then show ?thesis using that[of left right p] by simp
  next
    case (2 left right)
    then show ?thesis using that[of left right "Some left_id"]
      by (simp add: is_leaf_def as_leaf_def node_index_def)
  qed
  note q = splits_at_parts[OF sa] and d = node_ok_split(1)[OF sa node_ok_compact[OF ok]]
  have key: "nd_low_key n < ?key" "case nd_high_key n of None \<Rightarrow> True | Some h \<Rightarrow> ?key < h"
    using splits_at_key_range[OF sa] node_ok_compact[OF ok] by (simp_all add: node_ok_def)
  have C: "(right_id, right) \<in> set (sp_created sp)" using pl by auto
  have rid: "tr_node T (Some right_id) = Some right" "\<not> linked (tr_routes T) (Some right_id)" "p \<noteq> Some right_id"
    using lf(4)[OF C] by simp_all
  have plf: "tr_node T' pl = Some (ungate w left)" "linked (tr_routes T') pl" "pl \<noteq> Some right_id"
    "pl = p \<or> \<not> linked (tr_routes T) pl"
    using pl T' gn(3) lf(2,8) lf(4)[of left_id "ungate w left"] rid(3) by auto
  have leafs: "is_leaf left = is_leaf n" "is_leaf right = is_leaf n"
    using compact_body(2)[OF b(1)] same_level_leaf[of "compact n" n] q(1,2)
    by (auto simp: is_leaf_def as_leaf_def body_below_def body_from_def split: NodeBody.splits)
  have own: "owns T p x k \<longleftrightarrow> x = n \<and> is_leaf n \<and> nd_low_key n \<le> k \<and> covers n k" for x k
    using n gn(2,3) by (auto simp: owns_def owned_low_free)
  have "reservation (ungate w left) = None" "reservation right = None" using q(9,10) gn(2) by simp_all
  then have low: "tr_low T' (ungate w left) = nd_low_key n" "tr_low T' right = ?key"
    using q(3,4) by (simp_all add: owned_low_free)
  have "is_leaf (ungate w left) = is_leaf n" using leafs(1) is_leaf_body[of "ungate w left" left] by simp
  moreover have "covers (ungate w left) k \<longleftrightarrow> k < ?key" for k using q(5,11) d by (simp add: covers_def)
  moreover have "k < ?key \<Longrightarrow> covers n k" for k using key(2) d by (auto simp: covers_def split: option.splits)
  ultimately have ownl: "owns T' pl x k \<longleftrightarrow> x = ungate w left \<and> owns T p n k \<and> k < ?key" for x k
    using plf(1,2) low(1) own[of n k] by (auto simp: owns_def)
  have "covers right k = covers n k" for k using q(6,12) d by (simp add: covers_def)
  moreover have "linked (tr_routes T') (Some right_id)" "tr_node T' (Some right_id) = Some right"
    using lf(8) C T' rid by auto
  ultimately have ownr: "owns T' (Some right_id) x k \<longleftrightarrow> x = right \<and> owns T p n k \<and> ?key \<le> k" for x k
    using low(2) own[of n k] leafs(2) key(1) by (auto simp: owns_def)
  have rest: "owns T' c x k \<longleftrightarrow> owns T c x k \<and> c \<noteq> p" if c: "c \<noteq> pl" "c \<noteq> Some right_id" for c x k
  proof (cases "c = p")
    case True
    then have "\<not> is_leaf (sp_source sp)" using c(1) pl by auto
    then show ?thesis using True T' by (auto simp: owns_def)
  next
    case False
    have "linked (tr_routes T') c \<longleftrightarrow> linked (tr_routes T) c" unfolding lf(8) using c pl by auto
    then show ?thesis using False lf(7) T' by (simp add: owns_def)
  qed
  let ?f = "\<lambda>k c x. if c = p then if k < ?key then (pl, ungate w left) else (Some right_id, right) else (c, x)"
  have "hands_over T T' ?f" unfolding hands_over_def
  proof (intro allI iffI)
    fix k c x assume o: "owns T' c x k"
    consider "c = pl" | "c = Some right_id" | "c \<noteq> pl" "c \<noteq> Some right_id" by blast
    then show "\<exists>r y. owns T r y k \<and> ?f k r y = (c, x)"
    proof cases
      case 1
      then have "owns T p n k" "?f k p n = (c, x)" using o ownl[of x k] by auto
      then show ?thesis by blast
    next
      case 2
      then have "owns T p n k" "?f k p n = (c, x)" using o ownr[of x k] by auto
      then show ?thesis by blast
    next
      case 3
      then show ?thesis using o rest[of c x k] by auto
    qed
  next
    fix k c x assume "\<exists>r y. owns T r y k \<and> ?f k r y = (c, x)"
    then obtain r y where r: "owns T r y k" "?f k r y = (c, x)" by blast
    show "owns T' c x k"
    proof (cases "r = p")
      case True
      then have "owns T p n k" using r(1) own[of y k] by simp
      then show ?thesis using r(2) True ownl[of x k] ownr[of x k] by (auto split: if_splits)
    next
      case False
      have "linked (tr_routes T) r" using r(1) by (simp add: owns_def)
      then have "r \<noteq> pl" "r \<noteq> Some right_id" using plf(4) rid(2) False by auto
      then show ?thesis using r False rest[of r y k] by auto
    qed
  qed
  moreover have "visible (snd (?f k c x)) k = visible x k" if o: "owns T c x k" for k c x
  proof (cases "c = p")
    case True
    then have x: "x = n" using o own by simp
    have "visible left k = visible (compact n) k" if "k < ?key"
      using visible_below[OF _ that] q(1) body_below_twice by metis
    moreover have "visible right k = visible (compact n) k" if "?key \<le> k"
      using visible_from[OF _ that] q(2) body_from_twice by metis
    ultimately show ?thesis using True x compact_body(4)[OF b(1)] by (simp add: not_less)
  qed simp
  ultimately show ?thesis unfolding keeps_contents_def by blast
qed

section \<open>Contents over the steps\<close>

text \<open>A write of entries: one leaf without a gate owns every key it may change.\<close>

definition data_write :: "tree \<Rightarrow> bytes set \<Rightarrow> tree \<Rightarrow> bool" where
  "data_write T keys T' \<longleftrightarrow> (\<exists>p n b locks. (\<forall>k \<in> keys. owns T p n k) \<and> gate_holders n = []
     \<and> T' = put p (n\<lparr>nd_body := Leaf b, nd_locks := locks\<rparr>) {} T)"

lemma write_entries_keeps:
  assumes inv: "tree_inv T" and n: "tr_node T p = Some n" "linked (tr_routes T) p" "nd_body n = Leaf b" "gate_holders n = []"
    and keys: "\<forall>k \<in> keys. covers n k \<and> routed_ref (tr_routes T) p k" and b': "\<forall>k. k \<notin> keys \<longrightarrow> lb_lookup b' k = lb_lookup b k"
    and l: "nl_merge_reservation locks = reservation n"
  shows "keeps_contents T (put p (n\<lparr>nd_body := Leaf b', nd_locks := locks\<rparr>) {} T) keys"
    "data_write T keys (put p (n\<lparr>nd_body := Leaf b', nd_locks := locks\<rparr>) {} T)"
proof -
  let ?n' = "n\<lparr>nd_body := Leaf b', nd_locks := locks\<rparr>"
  have s: "state_inv T" using inv by (simp add: tree_inv_state)
  have f: "same_frame n ?n'" using l by (simp add: same_frame_def)
  show "keeps_contents T (put p ?n' {} T) keys"
  proof (rule replaces_keeps)
    show "writes T p n ?n' {} (put p ?n' {} T)" by (rule same_frame_writes[OF n(1,2) f]) simp_all
  qed (use n(3) b' in \<open>simp_all add: is_leaf_def as_leaf_def visible_def\<close>)
  have "owns T p n k" if "k \<in> keys" for k
    using routed_ref_low[OF s n(1)] keys that n by (simp add: owns_def is_leaf_def as_leaf_def)
  then show "data_write T keys (put p ?n' {} T)" using n(4) unfolding data_write_def by blast
qed

lemma gate_keeps:
  assumes n: "tr_node T p = Some n" "linked (tr_routes T) p" "reservation n = None"
    and l: "nl_merge_reservation locks = None" and n': "n' = n\<lparr>nd_locks := nl_set_structural_gate w locks\<rparr>"
  shows "keeps_contents T ((put p n' {} T)\<lparr>tr_gated := (tr_gated T)(w \<mapsto> (p, n'))\<rparr>) {}"
proof (rule replaces_keeps)
  have "same_frame n n'" using n(3) l n' by (simp add: same_frame_def nl_set_structural_gate_def advance_membership_generation_def)
  then show "writes T p n n' {} ((put p n' {} T)\<lparr>tr_gated := (tr_gated T)(w \<mapsto> (p, n'))\<rparr>)"
    by (intro same_frame_writes[OF n(1,2)]) simp_all
qed (simp_all add: n' is_leaf_def as_leaf_def visible_def)

lemma reclaim_keeps:
  assumes inv: "tree_inv T" and n: "tr_gated T w = Some (p, n)" "tr_node T p = Some n"
  shows "keeps_contents T (put p (ungate w (compact n)) {} T) {}"
proof -
  have s: "state_inv T" using inv by (simp add: tree_inv_state)
  have b: "body_wf (nd_body n)" using linked_node(1)[OF s n(2) gated_node(3)[OF s n(1)]] by (simp add: node_ok_def)
  note c = compact_body[OF b]
  have "is_leaf (compact n) = is_leaf n" using same_level_leaf[OF c(2)] .
  then show ?thesis by (intro ungate_keeps[OF inv n]) (use c in \<open>auto simp: same_frame_def\<close>)
qed

lemma reconcile_keeps:
  assumes inv: "tree_inv T" and n: "tr_gated T w = Some (p, n)" "tr_node T p = Some n" "nd_body n = Index idx"
    and l: "\<forall>j h q v. load j h q = Some v \<longrightarrow> was_version T q v" and r: "reconciled_index load idx keys = Inr idx'"
    and n': "n' = ungate w (n\<lparr>nd_body := Index idx'\<rparr>)"
  shows "keeps_contents T (put p n' (links n') T) {}"
proof -
  let ?x = "n\<lparr>nd_body := Index idx'\<rparr>"
  have s: "state_inv T" using inv by (simp add: tree_inv_state)
  note ok = linked_node(1,2)[OF s n(2) gated_node(3)[OF s n(1)]]
  have w: "om_wf (in_children idx)" using ok(1) n(3) by (simp add: node_ok_def body_wf_def in_wf_def)
  have rt: "\<forall>(s, c) \<in> set (in_children idx). routed (tr_routes T) c s"
    using ok(2) n(3) by (auto simp: links_def routed_def)
  note f = reconcile_keys_facts[OF inv l w rt r[unfolded reconciled_index_def], of "nd_low_key n"]
  have links: "links n' = links ?x" using n' by (simp add: links_def link_key_def)
  have lk: "\<forall>(q, k) \<in> links n'. routed (tr_routes T) q k"
    unfolding links using f ok(2) by (auto simp: links_def link_key_def routed_def)
  show ?thesis unfolding n'
    by (rule ungate_keeps[OF inv n(1,2) _ _ _ lk[unfolded n']])
      (use n(3) in \<open>simp_all add: same_frame_def is_leaf_def as_leaf_def visible_def\<close>)
qed

lemma step_keeps_contents:
  assumes "tree_step pb_len policy True T T'" and inv: "tree_inv T"
  shows "\<exists>keys. keeps_contents T T' keys \<and> (keys = {} \<or> data_write T keys T')"
  using assms(1)
proof cases
  case (write_entries p n b keys b' locks)
  then show ?thesis using write_entries_keeps[OF inv write_entries(2-6,8,10)] unfolding write_entries(1) by blast
next
  case (gate p n w locks n')
  then show ?thesis using gate_keeps[OF gate(2,3,6,8,11)] by blast
next
  case (lose_gate w p s n)
  then have "keeps_contents T (put p (ungate w n) {} T) {}"
    by (intro ungate_keeps[OF inv lose_gate(2,3)]) (simp_all add: same_frame_def)
  then show ?thesis using lose_gate(1) by blast
next
  case reclaim_only
  then show ?thesis using reclaim_keeps[OF inv reclaim_only(2,3)] by blast
next
  case (split_create w p n decisions reason left_id right_id change sp)
  have "tr_node T' q = tr_node T q" if "linked (tr_routes T) q" for q
  proof (cases q)
    case (Some i)
    have "tr_node T (Some i) \<noteq> None" using inv that Some unfolding tree_inv_def ids_inv_def linked_def by fastforce
    then have "map_of (sp_created sp) i = None" using bspec[OF split_create(5), of i] by (metis map_of_eq_None_iff)
    then show ?thesis using Some split_create(1) by simp
  qed (simp add: split_create(1))
  then have "keeps_contents T T' {}"
    by (intro unlinked_keeps[OF inv] nodes_kept_low[OF inv]) (simp_all add: split_create(1))
  then show ?thesis by blast
next
  case split_link
  then show ?thesis using split_link_keeps[OF inv split_link(2-4,1)] by blast
next
  case (split_undo w sp p n i)
  then have "tr_node T' q = tr_node T q" if "linked (tr_routes T) q" for q using that by auto
  then have "keeps_contents T T' {}"
    by (intro unlinked_keeps[OF inv] nodes_kept_low[OF inv]) (simp_all add: split_undo(1))
  then show ?thesis by blast
next
  case merge_ready
  then show ?thesis using merge_ready_keeps[OF inv] by blast
next
  case absorb
  then show ?thesis using absorb_keeps[OF inv absorb(2-4)] by blast
next
  case drain
  then show ?thesis using drain_keeps[OF inv drain(2-5,1)] by blast
next
  case release
  then show ?thesis using release_keeps[OF inv release(2-5)] by blast
next
  case abandon
  then show ?thesis using abandon_keeps[OF inv abandon(2-5)] by blast
next
  case reconcile_parent
  then show ?thesis using reconcile_keeps[OF inv reconcile_parent(2-6,8)] by blast
qed

lemma init_owner: "\<exists>!x. owns tree_init (fst x) (snd x) k"
proof -
  have "owns tree_init p n k \<longleftrightarrow> p = None \<and> n = node_leaf lb_new" for p n
    by (auto simp: owns_def tree_init_def moment_def linked_def is_leaf_def as_leaf_def node_leaf_def covers_def
        owned_low_def nl_default_def split: if_splits)
  then have "owns tree_init (fst x) (snd x) k \<longleftrightarrow> x = (None, node_leaf lb_new)" for x by (cases x) simp
  then show ?thesis by simp
qed




lemma gate_init_step:
  "tree_step pb_len policy checked tree_init
     ((put None ((node_leaf lb_new)\<lparr>nd_locks := nl_set_structural_gate w nl_default\<rparr>) {} tree_init)
        \<lparr>tr_gated := (tr_gated tree_init)(w \<mapsto> (None, (node_leaf lb_new)\<lparr>nd_locks := nl_set_structural_gate w nl_default\<rparr>))\<rparr>)"
  by (rule tree_step.gate[where n = "node_leaf lb_new" and locks = nl_default])
    (simp_all add: tree_init_def linked_def node_leaf_def nl_default_def eg_defs ls_default_def)


end
