(* ===== verification/Stale_Merge.thy ===== *)
theory Stale_Merge
  imports Tree_Contents
begin

text \<open>
  A run of the merge protocol as the code has it, without the check of the boundary.
  A worker gates a leaf and loses the gate. Another worker merges the leaf into its
  right neighbour. The first worker then plans its own merge from the state it gated,
  its absorb lands, its drain fails, and abandoning the merge removes the entries that
  the other merge had moved.
\<close>

section \<open>Nodes of the run\<close>

definition sm_entry :: "bytes \<Rightarrow> leaf_entry" where
  "sm_entry k = le_with_current (Inline (TxId (replicate 16 9)) k) (le_new k)"

definition sm_node :: "bytes \<Rightarrow> bytes option \<Rightarrow> node_id option \<Rightarrow> bytes list \<Rightarrow> tx_id list \<Rightarrow> 64 word \<Rightarrow> structural_intent_id option \<Rightarrow> node" where
  "sm_node low high right ks holders gen resv =
     \<lparr>nd_low_key = low, nd_high_key = high, nd_right_sibling = right,
      nd_body = Leaf (LeafBody (map (\<lambda>k. (k, sm_entry k)) ks)),
      nd_locks = \<lparr>nl_structure = ExclusiveGate \<lparr>ls_typ = (if holders = [] then LtNone else LtWrite), ls_holders = holders\<rparr>,
        nl_membership = sx_default, nl_generation = gen, nl_drop_intent = None, nl_merge_reservation = resv\<rparr>,
      nd_drained = False\<rparr>"

definition sm_a :: node_id where "sm_a = NodeId (replicate 16 1)"
definition sm_b :: node_id where "sm_b = NodeId (replicate 16 2)"
definition sm_w :: "8 word \<Rightarrow> tx_id" where "sm_w i = TxId (replicate 16 i)"
definition sm_i :: "8 word \<Rightarrow> structural_intent_id" where "sm_i i = StructuralIntentId (replicate 16 i)"

abbreviation "sm_leaf_a holders gen \<equiv> sm_node [] (Some [2]) (Some sm_b) [[1]] holders gen None"
abbreviation "sm_leaf_b gen \<equiv> sm_node [2] None None [[2]] [] gen None"
abbreviation "sm_both holders gen resv \<equiv> sm_node [] None None [[1], [2]] holders gen resv"

definition sm_root :: node where
  "sm_root = node_index (in_from_children [([], sm_a), ([2], sm_b)])"

definition sm_split :: split_plan where
  "sm_split = \<lparr>sp_created = [(sm_a, sm_leaf_a [] 1), (sm_b, sm_leaf_b 1)], sp_source = sm_root, sp_split_key = [2]\<rparr>"

definition sm_plan :: "8 word \<Rightarrow> node \<Rightarrow> 64 word \<Rightarrow> merge_plan" where
  "sm_plan w gated gen = \<lparr>mp_source = sm_a, mp_gated = gated, mp_left = gated,
     mp_target = \<lparr>mt_node_id = sm_b, mt_boundary = [2], mt_generation = gen\<rparr>, mp_worker = sm_w w\<rparr>"

lemma sm_split_plan: "root_split_plan None sm_a sm_b (sm_w 0) (compact (sm_both [sm_w 0] 1 None)) = Some sm_split"
  by code_simp

lemma sm_gates:
  "nl_set_structural_gate (sm_w 0) (nd_locks (sm_both [] 0 None)) = nd_locks (sm_both [sm_w 0] 1 None)"
  "nl_set_structural_gate (sm_w 1) (nd_locks (sm_leaf_a [] 1)) = nd_locks (sm_leaf_a [sm_w 1] 2)"
  "nl_set_structural_gate (sm_w 2) (nd_locks (sm_leaf_a [] 2)) = nd_locks (sm_leaf_a [sm_w 2] 3)"
  "ungate (sm_w 1) (sm_leaf_a [sm_w 1] 2) = sm_leaf_a [] 2"
  by code_simp+

definition sm_policy :: "nat \<Rightarrow> node_size_policy" where
  "sm_policy bytes = \<lparr>leaf_max_entries = 6, node_soft_max_bytes = 2 * bytes, index_max_children = 2,
     leaf_min_entries = 2, index_min_children = 1, node_max_bytes = 2 * bytes, split_headroom_bytes = 0\<rparr>"

definition sm_causes :: "nat \<Rightarrow> size_causes_policy" where
  "sm_causes bytes = size_causes_new \<lparr>ts_sizes = sm_policy bytes, ts_inline = \<lparr>max_value_bytes = 8, max_leaf_bytes = 8\<rparr>\<rparr>"

lemma sm_absorbs_empty:
  "absorb_attempt (\<lambda>_. 0) (sm_policy 0) (\<lambda>_. True) (sm_i 2) (sm_plan 2 (sm_leaf_a [sm_w 2] 3) 1) (sm_leaf_b 1)
     = Some (sm_both [] 3 (Some (sm_i 2)))"
  "absorb_attempt (\<lambda>_. 0) (sm_policy 0) (\<lambda>_. True) (sm_i 1) (sm_plan 1 (sm_leaf_a [sm_w 1] 2) 3) (sm_both [] 3 None)
     = Some (sm_both [] 4 (Some (sm_i 1)))"
  by code_simp+

lemma sm_unreserves:
  "remove_reservation_change (sm_i 2) (sm_both [] 3 (Some (sm_i 2))) = Some (sm_both [] 3 None)"
  "abandon_change (sm_i 1) (mp_target (sm_plan 1 (sm_leaf_a [sm_w 1] 2) 3)) (sm_both [] 4 (Some (sm_i 1))) = Some (sm_leaf_b 4)"
  by code_simp+

lemma absorb_attempt_fits:
  assumes "absorb_attempt pb_len policy final i m r = Some r'" "absorb_fits pb_len' policy' r'"
  shows "absorb_attempt pb_len' policy' final i m r = Some r'"
  using assms by (auto simp: absorb_attempt_def Let_def split: option.splits sum.splits if_splits)

definition sm_bytes :: "(pb_node \<Rightarrow> nat) \<Rightarrow> nat" where
  "sm_bytes pb_len = (\<Sum>n \<leftarrow> [sm_both [] 3 (Some (sm_i 2)), sm_both [] 4 (Some (sm_i 1)), sm_both [] 3 None, sm_root,
     sm_leaf_a [sm_w 1] 2, sm_leaf_a [sm_w 2] 3, sm_leaf_b 1]. content_encoded_len pb_len n + pb_len (node_to_pb n))"

lemma sm_fits:
  "absorb_fits pb_len (sm_policy (sm_bytes pb_len)) (sm_both [] 3 (Some (sm_i 2)))"
  "absorb_fits pb_len (sm_policy (sm_bytes pb_len)) (sm_both [] 4 (Some (sm_i 1)))"
  by (simp_all add: absorb_fits_def sm_policy_def content_limit_def sm_bytes_def)

lemmas sm_absorbs = sm_absorbs_empty(1)[THEN absorb_attempt_fits, OF sm_fits(1)]
  sm_absorbs_empty(2)[THEN absorb_attempt_fits, OF sm_fits(2)]

section \<open>The run\<close>

definition sm_gate :: "8 word \<Rightarrow> node_ref \<Rightarrow> node \<Rightarrow> tree \<Rightarrow> tree" where
  "sm_gate w p n T = (put p n {} T)\<lparr>tr_gated := (tr_gated T)(sm_w w \<mapsto> (p, n))\<rparr>"

definition sm_ready :: "8 word \<Rightarrow> node \<Rightarrow> 64 word \<Rightarrow> tree \<Rightarrow> tree" where
  "sm_ready w n gen T = moment (T\<lparr>tr_plans := (tr_plans T)(sm_i w \<mapsto> sm_plan w n gen)\<rparr>)"

definition sm_absorb :: "8 word \<Rightarrow> 64 word \<Rightarrow> tree \<Rightarrow> tree" where
  "sm_absorb w gen T =
     (put (Some sm_b) (sm_both [] gen (Some (sm_i w))) {} T)\<lparr>tr_absorbed := insert (sm_i w) (tr_absorbed T)\<rparr>"

definition sm_empty_a :: node where
  "sm_empty_a = drain sm_b (sm_leaf_a [sm_w 2] 3)"

definition sm_written :: tree where
  "sm_written = put None (sm_both [] 0 None) {} tree_init"

definition sm_created :: tree where
  "sm_created = (let T = sm_gate 0 None (sm_both [sm_w 0] 1 None) sm_written in
     moment (T\<lparr>tr_node := (\<lambda>q. case q of None \<Rightarrow> tr_node T None
           | Some i \<Rightarrow> (case map_of (sp_created sm_split) i of None \<Rightarrow> tr_node T q | Some c \<Rightarrow> Some c)),
         tr_ids := tr_ids T \<union> fst ` set (sp_created sm_split), tr_splits := insert (sm_w 0, sm_split) (tr_splits T)\<rparr>))"

definition sm_linked :: tree where
  "sm_linked = put None sm_root (links sm_root \<union> \<Union> (links ` snd ` set (sp_created sm_split))) sm_created"

definition sm_lost :: tree where
  "sm_lost = put (Some sm_a) (sm_leaf_a [] 2) {} (sm_gate 1 (Some sm_a) (sm_leaf_a [sm_w 1] 2) sm_linked)"

definition sm_planned :: tree where
  "sm_planned = sm_ready 2 (sm_leaf_a [sm_w 2] 3) 1 (sm_gate 2 (Some sm_a) (sm_leaf_a [sm_w 2] 3) sm_lost)"

definition sm_drained :: tree where
  "sm_drained = (let T = sm_absorb 2 3 sm_planned in
     (put (Some sm_a) sm_empty_a (links sm_empty_a) T)\<lparr>tr_drained := insert (sm_i 2) (tr_drained T)\<rparr>)"

definition sm_merged :: tree where
  "sm_merged = put (Some sm_b) (sm_both [] 3 None) {} sm_drained"

definition sm_stale :: tree where
  "sm_stale = sm_absorb 1 4 (sm_ready 1 (sm_leaf_a [sm_w 1] 2) 3 sm_merged)"

definition sm_end :: tree where
  "sm_end = put (Some sm_b) (sm_leaf_b 4) {} sm_stale"

lemma sm_distinct [simp]:
  "sm_a \<noteq> sm_b" "sm_b \<noteq> sm_a" "sm_w i = sm_w j \<longleftrightarrow> i = j" "sm_i i = sm_i j \<longleftrightarrow> i = j"
  by (simp_all add: sm_a_def sm_b_def sm_w_def sm_i_def)

lemma sm_entry_wf [simp]: "le_key (sm_entry k) = k" "le_wf (sm_entry k)"
  using le_wf_new[of k] by (simp_all add: sm_entry_def le_with_current_def le_new_def le_wf_def cs_wf_def id_ok_def kl_defs)

lemma sm_node_simps [simp]:
  "nd_body (sm_node l h r ks hs g v) = Leaf (LeafBody (map (\<lambda>k. (k, sm_entry k)) ks))"
  "nd_low_key (sm_node l h r ks hs g v) = l" "nd_high_key (sm_node l h r ks hs g v) = h"
  "nd_right_sibling (sm_node l h r ks hs g v) = r" "\<not> nd_drained (sm_node l h r ks hs g v)"
  "gate_holders (sm_node l h r ks hs g v) = hs" "generation (sm_node l h r ks hs g v) = g"
  "reservation (sm_node l h r ks hs g v) = v"
  by (simp_all add: sm_node_def eg_holders_def)

lemma sm_relock [simp]:
  "(sm_node l h r ks hs g v)\<lparr>nd_locks := nd_locks (sm_node l' h' r' ks' hs' g' v')\<rparr> = sm_node l h r ks hs' g' v'"
  by (simp add: sm_node_def)

lemma sm_state_simps [simp]:
  "tr_node (sm_gate w p n T) = (tr_node T)(p \<mapsto> n)" "tr_routes (sm_gate w p n T) = tr_routes T"
  "tr_gated (sm_gate w p n T) = (tr_gated T)(sm_w w \<mapsto> (p, n))" "tr_plans (sm_gate w p n T) = tr_plans T"
  "tr_absorbed (sm_gate w p n T) = tr_absorbed T" "tr_drained (sm_gate w p n T) = tr_drained T"
  "tr_ids (sm_gate w p n T) = tr_ids T" "tr_splits (sm_gate w p n T) = tr_splits T"
  "tr_node (sm_ready w n gen T) = tr_node T" "tr_routes (sm_ready w n gen T) = tr_routes T"
  "tr_gated (sm_ready w n gen T) = tr_gated T"
  "tr_plans (sm_ready w n gen T) = (tr_plans T)(sm_i w \<mapsto> sm_plan w n gen)"
  "tr_absorbed (sm_ready w n gen T) = tr_absorbed T" "tr_drained (sm_ready w n gen T) = tr_drained T"
  "tr_node (sm_absorb w gen T) = (tr_node T)(Some sm_b \<mapsto> sm_both [] gen (Some (sm_i w)))"
  "tr_routes (sm_absorb w gen T) = tr_routes T" "tr_gated (sm_absorb w gen T) = tr_gated T"
  "tr_plans (sm_absorb w gen T) = tr_plans T" "tr_absorbed (sm_absorb w gen T) = insert (sm_i w) (tr_absorbed T)"
  "tr_drained (sm_absorb w gen T) = tr_drained T"
  by (simp_all add: sm_gate_def sm_ready_def sm_absorb_def)

lemma sm_plan_simps [simp]:
  "mp_source (sm_plan w n gen) = sm_a" "mp_gated (sm_plan w n gen) = n" "mp_left (sm_plan w n gen) = n"
  "mt_node_id (mp_target (sm_plan w n gen)) = sm_b" "mt_boundary (mp_target (sm_plan w n gen)) = [2]"
  by (simp_all add: sm_plan_def)

lemma sm_root_body: "nd_body sm_root = Index (IndexNode [([], sm_a), ([2], sm_b)])"
  by code_simp

lemma sm_created_state:
  "tr_node sm_created = [None \<mapsto> sm_both [sm_w 0] 1 None, Some sm_a \<mapsto> sm_leaf_a [] 1, Some sm_b \<mapsto> sm_leaf_b 1]"
  "tr_routes sm_created = {}" "tr_gated sm_created = [sm_w 0 \<mapsto> (None, sm_both [sm_w 0] 1 None)]"
  "tr_plans sm_created = Map.empty" "tr_absorbed sm_created = {}" "tr_drained sm_created = {}"
  "(sm_w 0, sm_split) \<in> tr_splits sm_created"
  by (auto simp: sm_created_def sm_written_def tree_init_def sm_split_def Let_def fun_eq_iff split: option.splits)

lemma sm_linked_state:
  "tr_node sm_linked = [None \<mapsto> sm_root, Some sm_a \<mapsto> sm_leaf_a [] 1, Some sm_b \<mapsto> sm_leaf_b 1]"
  "linked (tr_routes sm_linked) (Some sm_a)" "linked (tr_routes sm_linked) (Some sm_b)"
  "tr_gated sm_linked = [sm_w 0 \<mapsto> (None, sm_both [sm_w 0] 1 None)]"
  "tr_plans sm_linked = Map.empty" "tr_absorbed sm_linked = {}" "tr_drained sm_linked = {}"
proof -
  have "(sm_a, []) \<in> links sm_root" "(sm_b, [2]) \<in> links sm_root"
    by (simp_all add: links_def sm_root_body)
  then show "linked (tr_routes sm_linked) (Some sm_a)" "linked (tr_routes sm_linked) (Some sm_b)"
    unfolding sm_linked_def linked_def by auto
qed (auto simp: sm_linked_def sm_created_state fun_eq_iff)

lemma sm_merged_state:
  "tr_node sm_merged = [None \<mapsto> sm_root, Some sm_a \<mapsto> sm_empty_a, Some sm_b \<mapsto> sm_both [] 3 None]"
  "tr_plans sm_merged = [sm_i 2 \<mapsto> sm_plan 2 (sm_leaf_a [sm_w 2] 3) 1]"
  "tr_gated sm_merged (sm_w 1) = Some (Some sm_a, sm_leaf_a [sm_w 1] 2)"
  "tr_absorbed sm_merged = {sm_i 2}" "tr_drained sm_merged = {sm_i 2}"
  "linked (tr_routes sm_merged) (Some sm_b)"
  using sm_linked_state(3)
  by (auto simp: sm_merged_def sm_drained_def sm_planned_def sm_lost_def sm_linked_state Let_def fun_eq_iff linked_def)

lemma sm_reclaim: "reclaim_holder_free_tombstones (sm_node l h r ks hs gen v) = ([], sm_node l h r ks hs gen v)"
  by (induction ks) (auto simp: reclaim_holder_free_tombstones_def lb_values_def is_reclaimable_def sm_entry_def le_with_current_def
      filter_empty_conv)

lemma sm_need:
  assumes "content_encoded_len pb_len (sm_leaf_a hs gen) + content_encoded_len pb_len r \<le> sm_bytes pb_len"
    "r = sm_node l None None ks hs' gen' None" "length ks \<le> 2" "\<forall>k \<in> set ks. length k = 1"
  shows "merge_need pb_len (sm_policy (sm_bytes pb_len)) (\<lambda>left _. sc_merge (sm_causes bytes) left) (sm_leaf_a hs gen) r Underfull = Inr ()"
proof -
  have "sum_list (map length ks) = length ks" if "\<forall>k \<in> set ks. length k = 1" for ks :: "bytes list"
    using that by (induction ks) simp_all
  then have "sum_list (map (\<lambda>k. length k) ks) \<le> 2" using assms(3,4) by simp
  then show ?thesis using assms(1,3)
    by (simp add: merge_need_def Let_def sm_reclaim assms(2) sc_merge_def as_leaf_def sc_underfull_def sc_half_def sm_causes_def
        size_causes_new_def sm_policy_def lb_values_def lb_len_def sm_entry_def le_with_current_def le_exists_def
        cs_inline_len_def content_limit_def comp_def)
qed

lemma sm_no_holders: "node_claims (sm_node l h r ks [] gen v) = []"
  by (induction ks) (simp_all add: node_claims_def sm_node_def sx_default_def eg_holders_def sx_holders_def ls_default_def as_leaf_def lb_values_def
      sm_entry_def le_with_current_def le_new_def le_lock_holders_def kl_defs)

lemma sm_prepare:
  assumes "N (Some sm_b) = Some r" "r = sm_node l None None ks [] gen' None" "length ks \<le> 2" "\<forall>k \<in> set ks. length k = 1"
    "content_encoded_len pb_len (sm_leaf_a hs gen) + content_encoded_len pb_len r \<le> sm_bytes pb_len"
  shows "merge_prepare pb_len (sm_policy (sm_bytes pb_len)) (\<lambda>left _. sc_merge (sm_causes bytes) left) (\<lambda>_. Inr True)
     (\<lambda>q. N (Some q)) sm_a (sm_w w) Underfull (sm_leaf_a hs gen)
     = Some (PreparedReady (ReadyMerge (mp_target (sm_plan w (sm_leaf_a hs gen) gen'))) (sm_plan w (sm_leaf_a hs gen) gen'))"
proof -
  have "search_target (Suc 4095) (\<lambda>q. N (Some q)) (Some sm_b) = Inr (Some (sm_b, r))"
    unfolding search_target.simps using assms by simp
  then have "search_target MAX_TARGET_SEARCH_HOPS (\<lambda>q. N (Some q)) (Some sm_b) = Inr (Some (sm_b, r))"
    by (simp add: MAX_TARGET_SEARCH_HOPS_def)
  moreover have "has_live_holder (\<lambda>_. Inr True) r = Inr False" by (simp add: has_live_holder_def assms(2) sm_no_holders)
  ultimately have "checked_target pb_len (sm_policy (sm_bytes pb_len)) (\<lambda>left _. sc_merge (sm_causes bytes) left) (\<lambda>_. Inr True)
      (\<lambda>q. N (Some q)) (sm_leaf_a hs gen) Underfull = Inr (Some (sm_b, r))"
    using sm_need[OF assms(5,2-4)] by (simp add: checked_target_def map_err_def assms(2))
  then show ?thesis by (simp add: merge_prepare_def sm_reclaim assms(2) sm_plan_def Let_def)
qed

lemma sm_split_prepare:
  "split_prepare pb_len (sm_policy (sm_bytes pb_len)) decisions True Capacity (sm_w 0) (sm_both [sm_w 0] 1 None) sm_a sm_b
     = Some (PreparedReady (ReadySplit [2]) sm_split)"
proof -
  have "root_split_plan None sm_a sm_b (sm_w 0) (sm_both [sm_w 0] 1 None) = Some sm_split"
    using sm_split_plan by (simp add: sm_reclaim)
  moreover have "content_encoded_len pb_len sm_root \<le> 2 * sm_bytes pb_len" "pb_len (node_to_pb sm_root) \<le> 2 * sm_bytes pb_len"
    by (simp_all add: sm_bytes_def)
  ultimately show ?thesis
    by (simp add: split_prepare_def decide_def as_leaf_def lb_len_def sm_reclaim plan_root_split_def sm_split_def sm_policy_def
        content_limit_def not_less)
qed

section \<open>Its steps\<close>

abbreviation "sm_step pb_len \<equiv> tree_step pb_len (sm_policy (sm_bytes pb_len)) False"
abbreviation "sm_reach pb_len \<equiv> tree_reach pb_len (sm_policy (sm_bytes pb_len)) False"

lemma sm_reach_created: "sm_reach pb_len sm_created"
proof -
  let ?g = "sm_gate 0 None (sm_both [sm_w 0] 1 None) sm_written"
  have w: "sm_written = put None ((node_leaf lb_new)\<lparr>nd_body := nd_body (sm_both [] 0 None), nd_locks := nd_locks (node_leaf lb_new)\<rparr>) {} tree_init"
    unfolding sm_written_def by (simp add: sm_node_def node_leaf_def nl_default_def eg_default_def ls_default_def)
  have "sm_step pb_len tree_init sm_written"
    unfolding w sm_node_simps
    by (rule tree_step.write_entries[where b = lb_new and keys = UNIV])
      (simp_all add: tree_init_def linked_def routed_ref_def node_leaf_def covers_def nl_default_def eg_defs ls_default_def
        lb_wf_def entries_wf_def)
  moreover have "sm_step pb_len sm_written ?g"
    unfolding sm_gate_def
    by (rule tree_step.gate[where n = "sm_both [] 0 None" and locks = "nd_locks (sm_both [] 0 None)"])
      (simp_all add: sm_written_def linked_def sm_gates tree_init_def)
  moreover have "sm_step pb_len ?g sm_created"
    unfolding sm_created_def Let_def
    by (rule tree_step.split_create[where p = None and n = "sm_both [sm_w 0] 1 None" and reason = Capacity
          and left_id = sm_a and right_id = sm_b])
      (simp_all add: sm_split_prepare sm_written_def tree_init_def sm_split_def, simp_all add: sm_a_def sm_b_def id_ok_def)
  ultimately show ?thesis by (meson tree_reach.intros)
qed

lemma sm_reach_planned: "sm_reach pb_len sm_planned"
proof -
  let ?g1 = "sm_gate 1 (Some sm_a) (sm_leaf_a [sm_w 1] 2) sm_linked"
  let ?g2 = "sm_gate 2 (Some sm_a) (sm_leaf_a [sm_w 2] 3) sm_lost"
  have "sm_step pb_len sm_created sm_linked"
    unfolding sm_linked_def
    using tree_step.split_link[OF sm_created_state(7), where p = None] by (simp add: sm_created_state sm_split_def)
  moreover have "sm_step pb_len sm_linked ?g1"
    unfolding sm_gate_def
    by (rule tree_step.gate[where n = "sm_leaf_a [] 1" and locks = "nd_locks (sm_leaf_a [] 1)"])
      (simp_all add: sm_linked_state sm_gates)
  moreover have "sm_step pb_len ?g1 sm_lost"
    unfolding sm_lost_def
    using tree_step.lose_gate[where T = ?g1 and w = "sm_w 1" and p = "Some sm_a" and s = "sm_leaf_a [sm_w 1] 2"
        and n = "sm_leaf_a [sm_w 1] 2"]
    by (simp add: sm_gates)
  moreover have "sm_step pb_len sm_lost ?g2"
    unfolding sm_gate_def
    by (rule tree_step.gate[where n = "sm_leaf_a [] 2" and locks = "nd_locks (sm_leaf_a [] 2)"])
      (simp_all add: sm_lost_def sm_linked_state sm_gates)
  moreover have "sm_step pb_len ?g2 sm_planned"
    unfolding sm_planned_def sm_ready_def
    using tree_step.merge_ready[where T = ?g2 and i = "sm_i 2" and checked = False,
        OF _ _ sm_prepare[where N = "tr_node ?g2" and r = "sm_leaf_b 1" and hs = "[sm_w 2]" and gen = 3 and pb_len = pb_len, OF _ refl]]
    by (simp add: sm_lost_def sm_linked_state) (simp add: sm_bytes_def)
  ultimately show ?thesis using sm_reach_created by (meson tree_reach.intros)
qed

lemma sm_reach_merged: "sm_reach pb_len sm_merged"
proof -
  let ?a = "sm_absorb 2 3 sm_planned"
  have d: "drained_into (tr_node sm_drained) (sm_plan 2 (sm_leaf_a [sm_w 2] 3) 1)"
    by (simp add: drained_into_def sm_drained_def Let_def sm_empty_a_def drain_def)
  have "sm_step pb_len sm_planned ?a"
    unfolding sm_absorb_def
    using tree_step.absorb[OF _ _ sm_absorbs(1), of sm_planned] by (simp add: sm_planned_def sm_lost_def sm_linked_state)
  moreover have "sm_step pb_len ?a sm_drained"
    unfolding sm_drained_def Let_def
    using tree_step.drain[where T = ?a and i = "sm_i 2" and m = "sm_plan 2 (sm_leaf_a [sm_w 2] 3) 1" and n' = sm_empty_a]
    by (simp add: sm_planned_def sm_empty_a_def)
  moreover have "sm_step pb_len sm_drained sm_merged"
    unfolding sm_merged_def
    using tree_step.release[OF _ d _ sm_unreserves(1)] by (simp add: sm_drained_def sm_planned_def Let_def)
  ultimately show ?thesis using sm_reach_planned by (meson tree_reach.intros)
qed

lemma sm_reach_stale: "sm_reach pb_len sm_stale"
proof -
  let ?r = "sm_ready 1 (sm_leaf_a [sm_w 1] 2) 3 sm_merged"
  have "sm_step pb_len sm_merged ?r"
    unfolding sm_ready_def
    using tree_step.merge_ready[where T = sm_merged and i = "sm_i 1" and checked = False, OF sm_merged_state(3) _ sm_prepare[where N = "tr_node sm_merged"
        and r = "sm_both [] 3 None" and pb_len = pb_len, OF _ refl]]
    by (simp add: sm_merged_state) (simp add: sm_bytes_def)
  moreover have "sm_step pb_len ?r sm_stale"
    unfolding sm_stale_def sm_absorb_def
    using tree_step.absorb[OF _ _ sm_absorbs(2), of ?r] by (simp add: sm_merged_state)
  ultimately show ?thesis using sm_reach_merged by (meson tree_reach.intros)
qed

lemma sm_step_end: "sm_step pb_len sm_stale sm_end"
proof -
  have "sm_empty_a \<noteq> sm_leaf_a [sm_w 1] 2"
    by (auto simp: sm_empty_a_def drain_def sm_node_def)
  then show ?thesis
    unfolding sm_end_def
    using tree_step.abandon[OF _ _ _ sm_unreserves(2), of sm_stale]
    by (simp add: sm_stale_def sm_merged_state)
qed

text \<open>C3: a merge that is planned from a lost gate loses entries. There is a run of writes, gates, splits
  and merges with the checks that the code makes, after which a key holds a value, and the abandoning of
  a merge is a step that leaves no node of the tree with that key.\<close>

theorem stale_merge_loses_entries:
  "\<exists>policy T T' k e. tree_reach pb_len policy False T \<and> holds T k e \<and> cs_exists (le_current e) \<and>
     tree_step pb_len policy False T T' \<and> (\<forall>p n. tr_node T' p = Some n \<longrightarrow> visible n k = None)"
proof (intro exI conjI)
  show "sm_reach pb_len sm_stale" "sm_step pb_len sm_stale sm_end" by (rule sm_reach_stale sm_step_end)+
  have "tr_low sm_stale (sm_both [] 4 (Some (sm_i 1))) = []"
    by (simp add: owned_low_def sm_stale_def sm_merged_state drained_into_def sm_empty_a_def drain_def)
  then have "owns sm_stale (Some sm_b) (sm_both [] 4 (Some (sm_i 1))) [1]"
    using sm_merged_state(6) by (simp add: owns_def sm_stale_def is_leaf_def as_leaf_def covers_def)
  moreover have "visible (sm_both [] 4 (Some (sm_i 1))) [1] = Some (sm_entry [1])"
    by code_simp
  ultimately show "holds sm_stale [1] (sm_entry [1])" unfolding holds_def by blast
  show "cs_exists (le_current (sm_entry [1]))" by code_simp
  have "visible sm_root [1] = None" "visible sm_empty_a [1] = None" "visible (sm_leaf_b 4) [1] = None"
    by code_simp+
  then show "\<forall>p n. tr_node sm_end p = Some n \<longrightarrow> visible n [1] = None"
    by (auto simp: sm_end_def sm_stale_def sm_merged_state split: if_splits)
qed

theorem stale_merge_loses_entries_witness:
  "\<exists>policy T T' k e. tree_reach (\<lambda>_. 0) policy False T \<and> holds T k e \<and> cs_exists (le_current e) \<and>
     tree_step (\<lambda>_. 0) policy False T T' \<and> (\<forall>p n. tr_node T' p = Some n \<longrightarrow> visible n k = None)"
  by (rule stale_merge_loses_entries)

end
