(* ===== verification/Candidates.thy ===== *)
theory Candidates
  imports Planning TxRecord
begin

text \<open>
  The queue of nodes that may need a structural change (\<^verbatim>\<open>structural/candidates.rs\<close>), the
  signals that fill it (\<^verbatim>\<open>structural/sink.rs\<close> and the \<^verbatim>\<open>TopologySignals\<close> of
  \<^verbatim>\<open>policy/size_causes.rs\<close>), and the order of paths that a drain uses. The lemmas show that
  the queue never exceeds its cap, and that a drain gives every queued path and cause once, splits
  before merges, with the oldest priority that was queued for it.
\<close>

section \<open>The order of object paths\<close>

text \<open>The derived order of \<^verbatim>\<open>ObjectPath\<close>: the variant, then its fields.\<close>

fun path_rank :: "object_path \<Rightarrow> nat \<times> string \<times> bytes \<times> bytes" where
  "path_rank (DatabaseMetadata db) = (0, db_str db, [], [])"
| "path_rank (CollectionRecord c) = (1, db_str (ca_db_prefix c), cid_bytes (ca_id c), [])"
| "path_rank (Transaction db i) = (2, db_str db, tx_bytes i, [])"
| "path_rank (TreeRoot c) = (3, db_str (ca_db_prefix c), cid_bytes (ca_id c), [])"
| "path_rank (NodePath c i) = (4, db_str (ca_db_prefix c), cid_bytes (ca_id c), nid_bytes i)"
| "path_rank (StructuralIntentPath db t i) = (5, db_str db, tx_bytes t, sid_bytes i)"

lemma path_rank_inj: "path_rank a = path_rank b \<Longrightarrow> a = b"
  by (cases a; cases b) (auto simp: db_prefix.expand collection_address.expand collection_id.expand tx_id.expand node_id.expand
      structural_intent_id.expand)

instantiation object_path :: linorder
begin

definition less_eq_object_path :: "object_path \<Rightarrow> object_path \<Rightarrow> bool" where
  "less_eq_object_path a b \<longleftrightarrow> path_rank a \<le> path_rank b"

definition less_object_path :: "object_path \<Rightarrow> object_path \<Rightarrow> bool" where
  "less_object_path a b \<longleftrightarrow> path_rank a < path_rank b"

instance
  by standard (auto simp: less_eq_object_path_def less_object_path_def dest: path_rank_inj)

end

section \<open>Candidates\<close>

datatype CandidateCause = SplitCause SplitReason | MergeCause MergeReason

fun cause_class :: "CandidateCause \<Rightarrow> nat" where
  "cause_class (SplitCause SoftCap) = 0"
| "cause_class (SplitCause (InlinePressure _ _)) = 1"
| "cause_class (SplitCause Capacity) = 2"
| "cause_class (SplitCause (Contention _)) = 3"
| "cause_class (MergeCause Underfull) = 4"
| "cause_class (MergeCause WriteSpan) = 5"

record maintenance_candidate =
  mc_path :: object_path
  mc_priority :: tx_id
  mc_cause :: CandidateCause

text \<open>\<^verbatim>\<open>coalesce\<close> on \<^verbatim>\<open>&mut self\<close> with the newer candidate \<open>other\<close>.\<close>

fun coalesce_cause :: "CandidateCause \<Rightarrow> CandidateCause \<Rightarrow> CandidateCause" where
  "coalesce_cause (SplitCause (InlinePressure key len)) (SplitCause (InlinePressure other_key other_len)) =
     (if other_len > len then SplitCause (InlinePressure other_key other_len) else SplitCause (InlinePressure key len))"
| "coalesce_cause (SplitCause (Contention key)) (SplitCause (Contention other_key)) = SplitCause (Contention other_key)"
| "coalesce_cause cause _ = cause"

definition coalesce :: "maintenance_candidate \<Rightarrow> maintenance_candidate \<Rightarrow> maintenance_candidate" where
  "coalesce c other = c\<lparr>
     mc_priority := (if older (mc_priority other) (mc_priority c) then mc_priority other else mc_priority c),
     mc_cause := coalesce_cause (mc_cause c) (mc_cause other)\<rparr>"

definition CANDIDATE_QUEUE_CAP :: nat where
  "CANDIDATE_QUEUE_CAP = 4096"

definition enqueue :: "maintenance_candidate \<Rightarrow> maintenance_candidate list \<Rightarrow> maintenance_candidate list" where
  "enqueue c q = (if length q \<ge> CANDIDATE_QUEUE_CAP then tl q else q) @ [c]"

definition candidate_key :: "maintenance_candidate \<Rightarrow> object_path \<times> nat" where
  "candidate_key c = (mc_path c, cause_class (mc_cause c))"

definition add_candidate ::
    "maintenance_candidate \<Rightarrow> (object_path \<times> nat, maintenance_candidate) omap \<Rightarrow> (object_path \<times> nat, maintenance_candidate) omap" where
  "add_candidate c by_path =
     (let key = candidate_key c
      in case map_of by_path key of
           Some current \<Rightarrow> om_insert key (coalesce current c) by_path
         | None \<Rightarrow> om_insert key c by_path)"

fun is_merge :: "CandidateCause \<Rightarrow> bool" where
  "is_merge (MergeCause _) = True"
| "is_merge (SplitCause _) = False"

text \<open>The candidates of one sweep; the queue is empty afterwards.\<close>

definition drain_candidates :: "maintenance_candidate list \<Rightarrow> maintenance_candidate list" where
  "drain_candidates q = sort_key (\<lambda>c. is_merge (mc_cause c)) (map snd (fold add_candidate q []))"

section \<open>Signals\<close>

text \<open>The cause that a stored leaf, an index or an inline value that did not fit queues for its path.
  \<open>leaf_encoded_len\<close> is the size of an encoded leaf body.\<close>

definition observe_leaf :: "(pb_leaf_body \<Rightarrow> nat) \<Rightarrow> size_causes_policy \<Rightarrow> object_path \<Rightarrow> leaf_body \<Rightarrow> CandidateCause option" where
  "observe_leaf leaf_encoded_len p path leaf =
     (let sizes = ts_sizes (sc_settings p);
          over_cap = (2 \<le> lb_len leaf \<and> (lb_len leaf > leaf_max_entries sizes
            \<or> leaf_encoded_len (lb_to_pb leaf) > node_soft_max_bytes sizes))
      in if over_cap then Some (SplitCause SoftCap)
         else if (case path of NodePath _ _ \<Rightarrow> True | _ \<Rightarrow> False) \<and> sc_underfull p leaf then Some (MergeCause Underfull)
         else None)"

definition observe_index :: "node_size_policy \<Rightarrow> object_path \<Rightarrow> node \<Rightarrow> CandidateCause option" where
  "observe_index sizes path n =
     (let underfull = (case as_index n of None \<Rightarrow> False | Some i \<Rightarrow> length (in_children i) < index_min_children sizes)
      in if (case path of NodePath _ _ \<Rightarrow> True | _ \<Rightarrow> False) \<and> underfull then Some (MergeCause Underfull) else None)"

definition inline_pressure :: "size_causes_policy \<Rightarrow> bytes \<Rightarrow> nat \<Rightarrow> CandidateCause option" where
  "inline_pressure p key value_len =
     (if admits_value (ts_inline (sc_settings p)) value_len then Some (SplitCause (InlinePressure key value_len)) else None)"

section \<open>A drain\<close>

lemma coalesce_cause_class [simp]: "cause_class a = cause_class b \<Longrightarrow> cause_class (coalesce_cause a b) = cause_class a"
  by (cases "(a, b)" rule: coalesce_cause.cases) auto

lemma coalesce_key: "candidate_key c = candidate_key d \<Longrightarrow> candidate_key (coalesce c d) = candidate_key c"
  by (simp add: coalesce_def candidate_key_def)

text \<open>A candidate for a key with the oldest priority of the candidates \<open>q\<close> for it.\<close>

definition oldest_of :: "maintenance_candidate list \<Rightarrow> object_path \<times> nat \<Rightarrow> maintenance_candidate \<Rightarrow> bool" where
  "oldest_of q k c \<longleftrightarrow> candidate_key c = k
     \<and> (\<exists>d \<in> set q. candidate_key d = k \<and> mc_priority c = mc_priority d)
     \<and> (\<forall>d \<in> set q. candidate_key d = k \<longrightarrow> \<not> older (mc_priority d) (mc_priority c))"

lemma oldest_of_coalesce:
  assumes "oldest_of q (candidate_key c) e"
  shows "oldest_of (q @ [c]) (candidate_key c) (coalesce e c)"
proof -
  have k: "candidate_key (coalesce e c) = candidate_key c" using assms coalesce_key[of e c] by (simp add: oldest_of_def)
  have p: "mc_priority (coalesce e c) = (if older (mc_priority c) (mc_priority e) then mc_priority c else mc_priority e)"
    by (simp add: coalesce_def)
  show ?thesis using assms k unfolding oldest_of_def p
    by (cases "older (mc_priority c) (mc_priority e)") (auto dest: older_trans)
qed

definition drained :: "maintenance_candidate list \<Rightarrow> (object_path \<times> nat, maintenance_candidate) omap \<Rightarrow> bool" where
  "drained q m \<longleftrightarrow> om_wf m \<and> dom (map_of m) = candidate_key ` set q \<and> (\<forall>k c. map_of m k = Some c \<longrightarrow> oldest_of q k c)"

lemma drained_add:
  assumes "drained q m"
  shows "drained (q @ [c]) (add_candidate c m)"
proof -
  let ?k = "candidate_key c"
  define v where "v = (case map_of m ?k of Some e \<Rightarrow> coalesce e c | None \<Rightarrow> c)"
  have add: "add_candidate c m = om_insert ?k v m"
    by (auto simp: add_candidate_def Let_def v_def split: option.splits)
  have wf: "om_wf m" and keys: "dom (map_of m) = candidate_key ` set q"
    and o: "\<And>k e. map_of m k = Some e \<Longrightarrow> oldest_of q k e" using assms by (auto simp: drained_def)
  have "oldest_of (q @ [c]) ?k v"
  proof (cases "map_of m ?k")
    case None
    then have "?k \<notin> candidate_key ` set q" using keys by (metis domIff)
    then have "candidate_key d \<noteq> ?k" if "d \<in> set q" for d using that by (metis imageI)
    then show ?thesis using None by (auto simp: v_def oldest_of_def)
  next
    case (Some e)
    then show ?thesis using oldest_of_coalesce[OF o[OF Some]] by (simp add: v_def)
  qed
  moreover have "oldest_of (q @ [c]) k e" if "map_of m k = Some e" "k \<noteq> ?k" for k e
    using o[OF that(1)] that(2) by (auto simp: oldest_of_def)
  ultimately show ?thesis using wf keys by (auto simp: drained_def add)
qed

lemma drained_fold: "drained q (fold add_candidate q [])"
proof (induction q rule: rev_induct)
  case Nil
  then show ?case by (simp add: drained_def)
next
  case (snoc c q)
  then show ?case using drained_add[of q "fold add_candidate q []" c] by simp
qed

text \<open>C35: a drain of the queue gives each queued path and cause class exactly once, all splits before all
  merges, each with a priority that was queued for it and than which none queued for it is older.\<close>

theorem drain_once_splits_first:
  "distinct (map candidate_key (drain_candidates q)) \<and> candidate_key ` set (drain_candidates q) = candidate_key ` set q
    \<and> sorted (map (\<lambda>c. is_merge (mc_cause c)) (drain_candidates q))
    \<and> (\<forall>c \<in> set (drain_candidates q). oldest_of q (candidate_key c) c)"
proof -
  let ?m = "fold add_candidate q []"
  have d: "om_wf ?m" "dom (map_of ?m) = candidate_key ` set q" "\<And>k c. map_of ?m k = Some c \<Longrightarrow> oldest_of q k c"
    using drained_fold[of q] by (auto simp: drained_def)
  have dist: "distinct (om_keys ?m)" using d(1) by (simp add: ascending_distinct)
  have k: "candidate_key c = k" "oldest_of q k c" if "(k, c) \<in> set ?m" for k c
    using d(3)[of k c] dist that by (auto simp: oldest_of_def)
  have "map candidate_key (map snd ?m) = om_keys ?m" using k(1) by (auto intro!: map_cong)
  then have "distinct (map candidate_key (map snd ?m))" using dist by metis
  then have "distinct (map candidate_key (drain_candidates q))"
    by (metis (no_types, lifting) distinct_map distinct_sort drain_candidates_def set_sort)
  moreover have "candidate_key ` set (drain_candidates q) = candidate_key ` set q"
  proof -
    have "candidate_key ` set (drain_candidates q) = fst ` set ?m"
      using k(1) by (force simp: drain_candidates_def)
    then show ?thesis using d(2) by (simp add: dom_map_of_conv_image_fst)
  qed
  moreover have "sorted (map (\<lambda>c. is_merge (mc_cause c)) (drain_candidates q))"
    unfolding drain_candidates_def by (rule sorted_sort_key)
  moreover have "oldest_of q (candidate_key c) c" if "c \<in> set (drain_candidates q)" for c
    using that k by (auto simp: drain_candidates_def)
  ultimately show ?thesis by blast
qed

theorem drain_once_splits_first_witness:
  "\<exists>q c. q = [\<lparr>mc_path = TreeRoot c, mc_priority = TxId (replicate 16 2), mc_cause = MergeCause Underfull\<rparr>,
        \<lparr>mc_path = TreeRoot c, mc_priority = TxId (replicate 16 1), mc_cause = SplitCause SoftCap\<rparr>]
    \<and> distinct (map candidate_key (drain_candidates q)) \<and> candidate_key ` set (drain_candidates q) = candidate_key ` set q
    \<and> sorted (map (\<lambda>c. is_merge (mc_cause c)) (drain_candidates q))
    \<and> (\<forall>c \<in> set (drain_candidates q). oldest_of q (candidate_key c) c)"
  using drain_once_splits_first by blast

text \<open>C36: the queue of candidates never grows over its cap, whatever is queued.\<close>

theorem queue_bounded: "length (fold enqueue cs []) \<le> CANDIDATE_QUEUE_CAP"
proof -
  have "length (fold enqueue cs q) \<le> CANDIDATE_QUEUE_CAP" if "length q \<le> CANDIDATE_QUEUE_CAP" for q
    using that by (induction cs arbitrary: q) (auto simp: enqueue_def CANDIDATE_QUEUE_CAP_def)
  then show ?thesis by simp
qed

end
