(* ===== verification/Spec2Isabelle.thy ===== *)
theory Spec2Isabelle
  imports TxStore Stale_Merge Candidates
begin

text \<open>
  GlassDB: a transactional key-value store over an object store whose only
  write primitive is a conditional put. This development models its data
  formats, its B-link tree nodes, its locks and its coordination protocol.
\<close>

end
